(* ===== verification/Prelude.thy ===== *)
theory Prelude
  imports Main "HOL-Library.Word" "HOL-Library.Multiset"
begin

text \<open>
  What every component shares: the machine types of the code (\<open>std::size_t\<close> is 64 bits wide,
  \<open>unsigned int\<close> 32), the faults an operation may end in, the sequencing of operations that may
  fault, and the lemmas on words and lists the component proofs rest on.
\<close>

type_synonym u64 = "64 word"
type_synonym u32 = "32 word"

section \<open>Faults\<close>

text \<open>
  An operation that does not return normally throws an exception of the code, runs into behaviour
  the C++ standard leaves undefined, waits forever for a mutex, or ends the program because an
  exception leaves a function declared \<open>noexcept\<close>. All four are values.
\<close>

datatype ub =
    Shift_Too_Far | Index_Out_Of_Range | Null_Deref | Dangling_Deref | Division_By_Zero | Overlapping_Copy

datatype fault = Runtime_Error string | Invalid_Argument | Out_Of_Range | Undefined ub | Deadlock | Terminated

primrec bindE :: "fault + 'a \<Rightarrow> ('a \<Rightarrow> fault + 'b) \<Rightarrow> fault + 'b" where
  "bindE (Inl e) f = Inl e"
| "bindE (Inr x) f = f x"

lemma bindE_eq_Inr: "bindE m f = Inr y \<longleftrightarrow> (\<exists>x. m = Inr x \<and> f x = Inr y)"
  by (cases m) auto

lemma bindE_eq_Inl: "bindE m f = Inl e \<longleftrightarrow> m = Inl e \<or> (\<exists>x. m = Inr x \<and> f x = Inl e)"
  by (cases m) auto

section \<open>Words read as natural numbers\<close>

named_theorems word_nat \<open>facts that move a statement on words to natural numbers\<close>

lemma unat_add_no_wrap:
  fixes a b :: "'a::len word"
  shows "unat a + unat b < 2 ^ LENGTH('a) \<Longrightarrow> unat (a + b) = unat a + unat b"
  by (simp add: unat_word_ariths)

lemma unat_mult_no_wrap:
  fixes a b :: "'a::len word"
  shows "unat a * unat b < 2 ^ LENGTH('a) \<Longrightarrow> unat (a * b) = unat a * unat b"
  by (simp add: unat_word_ariths)

lemma unat_minus_one_pos:
  fixes a :: "'a::len word"
  shows "a \<noteq> 0 \<Longrightarrow> unat (a - 1) = unat a - 1"
  by (simp add: unat_minus_one)

lemma unat_of_nat_small:
  "n < 2 ^ LENGTH('a) \<Longrightarrow> unat (of_nat n :: 'a::len word) = n"
  by (simp add: unat_of_nat take_bit_nat_eq_self)

lemma word_le_unat: "(a :: 'a::len word) \<le> b \<longleftrightarrow> unat a \<le> unat b"
  by (rule word_le_nat_alt)

lemma word_less_unat: "(a :: 'a::len word) < b \<longleftrightarrow> unat a < unat b"
  by (rule word_less_nat_alt)

lemma unat_drop_bit: "unat (drop_bit k (a :: 'a::len word)) = unat a div 2 ^ k"
  by (subst unat_drop_bit_eq) (simp only: drop_bit_eq_div)

lemma unat_push_bit:
  fixes a :: "'a::len word"
  shows "unat a * 2 ^ k < 2 ^ LENGTH('a) \<Longrightarrow> unat (push_bit k a) = unat a * 2 ^ k"
  by (subst unsigned_push_bit_eq) (simp add: push_bit_eq_mult take_bit_nat_eq_self)

lemma unat_div_word: "unat ((a :: 'a::len word) div b) = unat a div unat b"
  by (rule unat_div_distrib)

lemma unat_less_2p: "unat (a :: 'a::len word) < 2 ^ LENGTH('a)"
  by (rule unsigned_less)

declare word_le_unat [word_nat] word_less_unat [word_nat] unat_drop_bit [word_nat]
  unat_div_word [word_nat]

section \<open>Lists\<close>

lemma sum_list_mono_single: "x \<in> set xs \<Longrightarrow> (f x :: nat) \<le> sum_list (map f xs)"
  by (induction xs) auto

lemma distinct_map_nth_eq:
  "distinct (map f xs) \<Longrightarrow> i < length xs \<Longrightarrow> j < length xs \<Longrightarrow> f (xs ! i) = f (xs ! j) \<Longrightarrow> i = j"
  by (simp add: distinct_conv_nth) blast

text \<open>Replacing an element of a list changes a sum over it by the difference.\<close>

lemma sum_list_swap:
  "t < length xs \<Longrightarrow> sum_list (map f (xs[t := x])) + f (xs ! t) = sum_list (map f xs) + (f x :: nat)"
  by (induction xs arbitrary: t) (auto split: nat.splits)

end
