(* ===== verification/Block_Source.thy ===== *)
theory Block_Source
  imports Prelude
begin

text \<open>
  The contract that a pool offers to its heap and a heap to its users, and what follows from it for
  every sequence of requests: blocks are taken and given back in any order, and no two blocks held
  at the same time overlap.
\<close>

text \<open>A user takes a block, or gives back the block at a position of those it holds.\<close>

datatype 'c request = Take 'c | Give nat

fun run ::
  "('c \<Rightarrow> 'st \<Rightarrow> ('st \<times> (fault + 'b)) option) \<Rightarrow> ('b \<Rightarrow> 'st \<Rightarrow> ('st \<times> (fault + unit)) option)
     \<Rightarrow> 'c request list \<Rightarrow> 'st \<Rightarrow> 'b list \<Rightarrow> ('st \<times> 'b list \<times> fault option) option" where
  "run get put [] s held = Some (s, held, None)"
| "run get put (Take c # rs) s held =
     (case get c s of
        None \<Rightarrow> None
      | Some (s', Inl f) \<Rightarrow> Some (s', held, Some f)
      | Some (s', Inr b) \<Rightarrow> run get put rs s' (b # held))"
| "run get put (Give n # rs) s held =
     (if n < length held then
        case put (held ! n) s of
          None \<Rightarrow> None
        | Some (s', Inl f) \<Rightarrow> Some (s', take n held @ drop (Suc n) held, Some f)
        | Some (s', Inr _) \<Rightarrow> run get put rs s' (take n held @ drop (Suc n) held)
      else run get put rs s held)"

locale block_source =
  fixes get :: "'c \<Rightarrow> 'st \<Rightarrow> ('st \<times> (fault + 'b)) option"
    and put :: "'b \<Rightarrow> 'st \<Rightarrow> ('st \<times> (fault + unit)) option"
    and inv :: "'st \<Rightarrow> 'b multiset \<Rightarrow> bool"
    and clean :: "'st \<Rightarrow> bool"
    and disjoint :: "'st \<Rightarrow> 'b \<Rightarrow> 'b \<Rightarrow> bool"
  assumes get_returns: "inv s U \<Longrightarrow> \<exists>s' r. get c s = Some (s', r)"
    and get_block: "inv s U \<Longrightarrow> get c s = Some (s', Inr b) \<Longrightarrow> inv s' (add_mset b U)"
    and get_fault: "inv s U \<Longrightarrow> get c s = Some (s', Inl f) \<Longrightarrow> clean s'"
    and put_returns: "inv s (add_mset b U) \<Longrightarrow> \<exists>s' r. put b s = Some (s', r)"
    and put_block: "inv s (add_mset b U) \<Longrightarrow> put b s = Some (s', Inr u) \<Longrightarrow> inv s' U"
    and put_fault: "inv s (add_mset b U) \<Longrightarrow> put b s = Some (s', Inl f) \<Longrightarrow> clean s'"
    and inv_clean: "inv s U \<Longrightarrow> clean s"
    and inv_disjoint: "inv s U \<Longrightarrow> {#b, b'#} \<subseteq># U \<Longrightarrow> disjoint s b b'"
begin

lemma inv_pairwise:
  assumes "inv s (mset held)" and "i < length held" and "j < length held" and "i \<noteq> j"
  shows "disjoint s (held ! i) (held ! j)"
proof -
  have two: "{#xs ! a, xs ! b#} \<subseteq># mset xs" if "a < b" "b < length xs" for a b and xs :: "'b list"
  proof -
    have "xs = take b xs @ xs ! b # drop (Suc b) xs" using that by (simp add: id_take_nth_drop)
    then have "mset xs = add_mset (xs ! b) (mset (take b xs) + mset (drop (Suc b) xs))"
      by (metis mset.simps(2) mset_append union_mset_add_mset_right)
    moreover have "xs ! a \<in># mset (take b xs)" using that by (metis in_set_conv_nth length_take
      min.absorb4 nth_take set_mset_mset)
    ultimately show ?thesis by (simp add: add_mset_commute insert_subset_eq_iff)
  qed
  show ?thesis
  proof (cases "i < j")
    case True
    then show ?thesis using inv_disjoint [OF assms(1) two] assms(3) by blast
  next
    case False
    then have "{#held ! j, held ! i#} \<subseteq># mset held" using assms(2,4) by (intro two) simp_all
    then have "{#held ! i, held ! j#} \<subseteq># mset held" by (simp add: add_mset_commute)
    then show ?thesis by (rule inv_disjoint [OF assms(1)])
  qed
qed

lemma give_split: "n < length held \<Longrightarrow> mset held = add_mset (held ! n) (mset (take n held @ drop (Suc n) held))"
  by (metis id_take_nth_drop mset.simps(2) mset_append union_mset_add_mset_right)

text \<open>Every sequence of requests returns, and leaves the invariant with the blocks held at the end.\<close>

lemma run_ok:
  assumes "inv s (mset held)"
  shows "\<exists>s' held' r. run get put rs s held = Some (s', held', r) \<and> clean s'
    \<and> (r = None \<longrightarrow> inv s' (mset held'))"
  using assms
proof (induction rs arbitrary: s held)
  case Nil
  then show ?case by (simp add: inv_clean)
next
  case (Cons r rs)
  show ?case
  proof (cases r)
    case (Take c)
    obtain s' res where g: "get c s = Some (s', res)" using get_returns [OF Cons.prems] by blast
    show ?thesis
    proof (cases res)
      case (Inl f)
      then show ?thesis using Take g get_fault [OF Cons.prems] by simp
    next
      case (Inr b)
      then have "inv s' (mset (b # held))" using get_block [OF Cons.prems] g by simp
      from Cons.IH [OF this] show ?thesis using Take g Inr by simp
    qed
  next
    case (Give n)
    show ?thesis
    proof (cases "n < length held")
      case True
      let ?h = "take n held @ drop (Suc n) held"
      have i: "inv s (add_mset (held ! n) (mset ?h))" using Cons.prems give_split [OF True] by simp
      obtain s' res where p: "put (held ! n) s = Some (s', res)" using put_returns [OF i] by blast
      show ?thesis
      proof (cases res)
        case (Inl f)
        then show ?thesis using Give True p put_fault [OF i] by simp
      next
        case (Inr u)
        then have "inv s' (mset ?h)" using put_block [OF i] p by simp
        from Cons.IH [OF this] show ?thesis using Give True p Inr by simp
      qed
    next
      case False
      then show ?thesis using Give Cons by simp
    qed
  qed
qed

text \<open>So no two blocks held at the same time overlap.\<close>

lemma run_disjoint:
  assumes "inv s (mset held)" and "run get put rs s held = Some (s', held', None)"
    and "i < length held'" and "j < length held'" and "i \<noteq> j"
  shows "disjoint s' (held' ! i) (held' ! j)"
  using run_ok [OF assms(1), of rs] assms(2-) inv_pairwise [of s' held' i j] by auto

end

end
