(* ===== verification/Environment.thy ===== *)
theory Environment
  imports Prelude
begin

text \<open>
  What the library asks of its surroundings. The operating system, the C library's allocator and the
  transport layer's registration are outside the repository: they are functions of the history of
  what happened so far, so that the same call may answer differently each time. The history is a
  list of events, the latest first; the live allocations and registrations are computed from it.
\<close>

section \<open>Events and the state they leave\<close>

text \<open>Which allocator a piece of memory came from, and so which one has to take it back.\<close>

datatype memory_kind = Std_Memory | Numa_Memory | Gpu_Memory

text \<open>
  A memory region object returned by the transport layer's \<open>register_memory\<close>: the address and size
  it registered, the device for device memory, whether the address is one of a GPU's own address
  space, and a number that tells apart two registrations of the same memory.
\<close>

record region =
  rg_id :: nat
  rg_device :: "int option"
  rg_gpu :: bool
  rg_ptr :: u64
  rg_size :: u64

datatype event =
    Alloc memory_kind u64 nat
  | Alloc_Failed memory_kind nat
  | Dealloc memory_kind u64
  | Register region
  | Register_Failed
  | Deregister region
  | New_Object nat
  | Set_Device int
  | Call_Failed nat

type_synonym world = "event list"

type_synonym allocation_range = "memory_kind \<times> u64 \<times> nat"

fun live :: "world \<Rightarrow> allocation_range list" where
  "live [] = []"
| "live (Alloc k p n # w) = (k, p, n) # live w"
| "live (Dealloc k p # w) = filter (\<lambda>r. \<not> (fst r = k \<and> fst (snd r) = p)) (live w)"
| "live (e # w) = live w"

fun regs :: "world \<Rightarrow> region list" where
  "regs [] = []"
| "regs (Register r # w) = r # regs w"
| "regs (Deregister r # w) = remove1 r (regs w)"
| "regs (e # w) = regs w"

text \<open>Device memory has addresses of its own; everything else shares the process's.\<close>

definition same_space :: "memory_kind \<Rightarrow> memory_kind \<Rightarrow> bool" where
  "same_space k l \<longleftrightarrow> (k = Gpu_Memory) = (l = Gpu_Memory)"

definition apart :: "u64 \<Rightarrow> nat \<Rightarrow> u64 \<Rightarrow> nat \<Rightarrow> bool" where
  "apart p n q m \<longleftrightarrow> unat p + n \<le> unat q \<or> unat q + m \<le> unat p"

text \<open>
  What an allocator promises of a pointer it returns: not null, a range that does not run past the
  end of the address space, and no overlap with memory that is still allocated.
\<close>

definition fresh :: "world \<Rightarrow> memory_kind \<Rightarrow> u64 \<Rightarrow> nat \<Rightarrow> bool" where
  "fresh w k p n \<longleftrightarrow> p \<noteq> 0 \<and> unat p + n \<le> 2 ^ 64 \<and>
     list_all (\<lambda>(l, q, m). same_space k l \<longrightarrow> p \<noteq> q \<and> apart p n q m) (live w)"

text \<open>
  A history the library may be held responsible for: every release is of live memory and by the
  allocator it came from, no memory is released while a region inside it is registered, and every
  deregistration is of a live registration.
\<close>

definition region_inside :: "region \<Rightarrow> memory_kind \<Rightarrow> u64 \<Rightarrow> nat \<Rightarrow> bool" where
  "region_inside r k p n \<longleftrightarrow>
     rg_gpu r = (k = Gpu_Memory) \<and> unat p \<le> unat (rg_ptr r) \<and> unat (rg_ptr r) < unat p + n"

fun trace_ok :: "world \<Rightarrow> bool" where
  "trace_ok [] = True"
| "trace_ok (Dealloc k p # w) =
     (trace_ok w \<and>
      list_ex (\<lambda>(l, q, n). l = k \<and> q = p) (live w) \<and>
      list_all (\<lambda>(l, q, n). l = k \<and> q = p \<longrightarrow>
        list_all (\<lambda>r. \<not> region_inside r k p n) (regs w)) (live w))"
| "trace_ok (Deregister r # w) = (trace_ok w \<and> r \<in> set (regs w))"
| "trace_ok (e # w) = trace_ok w"

section \<open>The operating system and the C library\<close>

text \<open>
  \<open>calloc\<close>, \<open>malloc\<close>, \<open>numa_alloc_onnode\<close> and \<open>get_mempolicy\<close> answer from the history;
  \<open>sched_getcpu\<close> gives the processor of the calling thread. A null pointer is 0.
\<close>

record os =
  os_page_size :: u64
  os_calloc :: "world \<Rightarrow> u64 \<Rightarrow> u64 \<Rightarrow> u64"
  os_malloc :: "world \<Rightarrow> u64 \<Rightarrow> u64"
  os_numa_alloc_onnode :: "world \<Rightarrow> u64 \<Rightarrow> u64 \<Rightarrow> u64"
  os_get_mempolicy :: "world \<Rightarrow> u64 \<Rightarrow> u64"
  os_sched_getcpu :: "world \<Rightarrow> nat"

definition os_ok :: "os \<Rightarrow> bool" where
  "os_ok os \<longleftrightarrow> os_page_size os \<noteq> 0 \<and>
     (\<forall>w n s. os_calloc os w n s \<noteq> 0 \<longrightarrow> fresh w Std_Memory (os_calloc os w n s) (unat n * unat s)) \<and>
     (\<forall>w s. os_malloc os w s \<noteq> 0 \<longrightarrow> fresh w Std_Memory (os_malloc os w s) (unat s)) \<and>
     (\<forall>w s n. os_numa_alloc_onnode os w s n \<noteq> 0 \<longrightarrow>
        fresh w Numa_Memory (os_numa_alloc_onnode os w s n) (unat s))"

text \<open>Two live allocations of one address space never overlap, and a live address is not reused.\<close>

definition live_ok :: "world \<Rightarrow> bool" where
  "live_ok w \<longleftrightarrow>
     (\<forall>k p n. (k, p, n) \<in> set (live w) \<longrightarrow> p \<noteq> 0 \<and> unat p + n \<le> 2 ^ 64) \<and>
     (\<forall>k p n l q m. (k, p, n) \<in> set (live w) \<longrightarrow> (l, q, m) \<in> set (live w) \<longrightarrow> same_space k l \<longrightarrow>
        (k, p, n) = (l, q, m) \<or> p \<noteq> q \<and> apart p n q m) \<and>
     distinct (live w)"

lemma apart_sym: "apart p n q m \<longleftrightarrow> apart q m p n"
  by (auto simp: apart_def)

lemma same_space_sym: "same_space k l \<longleftrightarrow> same_space l k"
  by (auto simp: same_space_def)

lemma same_space_refl [simp]: "same_space k k"
  by (simp add: same_space_def)

lemma live_ok_Nil [simp]: "live_ok []"
  by (simp add: live_ok_def)

lemma freshD:
  assumes "fresh w k p n" and "(l, q, m) \<in> set (live w)" and "same_space k l"
  shows "p \<noteq> q" and "apart p n q m"
  using assms by (auto simp: fresh_def list_all_iff)

lemma live_okD:
  assumes "live_ok w" and "(k, p, n) \<in> set (live w)" and "(l, q, m) \<in> set (live w)"
    and "same_space k l" and "(k, p, n) \<noteq> (l, q, m)"
  shows "p \<noteq> q" and "apart p n q m"
  using assms unfolding live_ok_def by blast+

lemma live_ok_bound:
  assumes "live_ok w" and "(k, p, n) \<in> set (live w)"
  shows "p \<noteq> 0" and "unat p + n \<le> 2 ^ 64"
  using assms unfolding live_ok_def by blast+

lemma live_ok_Alloc:
  assumes ok: "live_ok w" and fr: "fresh w k p n"
  shows "live_ok (Alloc k p n # w)"
proof -
  have new: "p \<noteq> q \<and> apart p n q m" if "(l, q, m) \<in> set (live w)" "same_space k l" for l q m
    using freshD [OF fr that] by simp
  have old: "q \<noteq> p \<and> apart q m p n" if "(l, q, m) \<in> set (live w)" "same_space l k" for l q m
    using new [OF that(1)] that(2) by (metis apart_sym same_space_sym)
  have "(k, p, n) \<notin> set (live w)" using new by fastforce
  then show ?thesis
    using ok fr new old unfolding live_ok_def fresh_def by simp
qed

lemma live_ok_subset:
  assumes "live_ok w" and "set (live v) \<subseteq> set (live w)" and "distinct (live v)"
  shows "live_ok v"
  using assms unfolding live_ok_def by blast

lemma live_ok_same: "live v = live w \<Longrightarrow> live_ok v = live_ok w"
  by (simp add: live_ok_def)

lemma live_ok_Dealloc: "live_ok w \<Longrightarrow> live_ok (Dealloc k p # w)"
  by (rule live_ok_subset [of w]) (auto simp: live_ok_def)

lemma live_ok_simps [simp]:
  "live_ok (Alloc_Failed k n # w) = live_ok w"
  "live_ok (Register r # w) = live_ok w"
  "live_ok (Register_Failed # w) = live_ok w"
  "live_ok (Deregister r # w) = live_ok w"
  "live_ok (New_Object i # w) = live_ok w"
  "live_ok (Set_Device d # w) = live_ok w"
  "live_ok (Call_Failed s # w) = live_ok w"
  by (simp_all add: live_ok_def)

lemma live_Dealloc_Alloc:
  assumes "fresh w k p n" and "live v = (k, p, n) # live w"
  shows "live (Dealloc k p # v) = live w"
proof -
  have "\<not> (fst r = k \<and> fst (snd r) = p)" if r: "r \<in> set (live w)" for r
  proof (cases r)
    case (fields l q m)
    then show ?thesis using freshD(1) [OF assms(1), of l q m] r by auto
  qed
  then show ?thesis using assms(2) by (simp add: filter_id_conv)
qed


text \<open>The history only grows.\<close>

definition extends :: "world \<Rightarrow> world \<Rightarrow> bool" where
  "extends w' w \<longleftrightarrow> (\<exists>es. w' = es @ w)"

lemma extends_refl [simp, intro]: "extends w w"
  by (simp add: extends_def)

lemma extends_Cons: "extends w' w \<Longrightarrow> extends (e # w') w"
  unfolding extends_def by (metis append_Cons)

lemma extends_Cons1 [simp, intro]: "extends (e # w) w"
  by (rule extends_Cons) simp

lemma extends_trans [trans]: "extends w'' w' \<Longrightarrow> extends w' w \<Longrightarrow> extends w'' w"
  unfolding extends_def by (metis append.assoc)

lemma extends_length: "extends w' w \<Longrightarrow> length w \<le> length w'"
  by (auto simp: extends_def)


text \<open>Releasing a live allocation that no registered region lies in keeps the history clean.\<close>

lemma trace_ok_Dealloc:
  assumes "trace_ok w" and "live_ok w" and "(k, p, n) \<in> set (live w)"
    and "\<And>r. r \<in> set (regs w) \<Longrightarrow> \<not> region_inside r k p n"
  shows "trace_ok (Dealloc k p # w)"
proof -
  have "m = n" if "(k, p, m) \<in> set (live w)" for m
    using live_okD(1) [OF assms(2) that assms(3)] by auto
  then have "list_all (\<lambda>(l, q, m). l = k \<and> q = p \<longrightarrow>
      list_all (\<lambda>r. \<not> region_inside r k p m) (regs w)) (live w)"
    using assms(4) by (fastforce simp: list_all_iff)
  moreover have "list_ex (\<lambda>(l, q, m). l = k \<and> q = p) (live w)"
    using assms(3) by (fastforce simp: list_ex_iff)
  ultimately show ?thesis using assms(1) by simp
qed

end
