(* ===== verification/Numa.thy ===== *)
theory Numa
  imports Environment
begin

text \<open>
  The NUMA layer: \<open>include/hwmalloc/numa.hpp\<close> with its two implementations, \<open>src/numa.cpp\<close> over
  libnuma and the single-node \<open>src/numa_stub.cpp\<close>. First the node map, then the discovery of the
  machine's nodes, then allocation and release, and the interface that both implementations meet.
\<close>

section \<open>The node map\<close>

text \<open>
  \<open>numa_tools::node_map\<close>: the node ids in increasing order with their positions, and a table from
  node id to position in which the number of nodes marks an absent id. Iterators are positions in
  \<open>nodes\<close>; the end iterator is its length.
\<close>

record node_map =
  nodes :: "(u64 \<times> u64) list"
  nodes_to_index :: "u64 list"

fun fill_nodes :: "nat \<Rightarrow> u64 list \<Rightarrow> node_map \<Rightarrow> node_map" where
  "fill_nodes idx [] m = m"
| "fill_nodes idx (n # ns) m =
     fill_nodes (Suc idx) ns
       (m\<lparr>nodes_to_index := (nodes_to_index m)[unat n := of_nat idx],
          nodes := nodes m @ [(n, of_nat idx)]\<rparr>)"

definition make_node_map :: "u64 list \<Rightarrow> node_map" where
  "make_node_map ns =
     (if ns = [] then \<lparr>nodes = [], nodes_to_index = []\<rparr>
      else let s = sort ns
           in fill_nodes 0 s \<lparr>nodes = [], nodes_to_index = replicate (unat (last s + 1)) (of_nat (length s))\<rparr>)"

definition node_map_size :: "node_map \<Rightarrow> nat" where
  "node_map_size m = length (nodes m)"

definition upper_bound_key :: "node_map \<Rightarrow> nat" where
  "upper_bound_key m = length (nodes_to_index m)"

definition node_map_find :: "node_map \<Rightarrow> u64 \<Rightarrow> nat" where
  "node_map_find m n =
     (if upper_bound_key m \<le> unat n then node_map_size m else unat (nodes_to_index m ! unat n))"

definition node_map_count :: "node_map \<Rightarrow> u64 \<Rightarrow> nat" where
  "node_map_count m n =
     (if upper_bound_key m \<le> unat n then 0
      else if unat (nodes_to_index m ! unat n) < node_map_size m then 1 else 0)"

lemma fill_nodes_nodes:
  "nodes (fill_nodes idx ns m) = nodes m @ zip ns (map of_nat [idx ..< idx + length ns])"
proof (induction ns arbitrary: idx m)
  case Nil
  then show ?case by simp
next
  case (Cons n ns)
  have "[idx ..< idx + length (n # ns)] = idx # [Suc idx ..< Suc idx + length ns]"
    by (subst upt_rec) simp
  then show ?case using Cons.IH by (simp del: upt_Suc)
qed

lemma fill_nodes_length [simp]: "length (nodes_to_index (fill_nodes idx ns m)) = length (nodes_to_index m)"
  by (induction ns arbitrary: idx m) simp_all

lemma fill_nodes_other:
  "k \<notin> set ns \<Longrightarrow> nodes_to_index (fill_nodes idx ns m) ! unat k = nodes_to_index m ! unat k"
proof (induction ns arbitrary: idx m)
  case Nil
  then show ?case by simp
next
  case (Cons n ns)
  then have "unat n \<noteq> unat k" by (auto simp: word_unat_eq_iff)
  then show ?case using Cons by simp
qed

lemma fill_nodes_index:
  assumes "k \<in> set ns" and "unat k < length (nodes_to_index m)"
  shows "\<exists>i < length ns. ns ! i = k \<and> nodes_to_index (fill_nodes idx ns m) ! unat k = of_nat (idx + i)"
  using assms
proof (induction ns arbitrary: idx m)
  case Nil
  then show ?case by simp
next
  case (Cons n ns)
  let ?m = "m\<lparr>nodes_to_index := (nodes_to_index m)[unat n := of_nat idx], nodes := nodes m @ [(n, of_nat idx)]\<rparr>"
  show ?case
  proof (cases "k \<in> set ns")
    case True
    have "unat k < length (nodes_to_index ?m)" using Cons.prems(2) by simp
    from Cons.IH [OF True this, of "Suc idx"] obtain i where "i < length ns" "ns ! i = k"
      "nodes_to_index (fill_nodes (Suc idx) ns ?m) ! unat k = of_nat (Suc idx + i)" by blast
    then show ?thesis by (intro exI [of _ "Suc i"]) simp
  next
    case False
    then have "n = k" using Cons.prems(1) by simp
    moreover have "nodes_to_index (fill_nodes (Suc idx) ns ?m) ! unat k = nodes_to_index ?m ! unat k"
      using False by (rule fill_nodes_other)
    ultimately show ?thesis using Cons.prems(2) by (intro exI [of _ 0]) simp
  qed
qed

lemma make_node_map_nodes:
  "nodes (make_node_map ns) = zip (sort ns) (map of_nat [0 ..< length ns])"
  by (simp add: make_node_map_def fill_nodes_nodes Let_def)

lemma make_node_map_size: "node_map_size (make_node_map ns) = length ns"
  by (simp add: node_map_size_def make_node_map_nodes)

lemma sort_last_max: "n \<in> set ns \<Longrightarrow> n \<le> last (sort ns)"
proof -
  assume n: "n \<in> set ns"
  then have ne: "sort ns \<noteq> []" by (metis empty_iff set_empty set_sort)
  obtain i where i: "i < length (sort ns)" "sort ns ! i = n"
    using n by (metis in_set_conv_nth set_sort)
  then have "sort ns ! i \<le> sort ns ! (length (sort ns) - 1)"
    by (intro sorted_nth_mono) (auto simp: sorted_sort)
  then show ?thesis using i ne by (simp add: last_conv_nth)
qed

text \<open>
  The main fact on look-up: for ids below the largest word and fewer than 2^64 of them, a present id
  is found at a position that holds it, an absent one is not found.
\<close>

lemma node_map_find_present:
  assumes "n \<in> set ns" and top: "\<forall>k \<in> set ns. k \<noteq> - 1" and len: "length ns < 2 ^ 64"
  shows "node_map_find (make_node_map ns) n < length ns
    \<and> sort ns ! node_map_find (make_node_map ns) n = n
    \<and> nodes (make_node_map ns) ! node_map_find (make_node_map ns) n
        = (n, of_nat (node_map_find (make_node_map ns) n))"
proof -
  let ?s = "sort ns"
  let ?m = "\<lparr>nodes = [], nodes_to_index = replicate (unat (last ?s + 1)) (of_nat (length ?s))\<rparr> :: node_map"
  have ne: "ns \<noteq> []" using assms(1) by auto
  then have l: "last ?s \<in> set ns" by (metis last_in_set set_empty set_sort)
  then have "last ?s + 1 \<noteq> 0" using top by (metis add.commute add_eq_0_iff)
  then have up: "unat (last ?s + 1) = Suc (unat (last ?s))" by (simp add: unatSuc add.commute)
  have bound: "unat n < length (nodes_to_index ?m)"
    using sort_last_max [OF assms(1)] up by (simp add: word_nat)
  have "n \<in> set ?s" using assms(1) by simp
  from fill_nodes_index [OF this bound, of 0] obtain i where i: "i < length ns" "?s ! i = n"
    "nodes_to_index (fill_nodes 0 ?s ?m) ! unat n = of_nat i" by auto
  have mk: "make_node_map ns = fill_nodes 0 ?s ?m" using ne by (simp add: make_node_map_def Let_def)
  have "unat (of_nat i :: u64) = i" using i(1) len by (intro unat_of_nat_small) simp
  then have f: "node_map_find (make_node_map ns) n = i"
    using i(3) bound by (simp add: node_map_find_def mk upper_bound_key_def)
  have "nodes (make_node_map ns) ! i = (?s ! i, of_nat i)"
    using i(1) by (simp add: make_node_map_nodes)
  then show ?thesis using f i by simp
qed

lemma node_map_find_absent:
  assumes "n \<notin> set ns" and len: "length ns < 2 ^ 64"
  shows "node_map_find (make_node_map ns) n = length ns"
proof (cases "ns = []")
  case True
  then show ?thesis by (simp add: node_map_find_def make_node_map_def upper_bound_key_def node_map_size_def)
next
  case False
  let ?s = "sort ns"
  let ?m = "\<lparr>nodes = [], nodes_to_index = replicate (unat (last ?s + 1)) (of_nat (length ?s))\<rparr> :: node_map"
  have mk: "make_node_map ns = fill_nodes 0 ?s ?m" using False by (simp add: make_node_map_def Let_def)
  have "n \<notin> set ?s" using assms(1) by simp
  then have "nodes_to_index (fill_nodes 0 ?s ?m) ! unat n = nodes_to_index ?m ! unat n"
    by (rule fill_nodes_other)
  moreover have "unat (of_nat (length ns) :: u64) = length ns" using len by (intro unat_of_nat_small) simp
  ultimately show ?thesis
    using make_node_map_size [of ns]
    by (simp add: node_map_find_def mk upper_bound_key_def)
qed

lemma node_map_count_find:
  "node_map_find m n \<le> node_map_size m \<Longrightarrow>
     node_map_count m n = (if node_map_find m n < node_map_size m then 1 else 0)"
  by (auto simp: node_map_count_def node_map_find_def)


section \<open>The machine's nodes\<close>

text \<open>
  What libnuma and the kernel report of the machine and of the calling process, and the one instance
  of \<open>numa_tools\<close> built from it. An instance whose libnuma is not available keeps empty maps.
\<close>

record libnuma =
  ln_available :: bool
  ln_get_nprocs :: nat
  ln_node_of_cpu :: "nat \<Rightarrow> u64"
  ln_task_cpu :: "nat \<Rightarrow> bool"
  ln_num_nodes :: nat
  ln_node_accessible :: "nat \<Rightarrow> bool"
  ln_cpus_of_node :: "nat \<Rightarrow> nat"

record numa_tools =
  m_cpu_to_node :: "u64 list"
  m_host_nodes :: node_map
  m_local_nodes :: node_map
  m_device_nodes :: node_map
  is_initialized :: bool

definition empty_numa_tools :: numa_tools where
  "empty_numa_tools = \<lparr>m_cpu_to_node = [], m_host_nodes = make_node_map [],
     m_local_nodes = make_node_map [], m_device_nodes = make_node_map [], is_initialized = False\<rparr>"

text \<open>\<open>discover_nodes\<close>: the nodes of the task's processors, sorted without repetition, are local;
  an accessible node with processors is a host node, one without is a device node.\<close>

definition task_nodes :: "libnuma \<Rightarrow> u64 list" where
  "task_nodes ln = map (ln_node_of_cpu ln) (filter (ln_task_cpu ln) [0 ..< ln_get_nprocs ln])"

definition libnuma_discover_nodes :: "libnuma \<Rightarrow> numa_tools \<Rightarrow> numa_tools" where
  "libnuma_discover_nodes ln t =
     (let accessible = filter (ln_node_accessible ln) [0 ..< ln_num_nodes ln]
      in t\<lparr>m_cpu_to_node := map (ln_node_of_cpu ln) [0 ..< ln_get_nprocs ln],
           m_host_nodes := make_node_map (map of_nat (filter (\<lambda>i. 0 < ln_cpus_of_node ln i) accessible)),
           m_local_nodes := make_node_map (remdups_adj (sort (task_nodes ln))),
           m_device_nodes := make_node_map (map of_nat (filter (\<lambda>i. \<not> 0 < ln_cpus_of_node ln i) accessible)),
           is_initialized := True\<rparr>)"

definition libnuma_make_numa_tools :: "libnuma \<Rightarrow> numa_tools" where
  "libnuma_make_numa_tools ln =
     (if ln_available ln then libnuma_discover_nodes ln empty_numa_tools else empty_numa_tools)"

definition stub_discover_nodes :: "numa_tools \<Rightarrow> numa_tools" where
  "stub_discover_nodes t = t\<lparr>m_local_nodes := make_node_map [0], is_initialized := True\<rparr>"

definition stub_make_numa_tools :: numa_tools where
  "stub_make_numa_tools = stub_discover_nodes empty_numa_tools"

text \<open>
  The build selects an implementation (\<open>src/CMakeLists.txt\<close>); with libnuma the option
  \<open>HWMALLOC_NUMA_FOR_LOCAL\<close> says whether local nodes are served by libnuma too.
\<close>

datatype numa_backend = Libnuma bool | Stub

record numa_env =
  ne_os :: os
  ne_backend :: numa_backend
  ne_tools :: numa_tools

definition page_size :: "numa_env \<Rightarrow> u64" where
  "page_size e = os_page_size (ne_os e)"

definition local_nodes :: "numa_env \<Rightarrow> node_map" where
  "local_nodes e = m_local_nodes (ne_tools e)"

definition libnuma_local_node :: "numa_env \<Rightarrow> world \<Rightarrow> fault + u64" where
  "libnuma_local_node e w =
     (let cpu = os_sched_getcpu (ne_os e) w
      in if cpu < length (m_cpu_to_node (ne_tools e)) then Inr (m_cpu_to_node (ne_tools e) ! cpu)
         else Inl (Undefined Index_Out_Of_Range))"

definition stub_local_node :: "fault + u64" where
  "stub_local_node = Inr 0"

definition local_node :: "numa_env \<Rightarrow> world \<Rightarrow> fault + u64" where
  "local_node e w = (case ne_backend e of Libnuma _ \<Rightarrow> libnuma_local_node e w | Stub \<Rightarrow> stub_local_node)"

definition can_allocate_on :: "numa_env \<Rightarrow> u64 \<Rightarrow> bool" where
  "can_allocate_on e node \<longleftrightarrow> 0 < node_map_count (local_nodes e) node"

section \<open>Allocation and release\<close>

record allocation =
  a_ptr :: u64
  a_size :: u64
  a_node :: u64
  a_use_numa_free :: bool

definition null_allocation :: allocation where
  "null_allocation = \<lparr>a_ptr = 0, a_size = 0, a_node = 0, a_use_numa_free = True\<rparr>"

definition a_valid :: "allocation \<Rightarrow> bool" where
  "a_valid a \<longleftrightarrow> a_ptr a \<noteq> 0"

definition a_kind :: "allocation \<Rightarrow> memory_kind" where
  "a_kind a = (if a_use_numa_free a then Numa_Memory else Std_Memory)"

definition libnuma_get_node :: "numa_env \<Rightarrow> world \<Rightarrow> u64 \<Rightarrow> u64" where
  "libnuma_get_node e w p = os_get_mempolicy (ne_os e) w p"

definition libnuma_allocate_malloc :: "numa_env \<Rightarrow> world \<Rightarrow> u64 \<Rightarrow> world \<times> allocation" where
  "libnuma_allocate_malloc e w num_pages =
     (let p = os_calloc (ne_os e) w num_pages (page_size e);
          n = unat num_pages * unat (page_size e)
      in if p = 0 then (Alloc_Failed Std_Memory n # w, null_allocation)
         else let w' = Alloc Std_Memory p n # w
              in (w', \<lparr>a_ptr = p, a_size = num_pages * page_size e,
                       a_node = libnuma_get_node e w' p, a_use_numa_free = False\<rparr>))"

definition libnuma_allocate_onnode :: "numa_env \<Rightarrow> world \<Rightarrow> u64 \<Rightarrow> u64 \<Rightarrow> world \<times> allocation" where
  "libnuma_allocate_onnode e w num_pages node =
     (if \<not> can_allocate_on e node then libnuma_allocate_malloc e w num_pages
      else let bytes = num_pages * page_size e;
               p = os_numa_alloc_onnode (ne_os e) w bytes node
           in if p = 0 then libnuma_allocate_malloc e (Alloc_Failed Numa_Memory (unat bytes) # w) num_pages
              else (Alloc Numa_Memory p (unat bytes) # w,
                    \<lparr>a_ptr = p, a_size = bytes, a_node = node, a_use_numa_free = True\<rparr>))"

definition libnuma_allocate :: "bool \<Rightarrow> numa_env \<Rightarrow> world \<Rightarrow> u64 \<Rightarrow> u64 \<Rightarrow> world \<times> (fault + allocation)" where
  "libnuma_allocate numa_for_local e w num_pages node =
     (if num_pages = 0 then (w, Inr null_allocation)
      else if numa_for_local then map_prod id Inr (libnuma_allocate_onnode e w num_pages node)
      else (case libnuma_local_node e w of
              Inl f \<Rightarrow> (w, Inl f)
            | Inr l \<Rightarrow>
                map_prod id Inr
                  (if node = l then libnuma_allocate_malloc e w num_pages
                   else libnuma_allocate_onnode e w num_pages node)))"

definition stub_get_node :: "u64 \<Rightarrow> u64" where
  "stub_get_node p = 0"

definition stub_allocate_malloc :: "numa_env \<Rightarrow> world \<Rightarrow> u64 \<Rightarrow> world \<times> allocation" where
  "stub_allocate_malloc e w num_pages =
     (let p = os_calloc (ne_os e) w num_pages (page_size e);
          n = unat num_pages * unat (page_size e)
      in if p = 0 then (Alloc_Failed Std_Memory n # w, null_allocation)
         else (Alloc Std_Memory p n # w,
               \<lparr>a_ptr = p, a_size = num_pages * page_size e, a_node = stub_get_node p,
                a_use_numa_free = False\<rparr>))"

definition stub_allocate :: "numa_env \<Rightarrow> world \<Rightarrow> u64 \<Rightarrow> u64 \<Rightarrow> world \<times> (fault + allocation)" where
  "stub_allocate e w num_pages node =
     (if num_pages = 0 then (w, Inr null_allocation)
      else map_prod id Inr (stub_allocate_malloc e w num_pages))"

definition numa_allocate :: "numa_env \<Rightarrow> world \<Rightarrow> u64 \<Rightarrow> u64 \<Rightarrow> world \<times> (fault + allocation)" where
  "numa_allocate e w num_pages node =
     (case ne_backend e of
        Libnuma numa_for_local \<Rightarrow> libnuma_allocate numa_for_local e w num_pages node
      | Stub \<Rightarrow> stub_allocate e w num_pages node)"

text \<open>The overload without a node asks for the calling thread's node.\<close>

definition numa_allocate_local :: "numa_env \<Rightarrow> world \<Rightarrow> u64 \<Rightarrow> world \<times> (fault + allocation)" where
  "numa_allocate_local e w num_pages =
     (case local_node e w of Inl f \<Rightarrow> (w, Inl f) | Inr l \<Rightarrow> numa_allocate e w num_pages l)"

definition libnuma_free :: "world \<Rightarrow> allocation \<Rightarrow> world" where
  "libnuma_free w a =
     (if a_valid a
      then if a_use_numa_free a then Dealloc Numa_Memory (a_ptr a) # w
           else Dealloc Std_Memory (a_ptr a) # w
      else w)"

text \<open>The stub's own, for its one node.\<close>

definition stub_can_allocate_on :: "numa_env \<Rightarrow> u64 \<Rightarrow> bool" where
  "stub_can_allocate_on e node \<longleftrightarrow> 0 < node_map_count (local_nodes e) node"

definition stub_allocate_local :: "numa_env \<Rightarrow> world \<Rightarrow> u64 \<Rightarrow> world \<times> (fault + allocation)" where
  "stub_allocate_local e w num_pages =
     (case stub_local_node of Inl f \<Rightarrow> (w, Inl f) | Inr node \<Rightarrow> stub_allocate e w num_pages node)"

definition stub_free :: "world \<Rightarrow> allocation \<Rightarrow> world" where
  "stub_free w a = (if a_valid a then Dealloc Std_Memory (a_ptr a) # w else w)"

definition numa_free :: "numa_env \<Rightarrow> world \<Rightarrow> allocation \<Rightarrow> world" where
  "numa_free e w a = (case ne_backend e of Libnuma _ \<Rightarrow> libnuma_free w a | Stub \<Rightarrow> stub_free w a)"

text \<open>
  The conditions under which the layer is used: an operating system that keeps its promises, and a
  calling thread on a processor that was counted when the nodes were discovered.
\<close>

definition cpu_ok :: "numa_env \<Rightarrow> bool" where
  "cpu_ok e \<longleftrightarrow> (case ne_backend e of
     Libnuma numa_for_local \<Rightarrow> numa_for_local \<or>
       (\<forall>w. os_sched_getcpu (ne_os e) w < length (m_cpu_to_node (ne_tools e)))
   | Stub \<Rightarrow> True)"

definition numa_ok :: "numa_env \<Rightarrow> bool" where
  "numa_ok e \<longleftrightarrow> os_ok (ne_os e) \<and> cpu_ok e"


section \<open>The interface of the layer\<close>

text \<open>
  What the pools rely on, whichever implementation the build selects: a call returns, a failed call
  changes no live memory, a granted allocation is fresh, as large as asked for, and recorded, and a
  release hands an owned allocation back to the allocator it came from.
\<close>

locale numa_provider =
  fixes alloc :: "numa_env \<Rightarrow> world \<Rightarrow> u64 \<Rightarrow> u64 \<Rightarrow> world \<times> (fault + allocation)"
    and release :: "numa_env \<Rightarrow> world \<Rightarrow> allocation \<Rightarrow> world"
    and ready :: "numa_env \<Rightarrow> bool"
    and owned :: "numa_env \<Rightarrow> allocation \<Rightarrow> bool"
  assumes alloc_returns: "ready e \<Longrightarrow> \<exists>w' a. alloc e w n node = (w', Inr a)"
    and alloc_extends: "alloc e w n node = (w', r) \<Longrightarrow> extends w' w"
    and alloc_failed: "alloc e w n node = (w', Inr a) \<Longrightarrow> \<not> a_valid a \<Longrightarrow>
      live w' = live w \<and> regs w' = regs w \<and> (trace_ok w' \<longleftrightarrow> trace_ok w)"
    and alloc_granted: "ready e \<Longrightarrow> alloc e w n node = (w', Inr a) \<Longrightarrow> a_valid a \<Longrightarrow>
      fresh w (a_kind a) (a_ptr a) (unat (a_size a)) \<and> a_size a = n * page_size e
      \<and> live w' = (a_kind a, a_ptr a, unat (a_size a)) # live w
      \<and> regs w' = regs w \<and> (trace_ok w' \<longleftrightarrow> trace_ok w) \<and> owned e a"
    and release_owned: "owned e a \<Longrightarrow>
      a_valid a \<Longrightarrow> release e w a = Dealloc (a_kind a) (a_ptr a) # w"
    and release_invalid: "\<not> a_valid a \<Longrightarrow> release e w a = w"
begin

lemma alloc_live_ok:
  assumes "ready e" and "alloc e w n node = (w', Inr a)" and "live_ok w"
  shows "live_ok w'"
proof (cases "a_valid a")
  case True
  note g = alloc_granted [OF assms(1,2) True]
  then have "live_ok (Alloc (a_kind a) (a_ptr a) (unat (a_size a)) # w)"
    using assms(3) by (blast intro: live_ok_Alloc)
  moreover have "live w' = live (Alloc (a_kind a) (a_ptr a) (unat (a_size a)) # w)" using g by simp
  ultimately show ?thesis using live_ok_same by blast
next
  case False
  then show ?thesis using alloc_failed [OF assms(2)] assms(3) live_ok_same by blast
qed

lemma release_undoes_alloc:
  assumes "ready e" and "alloc e w n node = (w', Inr a)"
  shows "live (release e w' a) = live w"
proof (cases "a_valid a")
  case True
  note g = alloc_granted [OF assms True]
  then have "release e w' a = Dealloc (a_kind a) (a_ptr a) # w'" using True release_owned by simp
  then show ?thesis using g live_Dealloc_Alloc by metis
next
  case False
  then have "release e w' a = w'" by (rule release_invalid)
  then show ?thesis using alloc_failed [OF assms(2) False] by simp
qed

lemma release_keeps_trace:
  assumes "owned e a" and "a_valid a" and "trace_ok w" and "live_ok w"
    and "(a_kind a, a_ptr a, n) \<in> set (live w)"
    and "\<And>r. r \<in> set (regs w) \<Longrightarrow> \<not> region_inside r (a_kind a) (a_ptr a) n"
  shows "trace_ok (release e w a)"
  unfolding release_owned [OF assms(1,2)]
  by (rule trace_ok_Dealloc [OF assms(3-6)])

end

text \<open>Both implementations meet it.\<close>

definition any_owner :: "numa_env \<Rightarrow> allocation \<Rightarrow> bool" where
  "any_owner e a \<longleftrightarrow> True"

definition std_owner :: "numa_env \<Rightarrow> allocation \<Rightarrow> bool" where
  "std_owner e a \<longleftrightarrow> \<not> a_use_numa_free a"

lemma calloc_fresh:
  assumes "os_ok (ne_os e)" and "os_calloc (ne_os e) w n (page_size e) = p" and "p \<noteq> 0"
  shows "fresh w Std_Memory p (unat n * unat (page_size e))"
    and "unat (n * page_size e) = unat n * unat (page_size e)"
proof -
  show f: "fresh w Std_Memory p (unat n * unat (page_size e))"
    using assms by (auto simp: os_ok_def)
  have "0 < unat p" using assms(3) by (simp add: unat_gt_0)
  then have "unat n * unat (page_size e) < 2 ^ 64" using f unfolding fresh_def by linarith
  then show "unat (n * page_size e) = unat n * unat (page_size e)"
    by (intro unat_mult_no_wrap) simp
qed

lemma libnuma_allocate_malloc_granted:
  assumes "os_ok (ne_os e)" and "libnuma_allocate_malloc e w n = (w', a)" and "a_valid a"
  shows "fresh w (a_kind a) (a_ptr a) (unat (a_size a)) \<and> a_size a = n * page_size e
    \<and> w' = Alloc (a_kind a) (a_ptr a) (unat (a_size a)) # w \<and> \<not> a_use_numa_free a"
  using assms calloc_fresh [OF assms(1)]
  by (auto simp: libnuma_allocate_malloc_def Let_def null_allocation_def a_valid_def a_kind_def
      split: if_splits)

lemma libnuma_allocate_malloc_failed:
  assumes "libnuma_allocate_malloc e w n = (w', a)" and "\<not> a_valid a"
  shows "\<exists>k. w' = Alloc_Failed Std_Memory k # w"
  using assms by (auto simp: libnuma_allocate_malloc_def Let_def a_valid_def split: if_splits)

lemma stub_allocate_malloc_granted:
  assumes "os_ok (ne_os e)" and "stub_allocate_malloc e w n = (w', a)" and "a_valid a"
  shows "fresh w (a_kind a) (a_ptr a) (unat (a_size a)) \<and> a_size a = n * page_size e
    \<and> w' = Alloc (a_kind a) (a_ptr a) (unat (a_size a)) # w \<and> \<not> a_use_numa_free a"
  using assms calloc_fresh [OF assms(1)]
  by (auto simp: stub_allocate_malloc_def Let_def null_allocation_def a_valid_def a_kind_def
      split: if_splits)

lemma libnuma_allocate_onnode_granted:
  assumes ok: "os_ok (ne_os e)" and eq: "libnuma_allocate_onnode e w n node = (w', a)" and v: "a_valid a"
  shows "fresh w (a_kind a) (a_ptr a) (unat (a_size a)) \<and> a_size a = n * page_size e
    \<and> live w' = (a_kind a, a_ptr a, unat (a_size a)) # live w \<and> regs w' = regs w
    \<and> (trace_ok w' \<longleftrightarrow> trace_ok w)"
proof -
  let ?b = "n * page_size e"
  let ?p = "os_numa_alloc_onnode (ne_os e) w ?b node"
  let ?f = "Alloc_Failed Numa_Memory (unat ?b) # w"
  have fr: "fresh ?f k p m = fresh w k p m" for k p m by (simp add: fresh_def)
  consider "\<not> can_allocate_on e node" | "can_allocate_on e node" "?p = 0"
    | "can_allocate_on e node" "?p \<noteq> 0" by blast
  then show ?thesis
  proof cases
    case 1
    then have "libnuma_allocate_malloc e w n = (w', a)" using eq by (simp add: libnuma_allocate_onnode_def)
    then show ?thesis using libnuma_allocate_malloc_granted [OF ok _ v] by fastforce
  next
    case 2
    then have "libnuma_allocate_malloc e ?f n = (w', a)"
      using eq by (simp add: libnuma_allocate_onnode_def Let_def)
    then show ?thesis using libnuma_allocate_malloc_granted [OF ok _ v] fr by fastforce
  next
    case 3
    then have "w' = Alloc Numa_Memory ?p (unat ?b) # w"
      "a = \<lparr>a_ptr = ?p, a_size = ?b, a_node = node, a_use_numa_free = True\<rparr>"
      using eq by (auto simp: libnuma_allocate_onnode_def Let_def)
    moreover have "fresh w Numa_Memory ?p (unat ?b)" using ok 3 by (simp add: os_ok_def)
    ultimately show ?thesis by (simp add: a_kind_def)
  qed
qed

lemma libnuma_allocate_malloc_world:
  "libnuma_allocate_malloc e w n = (w', a) \<Longrightarrow> extends w' w"
  by (auto simp: libnuma_allocate_malloc_def Let_def split: if_splits)

lemma libnuma_allocate_onnode_world:
  "libnuma_allocate_onnode e w n node = (w', a) \<Longrightarrow> extends w' w"
  by (auto simp: libnuma_allocate_onnode_def Let_def split: if_splits
      dest!: libnuma_allocate_malloc_world intro: extends_trans)

lemma libnuma_allocate_onnode_failed:
  assumes "libnuma_allocate_onnode e w n node = (w', a)" and "\<not> a_valid a"
  shows "live w' = live w \<and> regs w' = regs w \<and> (trace_ok w' \<longleftrightarrow> trace_ok w)"
  using assms
  by (auto simp: libnuma_allocate_onnode_def Let_def a_valid_def split: if_splits
      dest!: libnuma_allocate_malloc_failed [unfolded a_valid_def])

lemma libnuma_allocate_cases:
  assumes "libnuma_allocate b e w n node = (w', Inr a)"
  shows "n = 0 \<and> w' = w \<and> a = null_allocation \<or> libnuma_allocate_malloc e w n = (w', a)
    \<or> libnuma_allocate_onnode e w n node = (w', a)"
  using assms by (auto simp: libnuma_allocate_def map_prod_def split: if_splits sum.splits prod.splits)


definition libnuma_ready :: "bool \<Rightarrow> numa_env \<Rightarrow> bool" where
  "libnuma_ready numa_for_local e \<longleftrightarrow> os_ok (ne_os e) \<and>
     (numa_for_local \<or> (\<forall>w. os_sched_getcpu (ne_os e) w < length (m_cpu_to_node (ne_tools e))))"

lemma libnuma_allocate_returns:
  "libnuma_ready b e \<Longrightarrow> \<exists>w' a. libnuma_allocate b e w n node = (w', Inr a)"
  by (auto simp: libnuma_ready_def libnuma_allocate_def libnuma_local_node_def Let_def map_prod_def
      split: prod.splits)

lemma libnuma_allocate_extends:
  "libnuma_allocate b e w n node = (w', r) \<Longrightarrow> extends w' w"
  by (auto simp: libnuma_allocate_def map_prod_def split: if_splits sum.splits prod.splits
      dest: libnuma_allocate_malloc_world libnuma_allocate_onnode_world)

lemma libnuma_allocate_failed:
  assumes "libnuma_allocate b e w n node = (w', Inr a)" and "\<not> a_valid a"
  shows "live w' = live w \<and> regs w' = regs w \<and> (trace_ok w' \<longleftrightarrow> trace_ok w)"
  using libnuma_allocate_cases [OF assms(1)]
    libnuma_allocate_malloc_failed [OF _ assms(2)] libnuma_allocate_onnode_failed [OF _ assms(2)]
  by fastforce

lemma libnuma_allocate_granted:
  assumes "libnuma_ready b e" and "libnuma_allocate b e w n node = (w', Inr a)" and v: "a_valid a"
  shows "fresh w (a_kind a) (a_ptr a) (unat (a_size a)) \<and> a_size a = n * page_size e
    \<and> live w' = (a_kind a, a_ptr a, unat (a_size a)) # live w
    \<and> regs w' = regs w \<and> (trace_ok w' \<longleftrightarrow> trace_ok w)"
proof -
  have ok: "os_ok (ne_os e)" using assms(1) by (simp add: libnuma_ready_def)
  have "a \<noteq> null_allocation" using v by (auto simp: null_allocation_def a_valid_def)
  then consider "libnuma_allocate_malloc e w n = (w', a)" | "libnuma_allocate_onnode e w n node = (w', a)"
    using libnuma_allocate_cases [OF assms(2)] by blast
  then show ?thesis
  proof cases
    case 1
    from libnuma_allocate_malloc_granted [OF ok 1 v] show ?thesis
      by (elim conjE, intro conjI) simp_all
  next
    case 2
    then show ?thesis using libnuma_allocate_onnode_granted [OF ok 2 v] by blast
  qed
qed

lemma libnuma_free_owned: "a_valid a \<Longrightarrow> libnuma_free w a = Dealloc (a_kind a) (a_ptr a) # w"
  by (simp add: libnuma_free_def a_kind_def)

lemma libnuma_free_invalid: "\<not> a_valid a \<Longrightarrow> libnuma_free w a = w"
  by (simp add: libnuma_free_def)

interpretation libnuma: numa_provider "libnuma_allocate b" "\<lambda>_. libnuma_free" "libnuma_ready b" any_owner
  for b
proof (unfold_locales, goal_cases)
  case 1 then show ?case by (rule libnuma_allocate_returns)
next
  case 2 then show ?case by (rule libnuma_allocate_extends)
next
  case 3 then show ?case by (rule libnuma_allocate_failed)
next
  case 4
  from libnuma_allocate_granted [OF 4] show ?case
    by (elim conjE, intro conjI) (simp_all add: any_owner_def)
next
  case 5 show ?case by (rule libnuma_free_owned [OF 5(2)])
next
  case 6 show ?case by (rule libnuma_free_invalid [OF 6])
qed

definition stub_ready :: "numa_env \<Rightarrow> bool" where
  "stub_ready e \<longleftrightarrow> os_ok (ne_os e)"

lemma stub_allocate_cases:
  assumes "stub_allocate e w n node = (w', Inr a)"
  shows "n = 0 \<and> w' = w \<and> a = null_allocation \<or> stub_allocate_malloc e w n = (w', a)"
  using assms by (auto simp: stub_allocate_def map_prod_def split: if_splits prod.splits)

lemma stub_allocate_malloc_failed:
  assumes "stub_allocate_malloc e w n = (w', a)" and "\<not> a_valid a"
  shows "\<exists>k. w' = Alloc_Failed Std_Memory k # w"
  using assms by (auto simp: stub_allocate_malloc_def Let_def a_valid_def split: if_splits)

interpretation stub: numa_provider stub_allocate "\<lambda>_. stub_free" stub_ready std_owner
proof (unfold_locales, goal_cases)
  case (1 e w n node)
  then show ?case by (auto simp: stub_allocate_def map_prod_def split: prod.splits)
next
  case (2 e w n node w' r)
  then show ?case
    by (auto simp: stub_allocate_def stub_allocate_malloc_def map_prod_def Let_def
        split: if_splits prod.splits)
next
  case (3 e w n node w' a)
  then show ?case
    using stub_allocate_cases [OF 3(1)] stub_allocate_malloc_failed [OF _ 3(2)] by fastforce
next
  case (4 e w n node w' a)
  have "a \<noteq> null_allocation" using 4(3) by (auto simp: null_allocation_def a_valid_def)
  then have "stub_allocate_malloc e w n = (w', a)" using stub_allocate_cases [OF 4(2)] by blast
  from stub_allocate_malloc_granted [OF 4(1) [unfolded stub_ready_def] this 4(3)] show ?case
    by (elim conjE, intro conjI) (simp_all add: std_owner_def)
next
  case (5 e a w)
  then show ?case by (simp add: stub_free_def a_kind_def std_owner_def)
next
  case (6 a e w)
  then show ?case by (simp add: stub_free_def)
qed

text \<open>So the layer the build selects meets it.\<close>

definition numa_owner :: "numa_env \<Rightarrow> allocation \<Rightarrow> bool" where
  "numa_owner e a \<longleftrightarrow> (case ne_backend e of Libnuma _ \<Rightarrow> any_owner e a | Stub \<Rightarrow> std_owner e a)"

lemma numa_ok_ready:
  "numa_ok e \<Longrightarrow> ne_backend e = Libnuma b \<Longrightarrow> libnuma_ready b e"
  "numa_ok e \<Longrightarrow> ne_backend e = Stub \<Longrightarrow> stub_ready e"
  by (simp_all add: numa_ok_def cpu_ok_def libnuma_ready_def stub_ready_def)

interpretation numa: numa_provider numa_allocate numa_free numa_ok numa_owner
proof (unfold_locales, goal_cases)
  case (1 e w n node)
  then show ?case
    using libnuma.alloc_returns stub.alloc_returns numa_ok_ready
    by (cases "ne_backend e") (auto simp: numa_allocate_def)
next
  case (2 e w n node w' r)
  then show ?case
    using libnuma.alloc_extends stub.alloc_extends by (cases "ne_backend e") (auto simp: numa_allocate_def)
next
  case (3 e w n node w' a)
  then show ?case
    using libnuma.alloc_failed stub.alloc_failed by (cases "ne_backend e") (simp_all add: numa_allocate_def)
next
  case (4 e w n node w' a)
  show ?case
  proof (cases "ne_backend e")
    case (Libnuma b)
    then have "libnuma_allocate b e w n node = (w', Inr a)" using 4(2) by (simp add: numa_allocate_def)
    from libnuma.alloc_granted [OF numa_ok_ready(1) [OF 4(1) Libnuma] this 4(3)] show ?thesis
      using Libnuma by (elim conjE, intro conjI) (simp_all add: numa_owner_def)
  next
    case Stub
    then have "stub_allocate e w n node = (w', Inr a)" using 4(2) by (simp add: numa_allocate_def)
    from stub.alloc_granted [OF numa_ok_ready(2) [OF 4(1) Stub] this 4(3)] show ?thesis
      using Stub by (elim conjE, intro conjI) (simp_all add: numa_owner_def)
  qed
next
  case (5 e a w)
  then show ?case
    using libnuma.release_owned stub.release_owned
    by (cases "ne_backend e") (simp_all add: numa_free_def numa_owner_def)
next
  case (6 a e w)
  then show ?case
    using libnuma.release_invalid stub.release_invalid
    by (cases "ne_backend e") (simp_all add: numa_free_def)
qed


section \<open>A machine that keeps its promises\<close>

text \<open>
  The properties are applied to a concrete environment: every allocation goes 16 bytes behind the
  highest live one, all memory is on node 0, and the thread runs on processor 0 of two, both on
  node 0.
\<close>

definition top_address :: "world \<Rightarrow> nat" where
  "top_address w = fold max (map (\<lambda>(k, p, n). unat p + n) (live w)) 4096"

definition bump :: "world \<Rightarrow> nat \<Rightarrow> u64" where
  "bump w n = (if top_address w + 16 + n < 2 ^ 64 then of_nat (top_address w + 16) else 0)"

definition bump_os :: os where
  "bump_os = \<lparr>os_page_size = 4096, os_calloc = (\<lambda>w n s. bump w (unat n * unat s)),
     os_malloc = (\<lambda>w s. bump w (unat s)), os_numa_alloc_onnode = (\<lambda>w s n. bump w (unat s)),
     os_get_mempolicy = (\<lambda>w p. 0), os_sched_getcpu = (\<lambda>w. 0)\<rparr>"

definition two_cpus :: libnuma where
  "two_cpus = \<lparr>ln_available = True, ln_get_nprocs = 2, ln_node_of_cpu = (\<lambda>_. 0),
     ln_task_cpu = (\<lambda>_. True), ln_num_nodes = 1, ln_node_accessible = (\<lambda>_. True),
     ln_cpus_of_node = (\<lambda>_. 2)\<rparr>"

definition bump_env :: numa_env where
  "bump_env = \<lparr>ne_os = bump_os, ne_backend = Libnuma True, ne_tools = libnuma_make_numa_tools two_cpus\<rparr>"

lemma fold_max_ge: "(x :: nat) \<in> set xs \<Longrightarrow> x \<le> fold max xs a"
proof (induction xs arbitrary: a)
  case Nil
  then show ?case by simp
next
  case (Cons y ys)
  have "b \<le> fold max ys b" for b :: nat by (induction ys arbitrary: b) (simp, metis fold_simps(2) le_trans max.cobounded2)
  then have "y \<le> fold max ys (max y a)" by (meson le_trans max.cobounded1)
  then show ?case using Cons by auto
qed

lemma bump_fresh:
  assumes "bump w n \<noteq> 0"
  shows "fresh w k (bump w n) n"
proof -
  have b: "top_address w + 16 + n < 2 ^ 64" and p: "bump w n = of_nat (top_address w + 16)"
    using assms by (auto simp: bump_def split: if_splits)
  have u: "unat (bump w n) = top_address w + 16"
    unfolding p using b by (intro unat_of_nat_small) simp
  have "unat q + m < unat (bump w n)" if "(l, q, m) \<in> set (live w)" for l q m
  proof -
    have "unat q + m \<in> set (map (\<lambda>(k, p, n). unat p + n) (live w))" using that by force
    then have "unat q + m \<le> top_address w" unfolding top_address_def by (rule fold_max_ge)
    then show ?thesis using u by simp
  qed
  then show ?thesis
    using assms b u by (fastforce simp: fresh_def list_all_iff apart_def)
qed

lemma bump_os_ok: "os_ok bump_os"
  by (auto simp: os_ok_def bump_os_def intro: bump_fresh)

lemma bump_env_ok: "numa_ok bump_env"
  by (simp add: numa_ok_def cpu_ok_def bump_env_def bump_os_ok)

section \<open>Properties\<close>

text \<open>
  Looking an id up in a node map built from any list of ids (none the largest word) finds a
  position that holds the id and that the map itself pairs with it, exactly when the id is in the
  list; otherwise it is the end iterator, and \<open>count\<close> tells the two apart.
\<close>

theorem node_map_lookup:
  assumes "\<forall>k \<in> set ns. k \<noteq> - 1" and "length ns < 2 ^ 64"
  shows "node_map_count (make_node_map ns) n = (if n \<in> set ns then 1 else 0)
    \<and> (n \<in> set ns \<longrightarrow> node_map_find (make_node_map ns) n < node_map_size (make_node_map ns)
        \<and> nodes (make_node_map ns) ! node_map_find (make_node_map ns) n
            = (n, of_nat (node_map_find (make_node_map ns) n)))
    \<and> (n \<notin> set ns \<longrightarrow> node_map_find (make_node_map ns) n = node_map_size (make_node_map ns))"
proof (cases "n \<in> set ns")
  case True
  note f = node_map_find_present [OF True assms]
  then have "node_map_count (make_node_map ns) n = 1"
    by (subst node_map_count_find) (simp_all add: make_node_map_size)
  then show ?thesis using f True by (simp add: make_node_map_size)
next
  case False
  note f = node_map_find_absent [OF False assms(2)]
  then have "node_map_count (make_node_map ns) n = 0"
    by (subst node_map_count_find) (simp_all add: make_node_map_size)
  then show ?thesis using f False by (simp add: make_node_map_size)
qed

lemma node_map_lookup_witness:
  "node_map_count (make_node_map [7, 2]) 7 = 1
     \<and> node_map_find (make_node_map [7, 2]) 7 < node_map_size (make_node_map [7, 2])
     \<and> node_map_find (make_node_map [7, 2]) 3 = node_map_size (make_node_map [7, 2])"
proof -
  have "\<forall>k \<in> set [7, 2 :: u64]. k \<noteq> - 1" "length [7, 2 :: u64] < 2 ^ 64" by simp_all
  from node_map_lookup [OF this, of 7] node_map_lookup [OF this, of 3] show ?thesis by simp
qed

text \<open>
  After discovery the layer allocates exactly on the nodes of the processors the task may run
  on.
\<close>

theorem can_allocate_on_task_nodes:
  assumes "ne_tools e = libnuma_make_numa_tools ln" and "ln_available ln"
    and "- 1 \<notin> set (task_nodes ln)" and "ln_get_nprocs ln < 2 ^ 64"
  shows "can_allocate_on e n \<longleftrightarrow>
    (\<exists>cpu < ln_get_nprocs ln. ln_task_cpu ln cpu \<and> ln_node_of_cpu ln cpu = n)"
proof -
  let ?l = "remdups_adj (sort (task_nodes ln))"
  have "length (task_nodes ln) \<le> ln_get_nprocs ln"
    unfolding task_nodes_def using length_filter_le [of "ln_task_cpu ln" "[0 ..< ln_get_nprocs ln]"] by simp
  moreover have "length ?l \<le> length (sort (task_nodes ln))" by (rule remdups_adj_length)
  ultimately have len: "length ?l < 2 ^ 64" using assms(4) by simp
  have top: "\<forall>k \<in> set ?l. k \<noteq> - 1" using assms(3) by auto
  have "local_nodes e = make_node_map ?l"
    using assms(1,2) by (simp add: local_nodes_def libnuma_make_numa_tools_def libnuma_discover_nodes_def Let_def)
  then have "can_allocate_on e n \<longleftrightarrow> 0 < node_map_count (make_node_map ?l) n"
    by (simp add: can_allocate_on_def)
  also have "\<dots> \<longleftrightarrow> n \<in> set ?l"
    using node_map_find_present [OF _ top len, of n] node_map_find_absent [OF _ len, of n]
    by (subst node_map_count_find) (cases "n \<in> set ?l"; simp add: make_node_map_size)+
  finally show ?thesis by (auto simp: task_nodes_def)
qed

lemma can_allocate_on_task_nodes_witness:
  "can_allocate_on bump_env 0 = (\<exists>cpu < 2. ln_task_cpu two_cpus cpu \<and> ln_node_of_cpu two_cpus cpu = 0)"
proof -
  have t: "task_nodes two_cpus = [0, 0]"
    by (simp add: task_nodes_def two_cpus_def numeral_2_eq_2)
  have "ne_tools bump_env = libnuma_make_numa_tools two_cpus" by (simp add: bump_env_def)
  from can_allocate_on_task_nodes [OF this, of 0] show ?thesis by (simp add: t) (simp add: two_cpus_def)
qed

lemma stub_nodes:
  assumes "local_nodes e = make_node_map [0]"
  shows "stub_can_allocate_on e node \<longleftrightarrow> node = 0"
    and "stub_allocate_local e w n = stub_allocate e w n 0"
proof -
  show "stub_can_allocate_on e node \<longleftrightarrow> node = 0"
    using node_map_find_present [of node "[0]"] node_map_find_absent [of node "[0]"] node_map_count_find [of "make_node_map [0]" node]
    by (cases "node = 0") (simp_all add: stub_can_allocate_on_def assms make_node_map_size)
  show "stub_allocate_local e w n = stub_allocate e w n 0"
    by (simp add: stub_allocate_local_def stub_local_node_def)
qed

text \<open>
  C40: whichever implementation is built in, allocating pages on a node returns, grants memory that is
  fresh and of the requested number of pages or none at all, and releasing the result leaves the
  live memory as it was before the call.
\<close>

theorem numa_allocate_free:
  assumes "numa_ok e" and "live_ok w"
  shows "\<exists>w' a. numa_allocate e w num_pages node = (w', Inr a)
    \<and> (if a_valid a
       then a_size a = num_pages * page_size e \<and> fresh w (a_kind a) (a_ptr a) (unat (a_size a))
         \<and> live w' = (a_kind a, a_ptr a, unat (a_size a)) # live w
       else live w' = live w)
    \<and> live_ok w' \<and> live (numa_free e w' a) = live w"
proof -
  obtain w' a where eq: "numa_allocate e w num_pages node = (w', Inr a)"
    using numa.alloc_returns [OF assms(1)] by blast
  then show ?thesis
    using numa.alloc_granted [OF assms(1) eq] numa.alloc_failed [OF eq]
      numa.alloc_live_ok [OF assms(1) eq assms(2)] numa.release_undoes_alloc [OF assms(1) eq]
    by (intro exI [of _ w'] exI [of _ a]) (simp split: if_splits, metis)
qed

lemma numa_allocate_free_witness:
  "\<exists>w' a. numa_allocate bump_env [] 16 0 = (w', Inr a)
    \<and> (if a_valid a
       then a_size a = 16 * page_size bump_env \<and> fresh [] (a_kind a) (a_ptr a) (unat (a_size a))
         \<and> live w' = (a_kind a, a_ptr a, unat (a_size a)) # live []
       else live w' = live [])
    \<and> live_ok w' \<and> live (numa_free bump_env w' a) = live []"
  by (rule numa_allocate_free [OF bump_env_ok live_ok_Nil])

end
