(* ===== verification/Device.thy ===== *)
theory Device
  imports Numa
begin

text \<open>
  The device layer \<open>include/hwmalloc/device.hpp\<close> and its implementations: \<open>src/device_none.cpp\<close>
  for builds without devices, \<open>src/device_emulate.cpp\<close>, which takes device memory from the host's
  \<open>malloc\<close>, and the GPU runtimes of \<open>src/device_cuda.cpp\<close> and \<open>src/device_hip.cpp\<close>. The two
  GPU files make the same calls to two vendors' libraries, which are outside the repository and so
  parameters: a call gives its status, 0 for success, and a value (the calls of a copy, which give
  handles only, have their statuses by number). The texts of errors and the
  place of a call in its file, as the macros print them, come from the vendor and the build.
\<close>

record gpu_api =
  gpu_get_device_count :: "world \<Rightarrow> nat \<times> int"
  gpu_get_device :: "world \<Rightarrow> nat \<times> int"
  gpu_set_device :: "world \<Rightarrow> int \<Rightarrow> nat"
  gpu_malloc :: "world \<Rightarrow> u64 \<Rightarrow> nat \<times> u64"
  gpu_error_string :: "nat \<Rightarrow> string"
  gpu_location :: "string \<Rightarrow> string"
  gpu_status :: "nat \<Rightarrow> nat"

datatype device_runtime = No_Device | Emulate | Cuda gpu_api | Hip gpu_api

section \<open>Checked calls\<close>

text \<open>
  The macros that check a call evaluate their argument in the test and, when it failed, once more
  for the text of the exception: the call is made twice, and what the second one does stays.
\<close>

definition check_result :: "(nat \<Rightarrow> string) \<Rightarrow> ('s \<Rightarrow> 's \<times> nat \<times> 'a) \<Rightarrow> 's \<Rightarrow> 's \<times> (fault + 'a)" where
  "check_result message call s =
     (case call s of
        (s1, status, x) \<Rightarrow>
          if status = 0 then (s1, Inr x)
          else (case call s1 of (s2, status2, _) \<Rightarrow> (s2, Inl (Runtime_Error (message status2)))))"

definition cuda_error_message :: "gpu_api \<Rightarrow> string \<Rightarrow> nat \<Rightarrow> string" where
  "cuda_error_message g x status =
     ''hwmalloc error: CUDA Call failed '' @ x @ '' ('' @ gpu_error_string g status @ '') in '' @ gpu_location g x"

definition hip_error_message :: "gpu_api \<Rightarrow> string \<Rightarrow> nat \<Rightarrow> string" where
  "hip_error_message g x status =
     ''hwmalloc error: HIP Call failed '' @ x @ '' ('' @ gpu_error_string g status @ '') in '' @ gpu_location g x"

definition check_cuda_result :: "gpu_api \<Rightarrow> string \<Rightarrow> ('s \<Rightarrow> 's \<times> nat \<times> 'a) \<Rightarrow> 's \<Rightarrow> 's \<times> (fault + 'a)" where
  "check_cuda_result g x = check_result (cuda_error_message g x)"

definition check_hip_result :: "gpu_api \<Rightarrow> string \<Rightarrow> ('s \<Rightarrow> 's \<times> nat \<times> 'a) \<Rightarrow> 's \<Rightarrow> 's \<times> (fault + 'a)" where
  "check_hip_result g x = check_result (hip_error_message g x)"

text \<open>The calls to the vendor's library, with the events they leave.\<close>

definition query_call :: "(world \<Rightarrow> nat \<times> int) \<Rightarrow> world \<Rightarrow> world \<times> nat \<times> int" where
  "query_call query w =
     (case query w of (status, x) \<Rightarrow> (if status = 0 then w else Call_Failed status # w, status, x))"

definition set_device_call :: "gpu_api \<Rightarrow> int \<Rightarrow> world \<Rightarrow> world \<times> nat \<times> unit" where
  "set_device_call g i w =
     (let status = gpu_set_device g w i
      in (if status = 0 then Set_Device i # w else Call_Failed status # w, status, ()))"

definition malloc_call :: "gpu_api \<Rightarrow> u64 \<Rightarrow> world \<Rightarrow> world \<times> nat \<times> u64" where
  "malloc_call g bytes w =
     (case gpu_malloc g w bytes of
        (status, p) \<Rightarrow>
          (if status = 0 then Alloc Gpu_Memory p (unat bytes) # w
           else Alloc_Failed Gpu_Memory (unat bytes) # w, status, p))"

section \<open>The runtimes\<close>

text \<open>Builds without devices.\<close>

definition none_get_num_devices :: int where "none_get_num_devices = 0"
definition none_get_device_id :: int where "none_get_device_id = 0"
definition none_set_device_id :: "world \<Rightarrow> int \<Rightarrow> world" where "none_set_device_id w i = w"
definition none_device_malloc :: "world \<Rightarrow> u64 \<Rightarrow> world \<times> u64" where "none_device_malloc w bytes = (w, 0)"
definition none_device_free :: "world \<Rightarrow> u64 \<Rightarrow> world" where "none_device_free w p = w"

text \<open>
  Emulated devices. The result of \<open>malloc\<close> goes to \<open>memset\<close> unchecked, which is undefined when
  the allocation failed.
\<close>

definition emulate_get_num_devices :: int where "emulate_get_num_devices = 1"
definition emulate_get_device_id :: int where "emulate_get_device_id = 0"
definition emulate_set_device_id :: "world \<Rightarrow> int \<Rightarrow> world" where "emulate_set_device_id w i = w"

definition emulate_device_malloc :: "os \<Rightarrow> world \<Rightarrow> u64 \<Rightarrow> world \<times> (fault + u64)" where
  "emulate_device_malloc os w bytes =
     (let p = os_malloc os w bytes
      in if p = 0 then (Alloc_Failed Std_Memory (unat bytes) # w, Inl (Undefined Null_Deref))
         else (Alloc Std_Memory p (unat bytes) # w, Inr p))"

definition emulate_device_free :: "world \<Rightarrow> u64 \<Rightarrow> world" where
  "emulate_device_free w p = (if p = 0 then w else Dealloc Std_Memory p # w)"

text \<open>CUDA devices. The queries leave memory and the selected device alone, whatever they answer.\<close>

definition cuda_get_num_devices :: "gpu_api \<Rightarrow> world \<Rightarrow> fault + int" where
  "cuda_get_num_devices g w =
     snd (check_cuda_result g ''cudaGetDeviceCount(&n)'' (query_call (gpu_get_device_count g)) w)"

definition cuda_get_device_id :: "gpu_api \<Rightarrow> world \<Rightarrow> fault + int" where
  "cuda_get_device_id g w =
     snd (check_cuda_result g ''cudaGetDevice(&id)'' (query_call (gpu_get_device g)) w)"

definition cuda_set_device_id :: "gpu_api \<Rightarrow> world \<Rightarrow> int \<Rightarrow> world \<times> (fault + unit)" where
  "cuda_set_device_id g w i =
     check_cuda_result g ''cudaSetDevice(id)'' (set_device_call g i) w"

definition cuda_device_malloc :: "gpu_api \<Rightarrow> world \<Rightarrow> u64 \<Rightarrow> world \<times> (fault + u64)" where
  "cuda_device_malloc g w bytes =
     check_cuda_result g ''cudaMalloc(&ptr, size)'' (malloc_call g bytes) w"

definition cuda_device_free :: "world \<Rightarrow> u64 \<Rightarrow> world" where
  "cuda_device_free w p = (if p = 0 then w else Dealloc Gpu_Memory p # w)"

text \<open>HIP devices. The queries leave memory and the selected device alone, whatever they answer.\<close>

definition hip_get_num_devices :: "gpu_api \<Rightarrow> world \<Rightarrow> fault + int" where
  "hip_get_num_devices g w =
     snd (check_hip_result g ''hipGetDeviceCount(&n)'' (query_call (gpu_get_device_count g)) w)"

definition hip_get_device_id :: "gpu_api \<Rightarrow> world \<Rightarrow> fault + int" where
  "hip_get_device_id g w =
     snd (check_hip_result g ''hipGetDevice(&id)'' (query_call (gpu_get_device g)) w)"

definition hip_set_device_id :: "gpu_api \<Rightarrow> world \<Rightarrow> int \<Rightarrow> world \<times> (fault + unit)" where
  "hip_set_device_id g w i =
     check_hip_result g ''hipSetDevice(id)'' (set_device_call g i) w"

definition hip_device_malloc :: "gpu_api \<Rightarrow> world \<Rightarrow> u64 \<Rightarrow> world \<times> (fault + u64)" where
  "hip_device_malloc g w bytes =
     check_hip_result g ''hipMalloc(&ptr, size)'' (malloc_call g bytes) w"

definition hip_device_free :: "world \<Rightarrow> u64 \<Rightarrow> world" where
  "hip_device_free w p = (if p = 0 then w else Dealloc Gpu_Memory p # w)"

text \<open>The runtime the build selects.\<close>

record device_env =
  de_os :: os
  de_runtime :: device_runtime

definition get_num_devices :: "device_env \<Rightarrow> world \<Rightarrow> fault + int" where
  "get_num_devices d w = (case de_runtime d of
     No_Device \<Rightarrow> Inr none_get_num_devices | Emulate \<Rightarrow> Inr emulate_get_num_devices
   | Cuda g \<Rightarrow> cuda_get_num_devices g w | Hip g \<Rightarrow> hip_get_num_devices g w)"

definition get_device_id :: "device_env \<Rightarrow> world \<Rightarrow> fault + int" where
  "get_device_id d w = (case de_runtime d of
     No_Device \<Rightarrow> Inr none_get_device_id | Emulate \<Rightarrow> Inr emulate_get_device_id
   | Cuda g \<Rightarrow> cuda_get_device_id g w | Hip g \<Rightarrow> hip_get_device_id g w)"

definition set_device_id :: "device_env \<Rightarrow> world \<Rightarrow> int \<Rightarrow> world \<times> (fault + unit)" where
  "set_device_id d w i = (case de_runtime d of
     No_Device \<Rightarrow> (none_set_device_id w i, Inr ()) | Emulate \<Rightarrow> (emulate_set_device_id w i, Inr ())
   | Cuda g \<Rightarrow> cuda_set_device_id g w i | Hip g \<Rightarrow> hip_set_device_id g w i)"

definition device_malloc :: "device_env \<Rightarrow> world \<Rightarrow> u64 \<Rightarrow> world \<times> (fault + u64)" where
  "device_malloc d w bytes = (case de_runtime d of
     No_Device \<Rightarrow> map_prod id Inr (none_device_malloc w bytes)
   | Emulate \<Rightarrow> emulate_device_malloc (de_os d) w bytes
   | Cuda g \<Rightarrow> cuda_device_malloc g w bytes | Hip g \<Rightarrow> hip_device_malloc g w bytes)"

definition device_free :: "device_env \<Rightarrow> world \<Rightarrow> u64 \<Rightarrow> world" where
  "device_free d w p = (case de_runtime d of
     No_Device \<Rightarrow> none_device_free w p | Emulate \<Rightarrow> emulate_device_free w p
   | Cuda _ \<Rightarrow> cuda_device_free w p | Hip _ \<Rightarrow> hip_device_free w p)"

definition device_kind :: "device_env \<Rightarrow> memory_kind" where
  "device_kind d = (case de_runtime d of Cuda _ \<Rightarrow> Gpu_Memory | Hip _ \<Rightarrow> Gpu_Memory | _ \<Rightarrow> Std_Memory)"

text \<open>
  A GPU allocator promises what every allocator does, for a request of at least one byte; a build
  with devices has a runtime.
\<close>

definition gpu_ok :: "gpu_api \<Rightarrow> bool" where
  "gpu_ok g \<longleftrightarrow> (\<forall>w s p. s \<noteq> 0 \<longrightarrow> gpu_malloc g w s = (0, p) \<longrightarrow> fresh w Gpu_Memory p (unat s))"

definition device_ok :: "device_env \<Rightarrow> bool" where
  "device_ok d \<longleftrightarrow> os_ok (de_os d) \<and> (case de_runtime d of
     No_Device \<Rightarrow> False | Emulate \<Rightarrow> True | Cuda g \<Rightarrow> gpu_ok g | Hip g \<Rightarrow> gpu_ok g)"

section \<open>The interface of the layer\<close>

text \<open>
  What a failed allocation leaves: nothing, or, when the call is repeated and succeeds the second
  time, memory that nobody owns.
\<close>

definition stray :: "world \<Rightarrow> world \<Rightarrow> memory_kind \<Rightarrow> nat \<Rightarrow> bool" where
  "stray w' w k n \<longleftrightarrow> regs w' = regs w \<and> trace_ok w' = trace_ok w \<and> length w \<le> length w' \<and>
     (live w' = live w \<or> (\<exists>p. fresh w k p n \<and> live w' = (k, p, n) # live w))"

locale device_provider =
  fixes dmalloc :: "device_env \<Rightarrow> world \<Rightarrow> u64 \<Rightarrow> world \<times> (fault + u64)"
    and dfree :: "device_env \<Rightarrow> world \<Rightarrow> u64 \<Rightarrow> world"
    and kind :: "device_env \<Rightarrow> memory_kind"
    and ready :: "device_env \<Rightarrow> bool"
  assumes dmalloc_granted: "ready d \<Longrightarrow> s \<noteq> 0 \<Longrightarrow> dmalloc d w s = (w', Inr p) \<Longrightarrow>
      w' = Alloc (kind d) p (unat s) # w \<and> fresh w (kind d) p (unat s)"
    and dmalloc_failed: "ready d \<Longrightarrow> s \<noteq> 0 \<Longrightarrow> dmalloc d w s = (w', Inl f) \<Longrightarrow> stray w' w (kind d) (unat s)"
    and dfree_live: "ready d \<Longrightarrow> p \<noteq> 0 \<Longrightarrow> dfree d w p = Dealloc (kind d) p # w"
begin

lemma dmalloc_live_ok:
  assumes "ready d" and "s \<noteq> 0" and "dmalloc d w s = (w', r)" and "live_ok w"
  shows "live_ok w'"
proof (cases r)
  case (Inl f)
  then have "stray w' w (kind d) (unat s)" using assms dmalloc_failed by blast
  then show ?thesis
    using live_ok_same [of w' w] live_ok_same [of w' "Alloc (kind d) _ (unat s) # w"] live_ok_Alloc [OF assms(4)] assms(4)
    by (auto simp: stray_def)
next
  case (Inr p)
  then show ?thesis
    using assms dmalloc_granted live_ok_Alloc by metis
qed

lemma dfree_undoes_dmalloc:
  assumes "ready d" and "s \<noteq> 0" and "dmalloc d w s = (w', Inr p)"
  shows "live (dfree d w' p) = live w"
proof -
  note g = dmalloc_granted [OF assms]
  then have "p \<noteq> 0" by (simp add: fresh_def)
  then have "dfree d w' p = Dealloc (kind d) p # w'" by (rule dfree_live [OF assms(1)])
  then show ?thesis using g live_Dealloc_Alloc [of w "kind d" p "unat s" w'] by simp
qed

end

lemma emulate_device_malloc_granted:
  "os_ok os \<Longrightarrow> emulate_device_malloc os w s = (w', Inr p) \<Longrightarrow>
     w' = Alloc Std_Memory p (unat s) # w \<and> fresh w Std_Memory p (unat s)"
  by (auto simp: emulate_device_malloc_def Let_def os_ok_def split: if_splits)

lemma checked_malloc_granted:
  assumes "gpu_ok g" and "s \<noteq> 0" and "check_result m (malloc_call g s) w = (w', Inr p)"
  shows "w' = Alloc Gpu_Memory p (unat s) # w \<and> fresh w Gpu_Memory p (unat s)"
  using assms by (auto simp: check_result_def malloc_call_def gpu_ok_def split: prod.splits if_splits)

lemma fresh_Alloc_Failed [simp]: "fresh (Alloc_Failed k n # w) l p m = fresh w l p m"
  by (simp add: fresh_def)

lemma checked_malloc_failed:
  assumes "gpu_ok g" and "s \<noteq> 0" and "check_result m (malloc_call g s) w = (w', Inl f)"
  shows "stray w' w Gpu_Memory (unat s)"
proof -
  let ?w = "Alloc_Failed Gpu_Memory (unat s) # w"
  obtain t p where second: "gpu_malloc g ?w s = (t, p)" by (cases "gpu_malloc g ?w s")
  have "w' = (if t = 0 then Alloc Gpu_Memory p (unat s) # ?w else Alloc_Failed Gpu_Memory (unat s) # ?w)"
    using assms(3) second by (auto simp: check_result_def malloc_call_def split: prod.splits if_splits)
  moreover have "fresh w Gpu_Memory p (unat s)" if "t = 0"
    using assms(1,2) second that fresh_Alloc_Failed [of Gpu_Memory "unat s" w] unfolding gpu_ok_def by blast
  ultimately show ?thesis by (auto simp: stray_def)
qed

interpretation device: device_provider device_malloc device_free device_kind device_ok
proof (unfold_locales, goal_cases)
  case (1 d s w w' p)
  then show ?case using checked_malloc_granted [of _ s] emulate_device_malloc_granted [of "de_os d" w s w' p]
    by (auto simp: device_ok_def device_malloc_def device_kind_def cuda_device_malloc_def
        hip_device_malloc_def check_cuda_result_def check_hip_result_def split: device_runtime.splits)
next
  case (2 d s w w' f)
  then show ?case using checked_malloc_failed [of _ s]
    by (auto simp: device_ok_def device_malloc_def device_kind_def cuda_device_malloc_def
        hip_device_malloc_def check_cuda_result_def check_hip_result_def emulate_device_malloc_def Let_def stray_def [of "_ # _"]
        split: device_runtime.splits if_splits)
next
  case (3 d p w)
  then show ?case
    by (auto simp: device_ok_def device_free_def device_kind_def cuda_device_free_def
        hip_device_free_def emulate_device_free_def split: device_runtime.splits)
qed

end
