(* ===== verification/Segment.thy ===== *)
theory Segment
  imports Device
begin

text \<open>
  Blocks and segments: \<open>include/hwmalloc/detail/block.hpp\<close>, \<open>include/hwmalloc/detail/segment.hpp\<close>
  and the customization points \<open>register.hpp\<close> and \<open>register_device.hpp\<close>. A segment is one
  allocation cut into blocks of one size; its constructor puts the blocks on the pool's free stack,
  and a block that is freed waits on the segment's own stack until it is collected.
\<close>

section \<open>Blocks\<close>

text \<open>
  A pointer to a segment or to a user allocation is the identity of the object it points to, \<open>None\<close>
  a null pointer. The device members exist in builds with devices only; without them they keep
  their defaults.
\<close>

record 'h block =
  m_segment :: "nat option"
  m_user_allocation :: "nat option"
  m_ptr :: u64
  m_handle :: 'h
  m_device_ptr :: u64
  m_device_handle :: 'h
  m_device_id :: int

section \<open>What lies outside the repository\<close>

text \<open>
  The stacks are \<open>boost::lockfree::stack\<close>. The model knows the operations the code calls; the
  contents (top first) and the capacity of a stack are observations used in specifications only.
\<close>

record ('e, 's) stack_ops =
  sk_make :: "bool \<Rightarrow> nat \<Rightarrow> 's"
  sk_push :: "'e \<Rightarrow> 's \<Rightarrow> bool \<times> 's"
  sk_pop :: "'s \<Rightarrow> ('e \<times> 's) option"
  sk_consume_all :: "'s \<Rightarrow> 'e list \<times> 's"
  sk_list :: "'s \<Rightarrow> 'e list"
  sk_limit :: "'s \<Rightarrow> nat option"

text \<open>
  Documented behaviour: a new stack is empty, and bounded when it is of fixed size; a push succeeds
  below the bound; a pop takes the top; \<open>consume_all\<close> pops until the stack is empty.
\<close>

definition stack_ok :: "('e, 's) stack_ops \<Rightarrow> bool" where
  "stack_ok k \<longleftrightarrow>
     (\<forall>f n. sk_list k (sk_make k f n) = [] \<and> sk_limit k (sk_make k f n) = (if f then Some n else None)) \<and>
     (\<forall>x s. (\<forall>n. sk_limit k s = Some n \<longrightarrow> length (sk_list k s) < n) \<longrightarrow>
        (\<exists>s'. sk_push k x s = (True, s') \<and> sk_list k s' = x # sk_list k s \<and> sk_limit k s' = sk_limit k s)) \<and>
     (\<forall>s. sk_list k s = [] \<longrightarrow> sk_pop k s = None) \<and>
     (\<forall>s x xs. sk_list k s = x # xs \<longrightarrow>
        (\<exists>s'. sk_pop k s = Some (x, s') \<and> sk_list k s' = xs \<and> sk_limit k s' = sk_limit k s)) \<and>
     (\<forall>s. \<exists>s'. sk_consume_all k s = (sk_list k s, s') \<and> sk_list k s' = [] \<and> sk_limit k s' = sk_limit k s)"

text \<open>
  The transport layer's customization points. \<open>register_memory\<close> may throw; a handle is computed
  from the region, an offset and a size. Without a device overload of its own, device memory is
  registered like host memory.
\<close>

record 'h transport =
  cx_register :: "world \<Rightarrow> u64 \<Rightarrow> u64 \<Rightarrow> fault option"
  cx_register_device :: "(world \<Rightarrow> int \<Rightarrow> u64 \<Rightarrow> u64 \<Rightarrow> fault option) option"
  cx_get_handle :: "region \<Rightarrow> u64 \<Rightarrow> u64 \<Rightarrow> 'h"
  cx_default_handle :: 'h

definition add_region :: "world \<Rightarrow> int option \<Rightarrow> bool \<Rightarrow> u64 \<Rightarrow> u64 \<Rightarrow> fault option \<Rightarrow> world \<times> (fault + region)" where
  "add_region w device gpu p n failure =
     (case failure of
        Some e \<Rightarrow> (Register_Failed # w, Inl e)
      | None \<Rightarrow> let r = \<lparr>rg_id = length w, rg_device = device, rg_gpu = gpu, rg_ptr = p, rg_size = n\<rparr>
                in (Register r # w, Inr r))"

definition register_memory :: "'h transport \<Rightarrow> world \<Rightarrow> u64 \<Rightarrow> u64 \<Rightarrow> world \<times> (fault + region)" where
  "register_memory cx w p n = add_region w None False p n (cx_register cx w p n)"

text \<open>The default of \<open>register_device_memory\<close> forwards to the registration of host memory.\<close>

definition default_register_device_memory :: "'h transport \<Rightarrow> world \<Rightarrow> int \<Rightarrow> u64 \<Rightarrow> u64 \<Rightarrow> fault option" where
  "default_register_device_memory cx w device_id p n = cx_register cx w p n"

definition register_device_memory ::
  "'h transport \<Rightarrow> bool \<Rightarrow> world \<Rightarrow> int \<Rightarrow> u64 \<Rightarrow> u64 \<Rightarrow> world \<times> (fault + region)" where
  "register_device_memory cx gpu w device_id p n =
     add_region w (Some device_id) gpu p n
       (case cx_register_device cx of
          Some f \<Rightarrow> f w device_id p n
        | None \<Rightarrow> default_register_device_memory cx w device_id p n)"

text \<open>
  A segment's members. It is known to blocks by its identity, and owns the memory and the
  registrations behind its blocks.
\<close>

record 's segment =
  s_pool :: nat
  s_block_size :: u64
  s_num_blocks :: u64
  s_allocation :: allocation
  s_region :: region
  s_device_allocation :: u64
  s_device_region :: "region option"
  s_device_id :: int
  s_freed_stack :: 's
  s_num_freed :: u64

text \<open>
  Everything a pool is compiled and linked with. The order in which an \<open>unordered_map\<close> iterates
  changes with insertions only, and in no way the code may rely on: \<open>ev_map_order\<close> rearranges the
  entries after an insertion. The order in which the two registrations of a device segment are
  evaluated is left open by the language: \<open>ev_host_first\<close> is the compiler's choice.
\<close>

record ('h, 's) env =
  ev_numa :: numa_env
  ev_device :: device_env
  ev_enable_device :: bool
  ev_context :: "'h transport"
  ev_stack :: "('h block, 's) stack_ops"
  ev_map_order :: "world \<Rightarrow> (nat \<times> 's segment) list \<Rightarrow> (nat \<times> 's segment) list"
  ev_host_first :: bool

definition env_ok :: "('h, 's) env \<Rightarrow> bool" where
  "env_ok e \<longleftrightarrow> numa_ok (ev_numa e) \<and> stack_ok (ev_stack e) \<and>
     (ev_enable_device e \<longrightarrow> device_ok (ev_device e)) \<and> (\<forall>w xs. mset (ev_map_order e w xs) = mset xs)"

definition on_device :: "('h, 's) env \<Rightarrow> 'h block \<Rightarrow> bool" where
  "on_device e b \<longleftrightarrow> ev_enable_device e \<and> m_device_ptr b \<noteq> 0"

section \<open>Pushing\<close>

text \<open>\<open>while (!stack.push(b)) {}\<close>: a push that never succeeds never returns.\<close>

partial_function (option) push_spin :: "('e, 's) stack_ops \<Rightarrow> 'e \<Rightarrow> 's \<Rightarrow> 's option" where
  "push_spin k x s = (case sk_push k x s of (ok, s') \<Rightarrow> if ok then Some s' else push_spin k x s')"

declare push_spin.simps [code]

fun push_each :: "('e, 's) stack_ops \<Rightarrow> 'e list \<Rightarrow> 's \<Rightarrow> 's option" where
  "push_each k [] s = Some s"
| "push_each k (x # xs) s = (case push_spin k x s of None \<Rightarrow> None | Some s' \<Rightarrow> push_each k xs s')"

text \<open>The constructor's loop counts down, so the block at offset 0 ends on top.\<close>

fun push_blocks :: "('e, 's) stack_ops \<Rightarrow> (nat \<Rightarrow> 'e) \<Rightarrow> nat \<Rightarrow> 's \<Rightarrow> 's option" where
  "push_blocks k block_at 0 s = Some s"
| "push_blocks k block_at (Suc i) s =
     (case push_spin k (block_at i) s of None \<Rightarrow> None | Some s' \<Rightarrow> push_blocks k block_at i s')"

section \<open>Segments\<close>

text \<open>The block at position \<open>i\<close> of a segment, as the two constructors build it.\<close>

definition host_block :: "('h, 's) env \<Rightarrow> nat \<Rightarrow> allocation \<Rightarrow> region \<Rightarrow> u64 \<Rightarrow> nat \<Rightarrow> 'h block" where
  "host_block e this a r block_size i =
     \<lparr>m_segment = Some this, m_user_allocation = None, m_ptr = a_ptr a + of_nat i * block_size,
      m_handle = cx_get_handle (ev_context e) r (of_nat i * block_size) block_size,
      m_device_ptr = 0, m_device_handle = cx_default_handle (ev_context e), m_device_id = 0\<rparr>"

definition device_block ::
  "('h, 's) env \<Rightarrow> nat \<Rightarrow> allocation \<Rightarrow> region \<Rightarrow> u64 \<Rightarrow> region \<Rightarrow> int \<Rightarrow> u64 \<Rightarrow> nat \<Rightarrow> 'h block" where
  "device_block e this a r device_ptr dr device_id block_size i =
     (host_block e this a r block_size i)
       \<lparr>m_device_ptr := device_ptr + of_nat i * block_size,
        m_device_handle := cx_get_handle (ev_context e) dr (of_nat i * block_size) block_size,
        m_device_id := device_id\<rparr>"

definition make_segment ::
  "('h, 's) env \<Rightarrow> nat \<Rightarrow> nat \<Rightarrow> region \<Rightarrow> allocation \<Rightarrow> u64 \<Rightarrow> 's \<Rightarrow> (fault + 's segment \<times> 's) option" where
  "make_segment e this pool r a block_size free_stack =
     (if block_size = 0 then Some (Inl (Undefined Division_By_Zero))
      else let num_blocks = a_size a div block_size;
               seg = \<lparr>s_pool = pool, s_block_size = block_size, s_num_blocks = num_blocks,
                      s_allocation = a, s_region = r, s_device_allocation = 0,
                      s_device_region = None, s_device_id = 0,
                      s_freed_stack = sk_make (ev_stack e) True (unat num_blocks), s_num_freed = 0\<rparr>
           in case push_blocks (ev_stack e) (host_block e this a r block_size) (unat num_blocks) free_stack of
                None \<Rightarrow> None
              | Some free_stack' \<Rightarrow> Some (Inr (seg, free_stack')))"

definition make_device_segment ::
  "('h, 's) env \<Rightarrow> nat \<Rightarrow> nat \<Rightarrow> region \<Rightarrow> allocation \<Rightarrow> region \<Rightarrow> u64 \<Rightarrow> int \<Rightarrow> u64 \<Rightarrow> 's
     \<Rightarrow> (fault + 's segment \<times> 's) option" where
  "make_device_segment e this pool r a dr device_ptr device_id block_size free_stack =
     (if block_size = 0 then Some (Inl (Undefined Division_By_Zero))
      else let num_blocks = a_size a div block_size;
               seg = \<lparr>s_pool = pool, s_block_size = block_size, s_num_blocks = num_blocks,
                      s_allocation = a, s_region = r, s_device_allocation = device_ptr,
                      s_device_region = Some dr, s_device_id = device_id,
                      s_freed_stack = sk_make (ev_stack e) True (unat num_blocks), s_num_freed = 0\<rparr>
           in case push_blocks (ev_stack e) (device_block e this a r device_ptr dr device_id block_size)
                     (unat num_blocks) free_stack of
                None \<Rightarrow> None
              | Some free_stack' \<Rightarrow> Some (Inr (seg, free_stack')))"

definition is_empty :: "'s segment \<Rightarrow> bool" where
  "is_empty seg \<longleftrightarrow> s_num_freed seg = s_num_blocks seg"

definition segment_capacity :: "'s segment \<Rightarrow> u64" where
  "segment_capacity seg = s_num_blocks seg"

definition segment_numa_node :: "'s segment \<Rightarrow> u64" where
  "segment_numa_node seg = a_node (s_allocation seg)"

text \<open>\<open>collect\<close>: the freed blocks go to the given stack and leave the count by as many.\<close>

definition collect :: "('h, 's) env \<Rightarrow> 's segment \<Rightarrow> 's \<Rightarrow> ('s segment \<times> 's \<times> nat) option" where
  "collect e seg stack =
     (case sk_consume_all (ev_stack e) (s_freed_stack seg) of (bs, freed') \<Rightarrow>
        case push_each (ev_stack e) bs stack of
          None \<Rightarrow> None
        | Some stack' \<Rightarrow>
            Some (seg\<lparr>s_freed_stack := freed', s_num_freed := s_num_freed seg - of_nat (length bs)\<rparr>,
                  stack', length bs))"

definition segment_free :: "('h, 's) env \<Rightarrow> 's segment \<Rightarrow> 'h block \<Rightarrow> 's segment option" where
  "segment_free e seg b =
     (case push_spin (ev_stack e) b (s_freed_stack seg) of
        None \<Rightarrow> None
      | Some freed' \<Rightarrow> Some (seg\<lparr>s_freed_stack := freed', s_num_freed := s_num_freed seg + 1\<rparr>))"

text \<open>
  Destruction: the members go in the reverse order of their declaration, so memory is deregistered
  before it is given back.
\<close>

definition destroy_segment :: "('h, 's) env \<Rightarrow> world \<Rightarrow> 's segment \<Rightarrow> world" where
  "destroy_segment e w seg =
     (let w1 = (case s_device_region seg of None \<Rightarrow> w | Some r \<Rightarrow> Deregister r # w);
          w2 = (if s_device_allocation seg \<noteq> 0 then device_free (ev_device e) w1 (s_device_allocation seg) else w1);
          w3 = Deregister (s_region seg) # w2
      in numa_free (ev_numa e) w3 (s_allocation seg))"

section \<open>Lemmas on the stacks\<close>

named_theorems stack \<open>the stack operations, in terms of the stack's contents\<close>

lemma stack_make [stack]:
  "stack_ok k \<Longrightarrow> sk_list k (sk_make k f n) = []"
  "stack_ok k \<Longrightarrow> sk_limit k (sk_make k f n) = (if f then Some n else None)"
  by (simp_all add: stack_ok_def)

lemma stack_pop_None [stack]: "stack_ok k \<Longrightarrow> sk_pop k s = None \<longleftrightarrow> sk_list k s = []"
  unfolding stack_ok_def by (cases "sk_list k s") (fastforce+)

lemma stack_pop_Some:
  assumes "stack_ok k" and "sk_pop k s = Some (x, s')"
  shows "sk_list k s = x # sk_list k s'" and "sk_limit k s' = sk_limit k s"
  using assms unfolding stack_ok_def by (cases "sk_list k s"; fastforce)+

lemma stack_consume_all:
  assumes "stack_ok k" and "sk_consume_all k s = (xs, s')"
  shows "xs = sk_list k s" and "sk_list k s' = []" and "sk_limit k s' = sk_limit k s"
  using assms unfolding stack_ok_def by (metis Pair_inject)+

lemma push_spin_ok:
  assumes "stack_ok k" and "\<forall>n. sk_limit k s = Some n \<longrightarrow> length (sk_list k s) < n"
  obtains s' where "push_spin k x s = Some s'" and "sk_list k s' = x # sk_list k s"
    and "sk_limit k s' = sk_limit k s"
proof -
  obtain s' where "sk_push k x s = (True, s')" "sk_list k s' = x # sk_list k s"
    "sk_limit k s' = sk_limit k s"
    using assms unfolding stack_ok_def by blast
  moreover from this have "push_spin k x s = Some s'" by (subst push_spin.simps) simp
  ultimately show ?thesis using that by blast
qed

lemma push_each_ok:
  assumes "stack_ok k" and "sk_limit k s = None"
  obtains s' where "push_each k xs s = Some s'" and "sk_list k s' = rev xs @ sk_list k s"
    and "sk_limit k s' = None"
proof -
  have "\<exists>s'. push_each k xs s = Some s' \<and> sk_list k s' = rev xs @ sk_list k s \<and> sk_limit k s' = None"
    using assms(2)
  proof (induction xs arbitrary: s)
    case Nil
    then show ?case by simp
  next
    case (Cons x xs)
    obtain s1 where s1: "push_spin k x s = Some s1" "sk_list k s1 = x # sk_list k s" "sk_limit k s1 = None"
      using push_spin_ok [OF assms(1), of s x] Cons.prems by auto
    from Cons.IH [OF s1(3)] show ?case using s1 by auto
  qed
  then show ?thesis using that by blast
qed

lemma push_blocks_ok:
  assumes "stack_ok k" and "sk_limit k s = None"
  obtains s' where "push_blocks k f n s = Some s'" and "sk_list k s' = map f [0 ..< n] @ sk_list k s"
    and "sk_limit k s' = None"
proof -
  have "\<exists>s'. push_blocks k f n s = Some s' \<and> sk_list k s' = map f [0 ..< n] @ sk_list k s
      \<and> sk_limit k s' = None"
    using assms(2)
  proof (induction n arbitrary: s)
    case 0
    then show ?case by simp
  next
    case (Suc n)
    obtain s1 where s1: "push_spin k (f n) s = Some s1" "sk_list k s1 = f n # sk_list k s"
      "sk_limit k s1 = None"
      using push_spin_ok [OF assms(1), of s "f n"] Suc.prems by auto
    from Suc.IH [OF s1(3)] show ?case using s1 by auto
  qed
  then show ?thesis using that by blast
qed


section \<open>Lemmas on segments\<close>

text \<open>All blocks a segment was cut into, whoever holds them now, in the order of their offsets.\<close>

definition seg_block :: "('h, 's) env \<Rightarrow> nat \<Rightarrow> 's segment \<Rightarrow> nat \<Rightarrow> 'h block" where
  "seg_block e this seg =
     (case s_device_region seg of
        None \<Rightarrow> host_block e this (s_allocation seg) (s_region seg) (s_block_size seg)
      | Some dr \<Rightarrow> device_block e this (s_allocation seg) (s_region seg) (s_device_allocation seg) dr
                    (s_device_id seg) (s_block_size seg))"

definition seg_blocks :: "('h, 's) env \<Rightarrow> nat \<Rightarrow> 's segment \<Rightarrow> 'h block list" where
  "seg_blocks e this seg = map (seg_block e this seg) [0 ..< unat (s_num_blocks seg)]"

definition freed_blocks :: "('h, 's) env \<Rightarrow> 's segment \<Rightarrow> 'h block list" where
  "freed_blocks e seg = sk_list (ev_stack e) (s_freed_stack seg)"

text \<open>
  A segment's own bookkeeping: the stack of freed blocks is bounded by the number of blocks, and the
  count of freed blocks is its length.
\<close>

definition segment_ok :: "('h, 's) env \<Rightarrow> 's segment \<Rightarrow> bool" where
  "segment_ok e seg \<longleftrightarrow>
     s_block_size seg \<noteq> 0 \<and> s_num_blocks seg = a_size (s_allocation seg) div s_block_size seg \<and>
     sk_limit (ev_stack e) (s_freed_stack seg) = Some (unat (s_num_blocks seg)) \<and>
     s_num_freed seg = of_nat (length (freed_blocks e seg)) \<and>
     length (freed_blocks e seg) \<le> unat (s_num_blocks seg)"

lemma seg_block_simps [simp]:
  "m_segment (seg_block e this seg i) = Some this"
  "m_user_allocation (seg_block e this seg i) = None"
  "m_ptr (seg_block e this seg i) = a_ptr (s_allocation seg) + of_nat i * s_block_size seg"
  by (simp_all add: seg_block_def host_block_def device_block_def split: option.splits)

lemma seg_blocks_segment: "b \<in> set (seg_blocks e this seg) \<Longrightarrow> m_segment b = Some this"
  by (auto simp: seg_blocks_def)

lemma length_seg_blocks [simp]: "length (seg_blocks e this seg) = unat (s_num_blocks seg)"
  by (simp add: seg_blocks_def)

text \<open>Freeing and collecting change no member that \<open>seg_blocks\<close> depends on.\<close>

lemma seg_blocks_update [simp]:
  "seg_blocks e this (seg\<lparr>s_freed_stack := fr, s_num_freed := n\<rparr>) = seg_blocks e this seg"
  by (simp add: seg_blocks_def seg_block_def cong: option.case_cong)

text \<open>The offsets of the blocks do not wrap around, and no block runs past the allocation.\<close>

lemma block_offset:
  assumes "i < unat (n div bs)" and "unat p + unat n \<le> 2 ^ 64"
  shows "unat (p + of_nat i * bs :: u64) = unat p + i * unat bs"
    and "i * unat bs + unat bs \<le> unat n"
proof -
  have pos: "0 < unat bs" using assms(1) by (auto simp: unat_div_word intro!: gr0I)
  have "Suc i \<le> unat n div unat bs" using assms(1) by (simp add: unat_div_word)
  then have "Suc i * unat bs \<le> unat n div unat bs * unat bs" by (rule mult_le_mono1)
  also have "\<dots> \<le> unat n" by (rule div_times_less_eq_dividend)
  finally show le: "i * unat bs + unat bs \<le> unat n" by simp
  have n: "unat n < 2 ^ 64" using unat_less_2p [of n] by simp
  have "i * 1 \<le> i * unat bs" using pos by (intro mult_le_mono2) simp
  then have "i < 2 ^ 64" using le n by linarith
  then have i: "unat (of_nat i :: u64) = i" by (intro unat_of_nat_small) simp
  have m: "unat (of_nat i * bs :: u64) = i * unat bs"
    using i le n by (subst unat_mult_no_wrap) simp_all
  show "unat (p + of_nat i * bs) = unat p + i * unat bs"
    using m le pos assms(2) by (subst unat_add_no_wrap) simp_all
qed

text \<open>So two blocks of a segment at different positions do not overlap, and lie in its allocation.\<close>

lemma seg_block_range:
  assumes "segment_ok e seg" and "i < unat (s_num_blocks seg)"
    and "unat (a_ptr (s_allocation seg)) + unat (a_size (s_allocation seg)) \<le> 2 ^ 64"
  shows "unat (m_ptr (seg_block e this seg i)) = unat (a_ptr (s_allocation seg)) + i * unat (s_block_size seg)"
    and "i * unat (s_block_size seg) + unat (s_block_size seg) \<le> unat (a_size (s_allocation seg))"
proof -
  have n: "i < unat (a_size (s_allocation seg) div s_block_size seg)"
    using assms(1,2) by (simp add: segment_ok_def)
  from block_offset(1) [OF n assms(3)] show "unat (m_ptr (seg_block e this seg i)) =
    unat (a_ptr (s_allocation seg)) + i * unat (s_block_size seg)" by simp
  from block_offset(2) [OF n assms(3)] show "i * unat (s_block_size seg) + unat (s_block_size seg)
    \<le> unat (a_size (s_allocation seg))" .
qed

lemma seg_blocks_apart:
  assumes "segment_ok e seg" and "i < unat (s_num_blocks seg)" and "j < unat (s_num_blocks seg)"
    and "i \<noteq> j" and "unat (a_ptr (s_allocation seg)) + unat (a_size (s_allocation seg)) \<le> 2 ^ 64"
  shows "apart (m_ptr (seg_block e this seg i)) (unat (s_block_size seg))
               (m_ptr (seg_block e this seg j)) (unat (s_block_size seg))"
proof -
  have step: "k * unat (s_block_size seg) + unat (s_block_size seg) \<le> l * unat (s_block_size seg)"
    if "k < l" for k l :: nat
    using mult_le_mono1 [of "Suc k" l "unat (s_block_size seg)"] that by simp
  note r = seg_block_range(1) [OF assms(1) _ assms(5)]
  show ?thesis
    using step [of i j] step [of j i] assms(4)
    unfolding apart_def r [OF assms(2)] r [OF assms(3)] by (cases "i < j") simp_all
qed

lemma distinct_seg_blocks:
  assumes "segment_ok e seg"
    and "unat (a_ptr (s_allocation seg)) + unat (a_size (s_allocation seg)) \<le> 2 ^ 64"
  shows "distinct (seg_blocks e this seg)"
proof -
  have "i = j" if "i < unat (s_num_blocks seg)" "j < unat (s_num_blocks seg)"
    "seg_block e this seg i = seg_block e this seg j" for i j
  proof (rule ccontr)
    assume "i \<noteq> j"
    from seg_blocks_apart [OF assms(1) that(1,2) this assms(2), of this] that(3)
    have "unat (s_block_size seg) = 0" by (auto simp: apart_def)
    then show False using assms(1) by (simp add: segment_ok_def unat_eq_zero)
  qed
  then show ?thesis by (auto simp: seg_blocks_def distinct_map inj_on_def)
qed

text \<open>The constructors: every block of the new segment lands on the stack, the first one on top.\<close>

lemma make_segment_ok:
  assumes "stack_ok (ev_stack e)" and "sk_limit (ev_stack e) fs = None" and "bs \<noteq> 0"
  obtains seg fs' where "make_segment e this pool r a bs fs = Some (Inr (seg, fs'))"
    and "segment_ok e seg" and "freed_blocks e seg = []" and "s_pool seg = pool"
    and "s_allocation seg = a" and "s_region seg = r" and "s_block_size seg = bs"
    and "s_device_region seg = None" and "s_device_allocation seg = 0"
    and "sk_list (ev_stack e) fs' = seg_blocks e this seg @ sk_list (ev_stack e) fs"
    and "sk_limit (ev_stack e) fs' = None"
proof -
  let ?n = "unat (a_size a div bs)"
  obtain fs' where fs': "push_blocks (ev_stack e) (host_block e this a r bs) ?n fs = Some fs'"
    "sk_list (ev_stack e) fs' = map (host_block e this a r bs) [0 ..< ?n] @ sk_list (ev_stack e) fs"
    "sk_limit (ev_stack e) fs' = None"
    using push_blocks_ok [OF assms(1,2)] by metis
  show ?thesis
    by (rule that [of "\<lparr>s_pool = pool, s_block_size = bs, s_num_blocks = a_size a div bs,
          s_allocation = a, s_region = r, s_device_allocation = 0, s_device_region = None,
          s_device_id = 0, s_freed_stack = sk_make (ev_stack e) True ?n, s_num_freed = 0\<rparr>" fs'])
      (use assms fs' in \<open>simp_all add: make_segment_def Let_def segment_ok_def freed_blocks_def seg_blocks_def
        seg_block_def stack\<close>)
qed

lemma make_device_segment_ok:
  assumes "stack_ok (ev_stack e)" and "sk_limit (ev_stack e) fs = None" and "bs \<noteq> 0"
  obtains seg fs' where
    "make_device_segment e this pool r a dr dp d bs fs = Some (Inr (seg, fs'))"
    and "segment_ok e seg" and "freed_blocks e seg = []" and "s_pool seg = pool"
    and "s_allocation seg = a" and "s_region seg = r" and "s_block_size seg = bs"
    and "s_device_region seg = Some dr" and "s_device_allocation seg = dp" and "s_device_id seg = d"
    and "sk_list (ev_stack e) fs' = seg_blocks e this seg @ sk_list (ev_stack e) fs"
    and "sk_limit (ev_stack e) fs' = None"
proof -
  let ?n = "unat (a_size a div bs)"
  obtain fs' where fs': "push_blocks (ev_stack e) (device_block e this a r dp dr d bs) ?n fs = Some fs'"
    "sk_list (ev_stack e) fs' = map (device_block e this a r dp dr d bs) [0 ..< ?n] @ sk_list (ev_stack e) fs"
    "sk_limit (ev_stack e) fs' = None"
    using push_blocks_ok [OF assms(1,2)] by metis
  show ?thesis
    by (rule that [of "\<lparr>s_pool = pool, s_block_size = bs, s_num_blocks = a_size a div bs,
          s_allocation = a, s_region = r, s_device_allocation = dp, s_device_region = Some dr,
          s_device_id = d, s_freed_stack = sk_make (ev_stack e) True ?n, s_num_freed = 0\<rparr>" fs'])
      (use assms fs' in \<open>simp_all add: make_device_segment_def Let_def segment_ok_def freed_blocks_def
        seg_blocks_def seg_block_def stack\<close>)
qed

lemma segment_free_ok:
  assumes "stack_ok (ev_stack e)" and "segment_ok e seg"
    and "length (freed_blocks e seg) < unat (s_num_blocks seg)"
  obtains fs where "segment_free e seg b = Some (seg\<lparr>s_freed_stack := fs, s_num_freed := s_num_freed seg + 1\<rparr>)"
    and "segment_ok e (seg\<lparr>s_freed_stack := fs, s_num_freed := s_num_freed seg + 1\<rparr>)"
    and "sk_list (ev_stack e) fs = b # freed_blocks e seg"
proof -
  have "\<forall>n. sk_limit (ev_stack e) (s_freed_stack seg) = Some n \<longrightarrow>
    length (sk_list (ev_stack e) (s_freed_stack seg)) < n"
    using assms(2,3) by (simp add: segment_ok_def freed_blocks_def)
  from push_spin_ok [OF assms(1) this, of b] obtain fs where fs:
    "push_spin (ev_stack e) b (s_freed_stack seg) = Some fs"
    "sk_list (ev_stack e) fs = b # freed_blocks e seg"
    "sk_limit (ev_stack e) fs = sk_limit (ev_stack e) (s_freed_stack seg)"
    unfolding freed_blocks_def by blast
  show ?thesis
    by (rule that [of fs]) (use assms fs in \<open>simp_all add: segment_free_def segment_ok_def freed_blocks_def\<close>)
qed

lemma collect_ok:
  assumes "stack_ok (ev_stack e)" and "segment_ok e seg" and "sk_limit (ev_stack e) st = None"
  obtains fr st' where "collect e seg st =
      Some (seg\<lparr>s_freed_stack := fr, s_num_freed := 0\<rparr>, st', length (freed_blocks e seg))"
    and "segment_ok e (seg\<lparr>s_freed_stack := fr, s_num_freed := 0\<rparr>)"
    and "sk_list (ev_stack e) fr = []"
    and "sk_list (ev_stack e) st' = rev (freed_blocks e seg) @ sk_list (ev_stack e) st"
    and "sk_limit (ev_stack e) st' = None"
proof -
  obtain bs fr where c: "sk_consume_all (ev_stack e) (s_freed_stack seg) = (bs, fr)"
    by (cases "sk_consume_all (ev_stack e) (s_freed_stack seg)") auto
  note k = stack_consume_all [OF assms(1) c]
  obtain st' where st': "push_each (ev_stack e) bs st = Some st'"
    "sk_list (ev_stack e) st' = rev bs @ sk_list (ev_stack e) st" "sk_limit (ev_stack e) st' = None"
    using push_each_ok [OF assms(1,3)] by metis
  show ?thesis
    by (rule that [of fr st'])
      (use assms c k st' in \<open>simp_all add: collect_def segment_ok_def freed_blocks_def\<close>)
qed

end
