(* ===== verification/Heap_Config.thy ===== *)
theory Heap_Config
  imports Prelude
begin

text \<open>
  The configuration of a heap: \<open>include/hwmalloc/heap_config.hpp\<close> and \<open>src/heap_config.cpp\<close>.
  The bit length \<open>log2_c\<close> and the rounding \<open>round_to_pow_of_2\<close>, the constructor with its
  validation, and the reading of the default configuration from the process environment.
\<close>

section \<open>Bit length and rounding\<close>

function log2_c :: "u64 \<Rightarrow> u64" where
  "log2_c n = (if n < 2 then 1 else 1 + log2_c (drop_bit 1 n))"
  by pat_completeness auto
termination
  by (relation "measure unat") (auto simp: word_nat)

declare log2_c.simps [simp del]

text \<open>
  \<open>1u\<close> is an \<open>unsigned int\<close>: the shift is undefined when its distance reaches 32, and its
  result is widened to \<open>std::size_t\<close> afterwards.
\<close>

definition round_to_pow_of_2 :: "u64 \<Rightarrow> fault + u64" where
  "round_to_pow_of_2 n =
     (let k = log2_c (n - 1)
      in if k < 32 then Inr (ucast (push_bit (unat k) (1 :: u32)))
         else Inl (Undefined Shift_Too_Far))"

lemma log2_c_cases:
  "log2_c n = (if unat n < 2 then 1 else 1 + log2_c (drop_bit 1 n))"
  by (subst log2_c.simps) (simp add: word_nat)

text \<open>The value is the bit length: one for 0 and 1, else one more than that of half.\<close>

lemma log2_c_bounds:
  "1 \<le> unat (log2_c n) \<and> unat (log2_c n) \<le> 64 \<and> unat n < 2 ^ unat (log2_c n)
     \<and> (n \<noteq> 0 \<longrightarrow> 2 ^ (unat (log2_c n) - 1) \<le> unat n)"
proof (induction n rule: log2_c.induct)
  case (1 n)
  show ?case
  proof (cases "n < 2")
    case True
    then have "unat n < 2" by (simp add: word_nat)
    moreover have "log2_c n = 1" using True by (subst log2_c.simps) simp
    ultimately show ?thesis by (auto simp: unat_eq_zero [symmetric])
  next
    case False
    define m where "m = drop_bit 1 n"
    have big: "2 \<le> unat n" using False by (simp add: word_nat)
    have m: "unat m = unat n div 2" by (simp add: m_def word_nat)
    have "m \<noteq> 0"
    proof
      assume "m = 0"
      then have "unat m = 0" by simp
      with m big show False by simp
    qed
    define k where "k = unat (log2_c m)"
    have ih: "1 \<le> k" "k \<le> 64" "unat m < 2 ^ k" "2 ^ (k - 1) \<le> unat m"
      using "1.IH" [OF False] \<open>m \<noteq> 0\<close> by (auto simp: m_def k_def)
    have "unat m < 2 ^ 63" using m unat_less_2p [of n] by simp
    with ih(4) have "(2::nat) ^ (k - 1) < 2 ^ 63" by simp
    then have "k - 1 < 63" by (simp only: power_strict_increasing_iff)
    then have small: "k + 1 \<le> 64" using ih(1) by simp
    have "log2_c n = 1 + log2_c m" using False by (subst log2_c.simps) (simp add: m_def)
    then have eq: "unat (log2_c n) = k + 1"
      using small by (simp add: k_def unat_add_no_wrap)
    have half: "unat n < 2 * unat m + 2" "2 * unat m \<le> unat n" using m by simp_all
    have "unat n < 2 ^ (k + 1)" using half(1) ih(3) by simp
    moreover have "2 ^ k = 2 * (2::nat) ^ (k - 1)" using ih(1) by (cases k) simp_all
    then have "2 ^ k \<le> unat n" using half(2) ih(4) by simp
    ultimately show ?thesis using small eq by simp
  qed
qed

lemma log2_c_eqI:
  assumes "2 ^ k \<le> unat n" and "unat n < 2 ^ Suc k"
  shows "unat (log2_c n) = Suc k"
proof -
  let ?l = "unat (log2_c n)"
  have "n \<noteq> 0" using assms(1) by auto
  then have b: "1 \<le> ?l" "unat n < 2 ^ ?l" "2 ^ (?l - 1) \<le> unat n"
    using log2_c_bounds [of n] by auto
  from assms(1) b(2) have "(2::nat) ^ k < 2 ^ ?l" by (rule le_less_trans)
  then have "k < ?l" by simp
  moreover from b(3) assms(2) have "(2::nat) ^ (?l - 1) < 2 ^ Suc k" by (rule le_less_trans)
  then have "?l - 1 < Suc k" by (rule power_less_imp_less_exp [rotated]) simp
  ultimately show ?thesis using b(1) by simp
qed

lemma log2_c_pow2: "unat n = 2 ^ k \<Longrightarrow> unat (log2_c n) = Suc k"
  by (rule log2_c_eqI) simp_all


lemma unat_shifted_one:
  assumes "unat k < 32"
  shows "unat (ucast (push_bit (unat (k :: u64)) (1 :: u32)) :: u64) = 2 ^ unat k"
proof -
  have b: "(2::nat) ^ unat k < 2 ^ 32" using assms by (simp only: power_strict_increasing_iff)
  then have "unat (push_bit (unat k) (1 :: u32)) = 2 ^ unat k"
    by (simp add: unat_push_bit del: push_bit_of_1)
  then show ?thesis using assms
    by (simp add: unsigned_ucast_eq take_bit_nat_eq_self del: push_bit_of_1)
qed

text \<open>Rounding succeeds exactly on 1 to 2^31, and then it is the shift of one by the bit length.\<close>

lemma log2_c_pred_small_iff:
  "unat (log2_c (n - 1)) < 32 \<longleftrightarrow> n \<noteq> 0 \<and> unat n \<le> 2 ^ 31"
proof (cases "n = 0")
  case True
  have "unat (- 1 :: u64) = 2 ^ 64 - 1" by (simp add: unsigned_minus_1_eq_mask mask_eq_exp_minus_1)
  then have "unat (log2_c (- 1)) = Suc 63" by (intro log2_c_eqI) simp_all
  then show ?thesis using True by simp
next
  case False
  let ?l = "unat (log2_c (n - 1))"
  have p: "unat (n - 1) = unat n - 1" using False by (rule unat_minus_one_pos)
  have pos: "0 < unat n" using False by (simp add: unat_gt_0)
  note b = log2_c_bounds [of "n - 1"]
  show ?thesis
  proof (cases "unat n \<le> 2 ^ 31")
    case True
    have "?l < 32"
    proof (cases "n - 1 = 0")
      case True
      then show ?thesis by (subst log2_c.simps) simp
    next
      case nz: False
      then have "2 ^ (?l - 1) \<le> unat n - 1" using b p by simp
      then have "(2::nat) ^ (?l - 1) < 2 ^ 31" using True pos by linarith
      then have "?l - 1 < 31" by (rule power_less_imp_less_exp [rotated]) simp
      then show ?thesis by simp
    qed
    then show ?thesis using True False by simp
  next
    case big: False
    then have "2 ^ 31 \<le> unat (n - 1)" using p by simp
    then have "(2::nat) ^ 31 < 2 ^ ?l" using b by (blast intro: le_less_trans)
    then have "31 < ?l" by (rule power_less_imp_less_exp [rotated]) simp
    then show ?thesis using big by simp
  qed
qed

lemma round_to_pow_of_2_alt:
  "round_to_pow_of_2 n =
     (if n \<noteq> 0 \<and> unat n \<le> 2 ^ 31
      then Inr (ucast (push_bit (unat (log2_c (n - 1))) (1 :: u32)))
      else Inl (Undefined Shift_Too_Far))"
proof -
  have "log2_c (n - 1) < 32 \<longleftrightarrow> unat (log2_c (n - 1)) < 32" by (simp add: word_nat)
  then show ?thesis
    by (simp add: round_to_pow_of_2_def Let_def log2_c_pred_small_iff del: push_bit_of_1)
qed

lemma round_exponent:
  assumes "n \<noteq> 0" and "unat n \<le> 2 ^ 31"
  obtains k m where "round_to_pow_of_2 n = Inr m" and "unat m = 2 ^ k" and "1 \<le> k" and "k \<le> 31"
    and "unat n \<le> 2 ^ k" and "2 ^ (k - 1) < unat n \<or> k = 1"
proof -
  let ?k = "unat (log2_c (n - 1))"
  let ?m = "ucast (push_bit ?k (1 :: u32)) :: u64"
  have k: "?k < 32" using assms by (simp add: log2_c_pred_small_iff)
  have r: "round_to_pow_of_2 n = Inr ?m"
    using assms by (simp add: round_to_pow_of_2_alt del: push_bit_of_1)
  have p: "unat (n - 1) = unat n - 1" using assms(1) by (rule unat_minus_one_pos)
  have pos: "0 < unat n" using assms(1) by (simp add: unat_gt_0)
  note b = log2_c_bounds [of "n - 1"]
  have lo: "2 ^ (?k - 1) < unat n \<or> ?k = 1"
  proof (cases "n - 1 = 0")
    case True
    then have "?k = 1" by (subst log2_c.simps) simp
    then show ?thesis by simp
  next
    case False
    then have "2 ^ (?k - 1) \<le> unat n - 1" using b p by simp
    then show ?thesis using pos by linarith
  qed
  have "unat n - 1 < 2 ^ ?k" using b p by simp
  then have "unat n \<le> 2 ^ ?k" by simp
  then show ?thesis using that [OF r unat_shifted_one [OF k]] b k lo by simp
qed

lemma round_InrE:
  assumes "round_to_pow_of_2 n = Inr m"
  obtains k where "unat m = 2 ^ k" and "1 \<le> k" and "k \<le> 31" and "unat n \<le> 2 ^ k"
    and "2 ^ (k - 1) < unat n \<or> k = 1"
proof -
  have "n \<noteq> 0" "unat n \<le> 2 ^ 31"
    using assms by (auto simp: round_to_pow_of_2_alt split: if_splits)
  then show ?thesis using round_exponent [of n] assms that by (metis sum.inject(2))
qed

lemma round_mono:
  assumes "round_to_pow_of_2 a = Inr x" and "round_to_pow_of_2 b = Inr y" and "unat a \<le> unat b"
  shows "unat x \<le> unat y"
proof -
  obtain i where i: "unat x = 2 ^ i" "2 ^ (i - 1) < unat a \<or> i = 1" "1 \<le> i"
    using assms(1) by (rule round_InrE)
  obtain j where j: "unat y = 2 ^ j" "unat b \<le> 2 ^ j" "1 \<le> j"
    using assms(2) by (rule round_InrE)
  have "i \<le> j"
  proof (rule ccontr)
    assume "\<not> i \<le> j"
    then have "i \<noteq> 1" "j \<le> i - 1" using j(3) by simp_all
    then have "(2::nat) ^ j \<le> 2 ^ (i - 1)" by simp
    then show False using i(2) \<open>i \<noteq> 1\<close> j(2) assms(3) by linarith
  qed
  then show ?thesis by (simp add: i(1) j(1))
qed

lemma round_pow2:
  assumes "unat n = 2 ^ k" and "1 \<le> k" and "k \<le> 31"
  shows "round_to_pow_of_2 n = Inr n"
proof -
  have "(2::nat) ^ k \<le> 2 ^ 31" using assms(3) by (simp only: power_increasing_iff)
  then have "n \<noteq> 0" "unat n \<le> 2 ^ 31" using assms(1) by auto
  then obtain j m where m: "round_to_pow_of_2 n = Inr m" "unat m = 2 ^ j" "unat n \<le> 2 ^ j"
    "2 ^ (j - 1) < unat n \<or> j = 1" "1 \<le> j" by (rule round_exponent)
  have "k \<le> j" using m(3) assms(1) by (simp only: power_increasing_iff)
  moreover have "j - 1 < k \<or> j = 1"
    using m(4) assms(1) power_less_imp_less_exp [of "2::nat" "j - 1" k] by auto
  ultimately have "j = k" using assms(2) by auto
  then have "m = n" using m(2) assms(1) by (simp add: word_unat_eq_iff)
  then show ?thesis using m(1) by simp
qed


section \<open>The configuration record and its constructor\<close>

record heap_config =
  m_never_free :: bool
  m_num_reserve_segments :: u64
  m_tiny_limit :: u64
  m_small_limit :: u64
  m_large_limit :: u64
  m_bucket_shift :: u64
  m_tiny_segment_size :: u64
  m_small_segment_size :: u64
  m_large_segment_size :: u64
  m_num_tiny_heaps :: u64
  m_num_small_heaps :: u64
  m_num_large_heaps :: u64

definition m_tiny_increment_shift :: nat where
  "m_tiny_increment_shift = 3"

definition m_tiny_increment :: u64 where
  "m_tiny_increment = ucast (push_bit m_tiny_increment_shift (1 :: u32))"

lemma m_tiny_increment_eq [simp]: "m_tiny_increment = 8"
  by (simp add: m_tiny_increment_def m_tiny_increment_shift_def)

text \<open>Decimal output of an unsigned value, as a stream inserter or \<open>std::to_string\<close> writes it.\<close>

fun show_nat :: "nat \<Rightarrow> string" where
  "show_nat n =
     (if n < 10 then [char_of (48 + n)] else show_nat (n div 10) @ [char_of (48 + n mod 10)])"

declare show_nat.simps [simp del]

definition limits_message :: "u64 \<Rightarrow> u64 \<Rightarrow> u64 \<Rightarrow> string" where
  "limits_message t s l =
     ''Invalid heap size configuration: HWMALLOC_TINY_LIMIT < HWMALLOC_SMALL_LIMIT < HWMALLOC_LARGE_LIMIT must hold. ''
     @ ''Got HWMALLOC_TINY_LIMIT='' @ show_nat (unat t)
     @ '', HWMALLOC_SMALL_LIMIT='' @ show_nat (unat s)
     @ '', HWMALLOC_LARGE_LIMIT='' @ show_nat (unat l) @ ''.''"

definition segments_message :: "u64 \<Rightarrow> u64 \<Rightarrow> u64 \<Rightarrow> u64 \<Rightarrow> u64 \<Rightarrow> u64 \<Rightarrow> string" where
  "segments_message t ts s ss l ls =
     ''Invalid heap size configuration: Limits must be at most segment sizes. ''
     @ ''Got HWMALLOC_TINY_LIMIT='' @ show_nat (unat t)
     @ '', HWMALLOC_TINY_SEGMENT_SIZE='' @ show_nat (unat ts)
     @ '', HWMALLOC_SMALL_LIMIT='' @ show_nat (unat s)
     @ '', HWMALLOC_SMALL_SEGMENT_SIZE='' @ show_nat (unat ss)
     @ '', HWMALLOC_LARGE_LIMIT='' @ show_nat (unat l)
     @ '', HWMALLOC_LARGE_SEGMENT_SIZE='' @ show_nat (unat ls) @ ''.''"

text \<open>
  The members are initialised in the order of their declaration; the ones with a default member
  initialiser (\<open>m_bucket_shift\<close> and the numbers of heaps) read the limits rounded before them.
  The second check compares the arguments, not the rounded members.
\<close>

definition make_heap_config ::
  "bool \<Rightarrow> u64 \<Rightarrow> u64 \<Rightarrow> u64 \<Rightarrow> u64 \<Rightarrow> u64 \<Rightarrow> u64 \<Rightarrow> u64 \<Rightarrow> fault + heap_config" where
  "make_heap_config never_free num_reserve_segments tiny_limit small_limit large_limit
     tiny_segment_size small_segment_size large_segment_size =
     bindE (round_to_pow_of_2 tiny_limit) (\<lambda>tlim.
     bindE (round_to_pow_of_2 small_limit) (\<lambda>slim.
     bindE (round_to_pow_of_2 large_limit) (\<lambda>llim.
     bindE (round_to_pow_of_2 tiny_segment_size) (\<lambda>ts.
     bindE (round_to_pow_of_2 small_segment_size) (\<lambda>ss.
     bindE (round_to_pow_of_2 large_segment_size) (\<lambda>ls.
       if \<not> (tlim < slim \<and> slim < llim) then Inl (Runtime_Error (limits_message tlim slim llim))
       else if \<not> (tiny_limit \<le> tiny_segment_size \<and> small_limit \<le> small_segment_size
                  \<and> large_limit \<le> large_segment_size)
       then Inl (Runtime_Error (segments_message tlim ts slim ss llim ls))
       else Inr \<lparr> m_never_free = never_free, m_num_reserve_segments = num_reserve_segments,
                  m_tiny_limit = tlim, m_small_limit = slim, m_large_limit = llim,
                  m_bucket_shift = log2_c tlim - 1,
                  m_tiny_segment_size = ts, m_small_segment_size = ss, m_large_segment_size = ls,
                  m_num_tiny_heaps = tlim div m_tiny_increment,
                  m_num_small_heaps = log2_c slim - log2_c tlim,
                  m_num_large_heaps = log2_c llim - log2_c slim \<rparr>))))))"

text \<open>
  What an accepted configuration satisfies: the limits are increasing powers of two, each at most
  its segment size, and the derived members are differences of their exponents.
\<close>

definition config_exponents :: "heap_config \<Rightarrow> nat \<Rightarrow> nat \<Rightarrow> nat \<Rightarrow> bool" where
  "config_exponents c t s l \<longleftrightarrow>
     1 \<le> t \<and> t < s \<and> s < l \<and> l \<le> 31 \<and>
     unat (m_tiny_limit c) = 2 ^ t \<and> unat (m_small_limit c) = 2 ^ s \<and> unat (m_large_limit c) = 2 ^ l \<and>
     unat (m_bucket_shift c) = t \<and> unat (m_num_tiny_heaps c) = 2 ^ t div 8 \<and>
     unat (m_num_small_heaps c) = s - t \<and> unat (m_num_large_heaps c) = l - s \<and>
     m_tiny_limit c \<le> m_tiny_segment_size c \<and> m_small_limit c \<le> m_small_segment_size c \<and>
     m_large_limit c \<le> m_large_segment_size c \<and>
     unat (m_tiny_segment_size c) \<le> 2 ^ 31 \<and> unat (m_small_segment_size c) \<le> 2 ^ 31 \<and>
     unat (m_large_segment_size c) \<le> 2 ^ 31"

lemma unat_log2_c_diff:
  assumes "unat a = 2 ^ i" and "unat b = 2 ^ j" and "i \<le> j"
  shows "unat (log2_c b - log2_c a) = j - i"
proof -
  have "unat (log2_c a) = Suc i" "unat (log2_c b) = Suc j"
    using assms(1,2) by (simp_all add: log2_c_pow2)
  then show ?thesis using assms(3) by (simp add: unat_sub_if_size word_size word_nat)
qed

lemma unat_log2_c_minus_one:
  assumes "unat a = 2 ^ i"
  shows "unat (log2_c a - 1) = i"
proof -
  have "unat (log2_c a) = Suc i" using assms by (rule log2_c_pow2)
  moreover from this have "log2_c a \<noteq> 0" by auto
  ultimately show ?thesis by (simp add: unat_minus_one_pos)
qed

lemma make_heap_config_exponents:
  assumes "make_heap_config nf nrs tlim slim llim tseg sseg lseg = Inr c"
  obtains t s l where "config_exponents c t s l"
proof -
  obtain tm sm lm tsm ssm lsm where r:
    "round_to_pow_of_2 tlim = Inr tm" "round_to_pow_of_2 slim = Inr sm" "round_to_pow_of_2 llim = Inr lm"
    "round_to_pow_of_2 tseg = Inr tsm" "round_to_pow_of_2 sseg = Inr ssm" "round_to_pow_of_2 lseg = Inr lsm"
    and less: "tm < sm" "sm < lm" and le: "tlim \<le> tseg" "slim \<le> sseg" "llim \<le> lseg"
    and c: "c = \<lparr> m_never_free = nf, m_num_reserve_segments = nrs,
                  m_tiny_limit = tm, m_small_limit = sm, m_large_limit = lm,
                  m_bucket_shift = log2_c tm - 1,
                  m_tiny_segment_size = tsm, m_small_segment_size = ssm, m_large_segment_size = lsm,
                  m_num_tiny_heaps = tm div m_tiny_increment,
                  m_num_small_heaps = log2_c sm - log2_c tm,
                  m_num_large_heaps = log2_c lm - log2_c sm \<rparr>"
    using assms by (auto simp: make_heap_config_def bindE_eq_Inr split: if_splits)
  obtain t where t: "unat tm = 2 ^ t" "1 \<le> t" using r(1) by (rule round_InrE)
  obtain s where s: "unat sm = 2 ^ s" using r(2) by (rule round_InrE)
  obtain l where l: "unat lm = 2 ^ l" "l \<le> 31" using r(3) by (rule round_InrE)
  have ts: "t < s" "s < l"
    using less by (simp_all add: word_nat t(1) s l(1))
  have seg: "unat x \<le> 2 ^ 31" if eq: "round_to_pow_of_2 y = Inr x" for x y
    using eq by (rule round_InrE) (simp only: power_increasing_iff)
  have "tm \<le> tsm" "sm \<le> ssm" "lm \<le> lsm"
    using round_mono r le unfolding word_nat by blast+
  then have "config_exponents c t s l"
    using t l ts s seg [OF r(4)] seg [OF r(5)] seg [OF r(6)]
    by (simp add: c config_exponents_def unat_log2_c_diff unat_log2_c_minus_one unat_div_word)
  then show ?thesis by (rule that)
qed


section \<open>Reading the defaults from the environment\<close>

text \<open>
  \<open>std::stoul\<close> in base ten: white space, an optional sign, then the longest run of digits. No
  digit is \<open>std::invalid_argument\<close>, a magnitude beyond 64 bits \<open>std::out_of_range\<close>, and a minus
  sign negates modulo 2^64. What follows the digits is ignored.
\<close>

definition is_space :: "char \<Rightarrow> bool" where
  "is_space c \<longleftrightarrow> (of_char c :: nat) = 32 \<or> 9 \<le> (of_char c :: nat) \<and> (of_char c :: nat) \<le> 13"

definition is_digit :: "char \<Rightarrow> bool" where
  "is_digit c \<longleftrightarrow> 48 \<le> (of_char c :: nat) \<and> (of_char c :: nat) \<le> 57"

definition digit_value :: "char \<Rightarrow> nat" where
  "digit_value c = of_char c - 48"

definition read_nat :: "string \<Rightarrow> nat" where
  "read_nat ds = foldl (\<lambda>a c. 10 * a + digit_value c) 0 ds"

definition split_sign :: "string \<Rightarrow> bool \<times> string" where
  "split_sign s = (case s of [] \<Rightarrow> (False, [])
     | c # r \<Rightarrow> if c = CHR ''-'' then (True, r) else if c = CHR ''+'' then (False, r) else (False, s))"

definition stoul :: "string \<Rightarrow> fault + u64" where
  "stoul s =
     (let (neg, body) = split_sign (dropWhile is_space s);
          ds = takeWhile is_digit body
      in if ds = [] then Inl Invalid_Argument
         else if 2 ^ 64 \<le> read_nat ds then Inl Out_Of_Range
         else Inr (if neg then - of_nat (read_nat ds) else of_nat (read_nat ds)))"

definition parse_size :: "string \<Rightarrow> fault + u64" where
  "parse_size env_value = stoul env_value"

definition parse_bool :: "string \<Rightarrow> fault + bool" where
  "parse_bool env_value = bindE (stoul env_value) (\<lambda>n. Inr (n \<noteq> 0))"

text \<open>
  \<open>get_env\<close>: an unset variable and one that does not parse both give the default. The parser is
  the instance of \<open>parse_value\<close> at the requested type, \<open>getenv\<close> the process environment.
\<close>

definition get_env :: "(string \<Rightarrow> fault + 'a) \<Rightarrow> (string \<Rightarrow> string option) \<Rightarrow> string \<Rightarrow> 'a \<Rightarrow> 'a" where
  "get_env parse_value getenv name default_value =
     (case getenv name of
        Some env_value \<Rightarrow>
          (case parse_value env_value of Inr v \<Rightarrow> v | Inl _ \<Rightarrow> default_value)
      | None \<Rightarrow> default_value)"

definition never_free_default :: bool where "never_free_default = False"
definition num_reserve_segments_default :: u64 where "num_reserve_segments_default = 16"
definition tiny_limit_default :: u64 where "tiny_limit_default = 128"
definition small_limit_default :: u64 where "small_limit_default = 4096"
definition large_limit_default :: u64 where "large_limit_default = 2097152"
definition tiny_segment_size_default :: u64 where "tiny_segment_size_default = 65536"
definition small_segment_size_default :: u64 where "small_segment_size_default = 65536"
definition large_segment_size_default :: u64 where "large_segment_size_default = 2097152"

lemmas config_defaults =
  never_free_default_def num_reserve_segments_default_def tiny_limit_default_def
  small_limit_default_def large_limit_default_def tiny_segment_size_default_def
  small_segment_size_default_def large_segment_size_default_def

definition config_from_env :: "(string \<Rightarrow> string option) \<Rightarrow> fault + heap_config" where
  "config_from_env getenv =
     make_heap_config
       (get_env parse_bool getenv ''HWMALLOC_NEVER_FREE'' never_free_default)
       (get_env parse_size getenv ''HWMALLOC_NUM_RESERVE_SEGMENTS'' num_reserve_segments_default)
       (get_env parse_size getenv ''HWMALLOC_TINY_LIMIT'' tiny_limit_default)
       (get_env parse_size getenv ''HWMALLOC_SMALL_LIMIT'' small_limit_default)
       (get_env parse_size getenv ''HWMALLOC_LARGE_LIMIT'' large_limit_default)
       (get_env parse_size getenv ''HWMALLOC_TINY_SEGMENT_SIZE'' tiny_segment_size_default)
       (get_env parse_size getenv ''HWMALLOC_SMALL_SEGMENT_SIZE'' small_segment_size_default)
       (get_env parse_size getenv ''HWMALLOC_LARGE_SEGMENT_SIZE'' large_segment_size_default)"

text \<open>
  The function-local static of \<open>get_default_heap_config\<close>: built by the first call that succeeds,
  returned unchanged by every later one. An exception leaves it unbuilt.
\<close>

definition get_default_heap_config ::
  "(string \<Rightarrow> string option) \<Rightarrow> heap_config option \<Rightarrow> heap_config option \<times> (fault + heap_config)" where
  "get_default_heap_config getenv config =
     (case config of
        Some c \<Rightarrow> (Some c, Inr c)
      | None \<Rightarrow> (case config_from_env getenv of
                  Inr c \<Rightarrow> (Some c, Inr c)
                | Inl e \<Rightarrow> (None, Inl e)))"

text \<open>What \<open>show_nat\<close> prints is all digits, and reading it back gives the number.\<close>

lemma of_char_digit: "d < 10 \<Longrightarrow> (of_char (char_of (48 + d :: nat)) :: nat) = 48 + d"
  by (simp add: of_char_of)

lemma read_nat_snoc: "read_nat (ds @ [c]) = 10 * read_nat ds + digit_value c"
  by (simp add: read_nat_def)

lemma show_nat_digits: "list_all is_digit (show_nat n) \<and> show_nat n \<noteq> [] \<and> read_nat (show_nat n) = n"
proof (induction n rule: show_nat.induct)
  case (1 n)
  have digit: "is_digit (char_of (48 + d)) \<and> digit_value (char_of (48 + d)) = d" if "d < 10" for d :: nat
    using that of_char_digit [OF that] by (simp add: is_digit_def digit_value_def)
  show ?case
  proof (cases "n < 10")
    case True
    then show ?thesis
      using digit [OF True] by (subst (1 2 3) show_nat.simps) (simp add: read_nat_def)
  next
    case False
    then show ?thesis
      using "1.IH" [OF False] digit [of "n mod 10"]
      by (subst (1 2 3) show_nat.simps) (simp add: read_nat_snoc)
  qed
qed

lemma digit_not_space_or_sign:
  assumes "is_digit c"
  shows "\<not> is_space c" and "c \<noteq> CHR ''-''" and "c \<noteq> CHR ''+''"
  using assms by (auto simp: is_digit_def is_space_def)

lemma stoul_show:
  assumes "n < 2 ^ 64"
  shows "stoul (show_nat n) = Inr (of_nat n)"
proof -
  obtain c r where cr: "show_nat n = c # r" using show_nat_digits [of n] by (cases "show_nat n") auto
  have d: "list_all is_digit (c # r)" using show_nat_digits [of n] cr by simp
  then have "is_digit c" by simp
  note nc = digit_not_space_or_sign [OF this]
  have "dropWhile is_space (show_nat n) = c # r" using nc(1) cr by simp
  moreover have "split_sign (c # r) = (False, c # r)" using nc by (simp add: split_sign_def)
  moreover have "takeWhile is_digit (c # r) = c # r"
    using d by (simp add: takeWhile_eq_all_conv list_all_iff)
  moreover have "read_nat (c # r) = n" using show_nat_digits [of n] cr by simp
  ultimately show ?thesis using assms by (simp add: stoul_def)
qed


section \<open>Properties\<close>

text \<open>
  C35: for a size from 1 to 2^31 rounding returns the least power of two that is at least 2 and at
  least the size.
\<close>

theorem round_to_pow_of_2_least:
  assumes "n \<noteq> 0" and "n \<le> 2147483648"
  shows "\<exists>k m. round_to_pow_of_2 n = Inr m \<and> unat m = 2 ^ k \<and> 2 \<le> m \<and> n \<le> m
           \<and> (\<exists>j. k = Suc j \<and> (2 ^ j < unat n \<or> m = 2))"
proof -
  have "unat n \<le> 2 ^ 31" using assms(2) by (simp add: word_nat)
  with assms(1) obtain k m where r: "round_to_pow_of_2 n = Inr m" "unat m = 2 ^ k" "1 \<le> k"
    "unat n \<le> 2 ^ k" "2 ^ (k - 1) < unat n \<or> k = 1" by (rule round_exponent)
  then obtain j where j: "k = Suc j" by (cases k) simp_all
  then have "2 \<le> m" "n \<le> m" using r by (simp_all add: word_nat)
  moreover have "2 ^ j < unat n \<or> m = 2" using r j by (auto simp: word_unat_eq_iff)
  ultimately show ?thesis using r j by blast
qed

lemma round_to_pow_of_2_least_witness:
  "\<exists>k m. round_to_pow_of_2 200 = Inr m \<and> unat m = 2 ^ k \<and> 2 \<le> m \<and> 200 \<le> m
     \<and> (\<exists>j. k = Suc j \<and> (2 ^ j < unat (200 :: u64) \<or> m = 2))"
  by (rule round_to_pow_of_2_least) simp_all

text \<open>
  Rounding is undefined behaviour exactly at 0 and above 2^31, because the shifted constant is
  an \<open>unsigned int\<close>.
\<close>

theorem round_to_pow_of_2_undefined:
  "round_to_pow_of_2 n = Inl (Undefined Shift_Too_Far) \<longleftrightarrow> n = 0 \<or> 2147483648 < n"
  by (auto simp: round_to_pow_of_2_alt word_nat)

text \<open>
  Rounding leaves a power of two from 2 to 2^31 unchanged, so a rounded value rounds to itself.
\<close>

theorem round_to_pow_of_2_idempotent:
  assumes "round_to_pow_of_2 n = Inr m"
  shows "round_to_pow_of_2 m = Inr m"
proof -
  obtain k where "unat m = 2 ^ k" "1 \<le> k" "k \<le> 31" using assms by (rule round_InrE)
  then show ?thesis by (rule round_pow2)
qed

lemma round_to_pow_of_2_idempotent_witness:
  "round_to_pow_of_2 256 = Inr 256"
  by (rule round_to_pow_of_2_idempotent [of 200]) code_simp

text \<open>
  C33: every configuration the constructor accepts has increasing power-of-two limits, each at most
  its (rounded) segment size, and derived members that are the differences of the exponents.
\<close>

theorem make_heap_config_accepted:
  assumes "make_heap_config nf nrs tlim slim llim tseg sseg lseg = Inr c"
  shows "(\<exists>t s l. config_exponents c t s l)
    \<and> m_never_free c = nf \<and> m_num_reserve_segments c = nrs
    \<and> tlim \<le> m_tiny_limit c \<and> slim \<le> m_small_limit c \<and> llim \<le> m_large_limit c
    \<and> tseg \<le> m_tiny_segment_size c \<and> sseg \<le> m_small_segment_size c \<and> lseg \<le> m_large_segment_size c"
proof -
  have grow: "a \<le> b" if "round_to_pow_of_2 a = Inr b" for a b
    using that by (rule round_InrE) (simp add: word_nat)
  obtain t s l where "config_exponents c t s l"
    using assms by (rule make_heap_config_exponents)
  then show ?thesis
    using assms by (auto simp: make_heap_config_def bindE_eq_Inr split: if_splits intro: grow)
qed

lemma make_heap_config_accepted_witness:
  "\<exists>c. make_heap_config False 17 200 500 20000 1000 3000 100000 = Inr c
     \<and> (\<exists>t s l. config_exponents c t s l) \<and> m_tiny_limit c = 256"
proof -
  define c where "c = \<lparr> m_never_free = False, m_num_reserve_segments = 17, m_tiny_limit = 256,
    m_small_limit = 512, m_large_limit = 32768, m_bucket_shift = 8, m_tiny_segment_size = 1024,
    m_small_segment_size = 4096, m_large_segment_size = 131072, m_num_tiny_heaps = 32,
    m_num_small_heaps = 1, m_num_large_heaps = 6 \<rparr>"
  have "make_heap_config False 17 200 500 20000 1000 3000 100000 = Inr c"
    unfolding c_def by code_simp
  moreover note make_heap_config_accepted [OF this]
  ultimately show ?thesis by (auto simp: c_def)
qed

text \<open>
  C34: with all six sizes from 1 to 2^31 the constructor never runs into undefined behaviour: it
  accepts exactly when the rounded limits increase strictly and no limit exceeds its segment size,
  and throws \<open>std::runtime_error\<close> otherwise.
\<close>

theorem make_heap_config_validates:
  assumes "round_to_pow_of_2 tlim = Inr t" and "round_to_pow_of_2 slim = Inr s"
    and "round_to_pow_of_2 llim = Inr l"
    and "0 < tseg" "tseg \<le> 2147483648" "0 < sseg" "sseg \<le> 2147483648" "0 < lseg" "lseg \<le> 2147483648"
  shows "case make_heap_config nf nrs tlim slim llim tseg sseg lseg of
      Inr c \<Rightarrow> t < s \<and> s < l \<and> tlim \<le> tseg \<and> slim \<le> sseg \<and> llim \<le> lseg
             \<and> m_tiny_limit c = t \<and> m_small_limit c = s \<and> m_large_limit c = l
    | Inl e \<Rightarrow> (\<exists>msg. e = Runtime_Error msg)
             \<and> \<not> (t < s \<and> s < l \<and> tlim \<le> tseg \<and> slim \<le> sseg \<and> llim \<le> lseg)"
proof -
  have def_ok: "\<exists>y. round_to_pow_of_2 x = Inr y" if "0 < x" "x \<le> 2147483648" for x
    using that by (auto simp: round_to_pow_of_2_alt word_nat)
  obtain a where a: "round_to_pow_of_2 tseg = Inr a" using def_ok [OF assms(4,5)] ..
  obtain b where b: "round_to_pow_of_2 sseg = Inr b" using def_ok [OF assms(6,7)] ..
  obtain c where c: "round_to_pow_of_2 lseg = Inr c" using def_ok [OF assms(8,9)] ..
  show ?thesis
    unfolding make_heap_config_def assms(1-3) a b c bindE.simps
    by (cases "t < s \<and> s < l"; cases "tlim \<le> tseg \<and> slim \<le> sseg \<and> llim \<le> lseg")
      (simp_all only: if_True if_False simp_thms sum.case heap_config.simps fault.inject ex_simps HOL.simp_thms)
qed

lemma make_heap_config_validates_witness:
  "case make_heap_config False 16 2048 1024 2097152 65536 65536 2097152 of
      Inr c \<Rightarrow> (2048 :: u64) < 1024 \<and> (1024 :: u64) < 2097152 \<and> (2048 :: u64) \<le> 65536
             \<and> (1024 :: u64) \<le> 65536 \<and> (2097152 :: u64) \<le> 2097152
             \<and> m_tiny_limit c = 2048 \<and> m_small_limit c = 1024 \<and> m_large_limit c = 2097152
    | Inl e \<Rightarrow> (\<exists>msg. e = Runtime_Error msg)
             \<and> \<not> ((2048 :: u64) < 1024 \<and> (1024 :: u64) < 2097152 \<and> (2048 :: u64) \<le> 65536
                  \<and> (1024 :: u64) \<le> 65536 \<and> (2097152 :: u64) \<le> 2097152)"
  by (rule make_heap_config_validates) (simp_all, code_simp+)

text \<open>
  A size printed in decimal into an environment variable is read back exactly, whatever the
  default.
\<close>

theorem get_env_reads_back:
  assumes "getenv name = Some (show_nat (unat n))"
  shows "get_env parse_size getenv name d = n \<and> get_env parse_bool getenv name b = (n \<noteq> 0)"
proof -
  have "stoul (show_nat (unat n)) = Inr n"
    using stoul_show [of "unat n"] unat_less_2p [of n] by simp
  then show ?thesis using assms by (simp add: get_env_def parse_size_def parse_bool_def)
qed

lemma get_env_reads_back_witness:
  "get_env parse_size (\<lambda>_. Some ''4096'') ''HWMALLOC_SMALL_LIMIT'' 1 = 4096
     \<and> get_env parse_bool (\<lambda>_. Some ''4096'') ''HWMALLOC_SMALL_LIMIT'' False = ((4096 :: u64) \<noteq> 0)"
  by (rule get_env_reads_back) code_simp

text \<open>
  A variable with no digit after white space and sign, or with a magnitude of 2^64 and more,
  gives the default; a value of type bool is true exactly for a number other than zero.
\<close>

theorem get_env_falls_back:
  assumes "getenv name = Some v"
    and "takeWhile is_digit (snd (split_sign (dropWhile is_space v))) = ds"
    and "ds = [] \<or> 2 ^ 64 \<le> read_nat ds"
  shows "get_env parse_size getenv name d = d \<and> get_env parse_bool getenv name b = b"
  using assms
  by (auto simp: get_env_def parse_size_def parse_bool_def stoul_def Let_def split: prod.splits)

lemma get_env_falls_back_witness:
  "get_env parse_size (\<lambda>_. Some ''abcd'') ''HWMALLOC_TINY_LIMIT'' 128 = 128
     \<and> get_env parse_bool (\<lambda>_. Some ''abcd'') ''HWMALLOC_TINY_LIMIT'' False = False"
  by (rule get_env_falls_back [where v = "''abcd''" and ds = "[]"]) (simp, code_simp, simp)

text \<open>
  With no environment variable set the default configuration is the documented one, and every
  later call returns the configuration of the first successful call, whatever the environment has
  become.
\<close>

theorem default_heap_config_stable:
  "get_default_heap_config (\<lambda>_. None) None =
     (let c = \<lparr> m_never_free = False, m_num_reserve_segments = 16, m_tiny_limit = 128,
                m_small_limit = 4096, m_large_limit = 2097152, m_bucket_shift = 7,
                m_tiny_segment_size = 65536, m_small_segment_size = 65536,
                m_large_segment_size = 2097152, m_num_tiny_heaps = 16, m_num_small_heaps = 5,
                m_num_large_heaps = 9 \<rparr>
      in (Some c, Inr c))
   \<and> get_default_heap_config getenv' (Some c') = (Some c', Inr c')"
proof -
  have "config_from_env (\<lambda>_. None) = Inr \<lparr> m_never_free = False, m_num_reserve_segments = 16,
      m_tiny_limit = 128, m_small_limit = 4096, m_large_limit = 2097152, m_bucket_shift = 7,
      m_tiny_segment_size = 65536, m_small_segment_size = 65536, m_large_segment_size = 2097152,
      m_num_tiny_heaps = 16, m_num_small_heaps = 5, m_num_large_heaps = 9 \<rparr>"
    unfolding config_from_env_def get_env_def option.case config_defaults by code_simp
  then show ?thesis by (simp add: get_default_heap_config_def Let_def)
qed

end
