(* ===== verification/Pool.thy ===== *)
theory Pool
  imports Segment Heap_Config
begin

text \<open>
  The pools of \<open>include/hwmalloc/detail/pool.hpp\<close>: all segments of one block size on one NUMA node
  (and device), the stack of free blocks, and the mutex. An operation runs to its end before the
  next one starts; it results in the new state and either a value or a fault, and in \<open>None\<close> when a
  loop of it does not end.
\<close>

section \<open>State\<close>

text \<open>
  \<open>m_segments\<close> owns the segments, by identity and in the order of iteration. \<open>p_mutex\<close> says that
  the mutex is held: a second \<open>lock\<close> never returns.
\<close>

record 's pool =
  p_self :: nat
  p_block_size :: u64
  p_segment_size :: u64
  p_numa_node :: u64
  p_never_free :: bool
  p_num_reserve_segments :: u64
  p_free_stack :: 's
  p_segments :: "(nat \<times> 's segment) list"
  p_mutex :: bool
  p_device_id :: int
  p_allocate_on_device :: bool

type_synonym ('s, 'a) result = "('s pool \<times> world \<times> (fault + 'a)) option"

definition num_pages :: "numa_env \<Rightarrow> u64 \<Rightarrow> u64" where
  "num_pages e segment_size = (segment_size + page_size e - 1) div page_size e"

text \<open>An allocation on another node than asked for is given back.\<close>

definition no_memory_error :: fault where
  "no_memory_error = Runtime_Error ''could not allocate system memory''"

definition numa_node_error :: "u64 \<Rightarrow> fault" where
  "numa_node_error expected_numa_node = Runtime_Error
     (''could not allocate on requested numa node '' @ show_nat (unat expected_numa_node))"

definition check_allocation :: "numa_env \<Rightarrow> world \<Rightarrow> allocation \<Rightarrow> u64 \<Rightarrow> world \<times> (fault + allocation)" where
  "check_allocation e w a expected_numa_node =
     (if \<not> a_valid a then (w, Inl no_memory_error)
      else if a_node a \<noteq> expected_numa_node
      then (numa_free e w a, Inl (numa_node_error expected_numa_node))
      else (w, Inr a))"

text \<open>The constructors; \<open>segment_size / block_size\<close> is the initial capacity of the free stack.\<close>

definition make_pool ::
  "('h, 's) env \<Rightarrow> nat \<Rightarrow> u64 \<Rightarrow> u64 \<Rightarrow> u64 \<Rightarrow> bool \<Rightarrow> u64 \<Rightarrow> fault + 's pool" where
  "make_pool e self block_size segment_size numa_node never_free num_reserve_segments =
     (if block_size = 0 then Inl (Undefined Division_By_Zero)
      else Inr \<lparr>p_self = self, p_block_size = block_size, p_segment_size = segment_size,
                p_numa_node = numa_node, p_never_free = never_free,
                p_num_reserve_segments = max num_reserve_segments 1,
                p_free_stack = sk_make (ev_stack e) False (unat (segment_size div block_size)),
                p_segments = [], p_mutex = False, p_device_id = 0, p_allocate_on_device = False\<rparr>)"

definition make_device_pool ::
  "('h, 's) env \<Rightarrow> nat \<Rightarrow> u64 \<Rightarrow> u64 \<Rightarrow> u64 \<Rightarrow> int \<Rightarrow> bool \<Rightarrow> u64 \<Rightarrow> fault + 's pool" where
  "make_device_pool e self block_size segment_size numa_node device_id never_free num_reserve_segments =
     bindE (make_pool e self block_size segment_size numa_node never_free num_reserve_segments)
       (\<lambda>p. Inr (p\<lparr>p_device_id := device_id, p_allocate_on_device := True\<rparr>))"

definition allocates_on_device :: "('h, 's) env \<Rightarrow> 's pool \<Rightarrow> bool" where
  "allocates_on_device e p \<longleftrightarrow> ev_enable_device e \<and> p_allocate_on_device p"

section \<open>Adding a segment\<close>

definition insert_segment :: "('h, 's) env \<Rightarrow> 's pool \<Rightarrow> world \<Rightarrow> nat \<Rightarrow> 's segment \<Rightarrow> 's \<Rightarrow> 's pool" where
  "insert_segment e p w this seg free_stack =
     p\<lparr>p_free_stack := free_stack, p_segments := ev_map_order e w ((this, seg) # p_segments p)\<rparr>"

text \<open>
  The host branch. A registration that throws leaves the allocation behind: nothing owns it yet.
\<close>

definition add_host_segment :: "('h, 's) env \<Rightarrow> 's pool \<Rightarrow> world \<Rightarrow> allocation \<Rightarrow> ('s, unit) result" where
  "add_host_segment e p w a =
     (case register_memory (ev_context e) w (a_ptr a) (a_size a) of
        (w1, Inl f) \<Rightarrow> Some (p, w1, Inl f)
      | (w1, Inr r) \<Rightarrow>
          let this = length w1; w2 = New_Object this # w1
          in case make_segment e this (p_self p) r a (p_block_size p) (p_free_stack p) of
               None \<Rightarrow> None
             | Some (Inl f) \<Rightarrow> Some (p, w2, Inl f)
             | Some (Inr (seg, fs)) \<Rightarrow> Some (insert_segment e p w2 this seg fs, w2, Inr ()))"

text \<open>
  The two registrations of a device segment are arguments of one call. If the second throws, the
  region the first returned is destroyed.
\<close>

definition register_both ::
  "('h, 's) env \<Rightarrow> world \<Rightarrow> allocation \<Rightarrow> int \<Rightarrow> u64 \<Rightarrow> world \<times> (fault + region \<times> region)" where
  "register_both e w a device_id device_ptr =
     (let host = (\<lambda>w. register_memory (ev_context e) w (a_ptr a) (a_size a));
          device = (\<lambda>w. register_device_memory (ev_context e) (device_kind (ev_device e) = Gpu_Memory)
                         w device_id device_ptr (a_size a))
      in if ev_host_first e then
           case host w of
             (w1, Inl f) \<Rightarrow> (w1, Inl f)
           | (w1, Inr r) \<Rightarrow>
               (case device w1 of
                  (w2, Inl f) \<Rightarrow> (Deregister r # w2, Inl f)
                | (w2, Inr dr) \<Rightarrow> (w2, Inr (r, dr)))
         else
           case device w of
             (w1, Inl f) \<Rightarrow> (w1, Inl f)
           | (w1, Inr dr) \<Rightarrow>
               (case host w1 of
                  (w2, Inl f) \<Rightarrow> (Deregister dr # w2, Inl f)
                | (w2, Inr r) \<Rightarrow> (w2, Inr (r, dr))))"

text \<open>
  The device branch, with the pool's device selected in between. An exception on the way skips what
  is left: the device stays selected, and the memory obtained so far is not given back.
\<close>

definition add_device_segment :: "('h, 's) env \<Rightarrow> 's pool \<Rightarrow> world \<Rightarrow> allocation \<Rightarrow> ('s, unit) result" where
  "add_device_segment e p w a =
     (case get_device_id (ev_device e) w of
        Inl f \<Rightarrow> Some (p, w, Inl f)
      | Inr tmp \<Rightarrow>
     (case set_device_id (ev_device e) w (p_device_id p) of
        (w1, Inl f) \<Rightarrow> Some (p, w1, Inl f)
      | (w1, Inr _) \<Rightarrow>
     (case device_malloc (ev_device e) w1 (a_size a) of
        (w2, Inl f) \<Rightarrow> Some (p, w2, Inl f)
      | (w2, Inr device_ptr) \<Rightarrow>
     (case register_both e w2 a (p_device_id p) device_ptr of
        (w3, Inl f) \<Rightarrow> Some (p, w3, Inl f)
      | (w3, Inr (r, dr)) \<Rightarrow>
          let this = length w3; w4 = New_Object this # w3
          in case make_device_segment e this (p_self p) r a dr device_ptr (p_device_id p)
                    (p_block_size p) (p_free_stack p) of
               None \<Rightarrow> None
             | Some (Inl f) \<Rightarrow> Some (p, w4, Inl f)
             | Some (Inr (seg, fs)) \<Rightarrow>
                 (case set_device_id (ev_device e) w4 tmp of
                    (w5, res) \<Rightarrow> Some (insert_segment e p w4 this seg fs, w5, res))))))"

definition add_segment :: "('h, 's) env \<Rightarrow> 's pool \<Rightarrow> world \<Rightarrow> ('s, unit) result" where
  "add_segment e p w =
     (case numa_allocate (ev_numa e) w (num_pages (ev_numa e) (p_segment_size p)) (p_numa_node p) of
        (w1, Inl f) \<Rightarrow> Some (p, w1, Inl f)
      | (w1, Inr a0) \<Rightarrow>
     (case check_allocation (ev_numa e) w1 a0 (p_numa_node p) of
        (w2, Inl f) \<Rightarrow> Some (p, w2, Inl f)
      | (w2, Inr a) \<Rightarrow>
          if allocates_on_device e p then add_device_segment e p w2 a
          else add_host_segment e p w2 a))"

section \<open>Allocation\<close>

text \<open>The blocks freed so far go back to the free stack, segment by segment.\<close>

fun collect_each ::
  "('h, 's) env \<Rightarrow> (nat \<times> 's segment) list \<Rightarrow> 's \<Rightarrow> ((nat \<times> 's segment) list \<times> 's) option" where
  "collect_each e [] fs = Some ([], fs)"
| "collect_each e ((this, seg) # segs) fs =
     (case collect e seg fs of
        None \<Rightarrow> None
      | Some (seg', fs', _) \<Rightarrow>
          (case collect_each e segs fs' of
             None \<Rightarrow> None
           | Some (segs', fs'') \<Rightarrow> Some ((this, seg') # segs', fs'')))"

text \<open>Every second failed attempt to pop adds a segment; \<open>counter\<close> is an \<open>unsigned int\<close>.\<close>

partial_function (option) alloc_loop ::
  "('h, 's) env \<Rightarrow> u32 \<Rightarrow> 's pool \<Rightarrow> world \<Rightarrow> ('s, 'h block) result" where
  "alloc_loop e counter p w =
     (case sk_pop (ev_stack e) (p_free_stack p) of
        Some (b, fs) \<Rightarrow> Some (p\<lparr>p_free_stack := fs\<rparr>, w, Inr b)
      | None \<Rightarrow>
          if counter mod 2 = 0 then
            (case add_segment e p w of
               None \<Rightarrow> None
             | Some (p', w', Inl f) \<Rightarrow> Some (p', w', Inl f)
             | Some (p', w', Inr _) \<Rightarrow> alloc_loop e (counter + 1) p' w')
          else alloc_loop e (counter + 1) p w)"

declare alloc_loop.simps [code]

text \<open>
  \<open>allocate\<close> locks and unlocks by hand: an exception out of \<open>add_segment\<close> leaves the mutex locked.
\<close>

definition pool_allocate :: "('h, 's) env \<Rightarrow> 's pool \<Rightarrow> world \<Rightarrow> ('s, 'h block) result" where
  "pool_allocate e p w =
     (case sk_pop (ev_stack e) (p_free_stack p) of
        Some (b, fs) \<Rightarrow> Some (p\<lparr>p_free_stack := fs\<rparr>, w, Inr b)
      | None \<Rightarrow>
     if p_mutex p then Some (p, w, Inl Deadlock)
     else
     (case sk_pop (ev_stack e) (p_free_stack p) of
        Some (b, fs) \<Rightarrow> Some (p\<lparr>p_free_stack := fs\<rparr>, w, Inr b)
      | None \<Rightarrow>
     (case collect_each e (p_segments p) (p_free_stack p) of
        None \<Rightarrow> None
      | Some (segs, fs1) \<Rightarrow>
     (case sk_pop (ev_stack e) fs1 of
        Some (b, fs2) \<Rightarrow> Some (p\<lparr>p_segments := segs, p_free_stack := fs2\<rparr>, w, Inr b)
      | None \<Rightarrow>
     (case alloc_loop e 0 (p\<lparr>p_segments := segs, p_free_stack := fs1, p_mutex := True\<rparr>) w of
        None \<Rightarrow> None
      | Some (p', w', Inl f) \<Rightarrow> Some (p', w', Inl f)
      | Some (p', w', Inr b) \<Rightarrow> Some (p'\<lparr>p_mutex := False\<rparr>, w', Inr b))))))"

section \<open>Freeing\<close>

text \<open>\<open>m_segments.erase\<close>: the segment is destroyed with its entry.\<close>

definition erase_segment :: "('h, 's) env \<Rightarrow> 's pool \<Rightarrow> world \<Rightarrow> nat \<Rightarrow> 's pool \<times> world" where
  "erase_segment e p w this =
     (p\<lparr>p_segments := filter (\<lambda>s. fst s \<noteq> this) (p_segments p)\<rparr>,
      case map_of (p_segments p) this of None \<Rightarrow> w | Some seg \<Rightarrow> destroy_segment e w seg)"

definition release_segment :: "('h, 's) env \<Rightarrow> 's pool \<Rightarrow> world \<Rightarrow> nat \<Rightarrow> 's pool \<times> world \<times> (fault + unit)" where
  "release_segment e p w this =
     (if allocates_on_device e p then
        (case get_device_id (ev_device e) w of
           Inl f \<Rightarrow> (p, w, Inl f)
         | Inr tmp \<Rightarrow>
        (case set_device_id (ev_device e) w (p_device_id p) of
           (w1, Inl f) \<Rightarrow> (p, w1, Inl f)
         | (w1, Inr _) \<Rightarrow>
        (case erase_segment e p w1 this of
           (p', w2) \<Rightarrow> (case set_device_id (ev_device e) w2 tmp of (w3, res) \<Rightarrow> (p', w3, res)))))
      else (case erase_segment e p w this of (p', w1) \<Rightarrow> (p', w1, Inr ())))"

definition update_segment :: "nat \<Rightarrow> 's segment \<Rightarrow> (nat \<times> 's segment) list \<Rightarrow> (nat \<times> 's segment) list" where
  "update_segment this seg = map (\<lambda>s. if fst s = this then (this, seg) else s)"

text \<open>
  The block's segment is found through the block: a block without one, or one whose segment the pool
  has destroyed already, is not to be freed. An empty segment goes when the pool holds more segments
  than it keeps in reserve.
\<close>

definition pool_free :: "('h, 's) env \<Rightarrow> 's pool \<Rightarrow> world \<Rightarrow> 'h block \<Rightarrow> ('s, unit) result" where
  "pool_free e p w b =
     (case m_segment b of
        None \<Rightarrow> Some (p, w, Inl (Undefined Null_Deref))
      | Some this \<Rightarrow>
     (case map_of (p_segments p) this of
        None \<Rightarrow> Some (p, w, Inl (Undefined Dangling_Deref))
      | Some seg \<Rightarrow>
     (case segment_free e seg b of
        None \<Rightarrow> None
      | Some seg' \<Rightarrow>
          let p' = p\<lparr>p_segments := update_segment this seg' (p_segments p)\<rparr>
          in if \<not> p_never_free p' \<and> is_empty seg' then
               if p_mutex p' then Some (p', w, Inl Deadlock)
               else if is_empty seg' \<and> unat (p_num_reserve_segments p') < length (p_segments p')
               then Some (release_segment e p' w this)
               else Some (p', w, Inr ())
             else Some (p', w, Inr ()))))"

section \<open>Destruction\<close>

text \<open>
  A pool that goes out of scope destroys what its map owns, segment by segment, whether or not
  blocks of them are still held.
\<close>

definition destroy_pool :: "('h, 's) env \<Rightarrow> world \<Rightarrow> 's pool \<Rightarrow> world" where
  "destroy_pool e w p = fold (\<lambda>s w. destroy_segment e w (snd s)) (p_segments p) w"

end
