(* ===== verification/Memory.thy ===== *)
theory Memory
  imports Environment
begin

text \<open>
  The memory side of the pools, independent of their blocks: a multiset of backings, each a piece of
  live memory with the region registered for it, and one lemma for each kind of event that says how
  the event moves the multiset.
\<close>

type_synonym backing = "memory_kind \<times> u64 \<times> nat \<times> region"

definition backing_region :: "backing \<Rightarrow> region" where
  "backing_region = (\<lambda>(k, p, n, r). r)"

lemma backing_region_simp [simp]: "backing_region (k, p, n, r) = r"
  by (simp add: backing_region_def)

definition unique_regions :: "backing multiset \<Rightarrow> bool" where
  "unique_regions B \<longleftrightarrow> (\<forall>r. count (image_mset backing_region B) r \<le> 1)"

lemma unique_regions_empty [simp]: "unique_regions {#}"
  by (simp add: unique_regions_def)

lemma unique_regions_add [simp]:
  "unique_regions (add_mset b B) \<longleftrightarrow>
     backing_region b \<notin># image_mset backing_region B \<and> unique_regions B"
proof -
  have "count (add_mset x M) r \<le> 1 \<longleftrightarrow> count M r \<le> 1 \<and> (r = x \<longrightarrow> x \<notin># M)" for x r :: region and M
    by (cases "r = x") (auto simp: not_in_iff)
  then show ?thesis by (simp add: unique_regions_def) blast
qed

definition regions_ok :: "world \<Rightarrow> bool" where
  "regions_ok w \<longleftrightarrow> distinct (map rg_id (regs w)) \<and>
     (\<forall>r. r \<in> set (regs w) \<longrightarrow> rg_id r < length w) \<and>
     (\<forall>r. r \<in> set (regs w) \<longrightarrow> (\<exists>k p n. (k, p, n) \<in> set (live w) \<and> region_inside r k p n))"

definition mem_inv :: "backing multiset \<Rightarrow> world \<Rightarrow> bool" where
  "mem_inv B w \<longleftrightarrow> live_ok w \<and> trace_ok w \<and> regions_ok w \<and>
     (\<forall>k p n r. (k, p, n, r) \<in># B \<longrightarrow> (k, p, n) \<in> set (live w) \<and> r \<in> set (regs w)
        \<and> region_inside r k p n) \<and>
     (\<forall>k p n r r'. (k, p, n, r) \<in># B \<longrightarrow> r' \<in> set (regs w) \<longrightarrow> region_inside r' k p n \<longrightarrow> r' = r) \<and>
     unique_regions B"

lemma mem_inv_liveD: "mem_inv B w \<Longrightarrow> (k, p, n, r) \<in># B \<Longrightarrow> (k, p, n) \<in> set (live w)"
  unfolding mem_inv_def by blast

lemma mem_inv_regsD: "mem_inv B w \<Longrightarrow> (k, p, n, r) \<in># B \<Longrightarrow> r \<in> set (regs w)"
  unfolding mem_inv_def by blast

lemma mem_inv_insideD: "mem_inv B w \<Longrightarrow> (k, p, n, r) \<in># B \<Longrightarrow> region_inside r k p n"
  unfolding mem_inv_def by blast

lemma mem_inv_onlyD:
  "mem_inv B w \<Longrightarrow> (k, p, n, r) \<in># B \<Longrightarrow> r' \<in> set (regs w) \<Longrightarrow> region_inside r' k p n \<Longrightarrow> r' = r"
  unfolding mem_inv_def by blast

lemma mem_inv_live_ok: "mem_inv B w \<Longrightarrow> live_ok w"
  unfolding mem_inv_def by blast

lemma mem_inv_trace_ok: "mem_inv B w \<Longrightarrow> trace_ok w"
  unfolding mem_inv_def by blast

lemma mem_inv_empty [simp]: "mem_inv {#} []"
  by (simp add: mem_inv_def regions_ok_def)

text \<open>Events that touch neither live memory nor registrations.\<close>

lemma mem_inv_cong:
  assumes "mem_inv B w" and "live w' = live w" and "regs w' = regs w"
    and "trace_ok w' \<longleftrightarrow> trace_ok w" and "length w \<le> length w'"
  shows "mem_inv B w'"
proof -
  have "regions_ok w'"
    using assms(1) less_le_trans [OF _ assms(5)] unfolding mem_inv_def regions_ok_def assms(2,3) by blast
  then show ?thesis
    using assms(1) live_ok_same [OF assms(2)] unfolding mem_inv_def assms(2-4) by blast
qed

text \<open>Two backings in overlapping live memory are the same memory.\<close>

lemma region_inside_same:
  assumes "live_ok w" and "(k, p, n) \<in> set (live w)" and "(l, q, m) \<in> set (live w)"
    and "region_inside r k p n" and "region_inside r l q m"
  shows "(k, p, n) = (l, q, m)"
proof (rule ccontr)
  assume ne: "(k, p, n) \<noteq> (l, q, m)"
  have "same_space k l" using assms(4,5) by (simp add: region_inside_def same_space_def)
  then have "apart p n q m" by (rule live_okD(2) [OF assms(1-3) _ ne])
  then show False using assms(4,5) unfolding region_inside_def apart_def by linarith
qed

lemma fresh_no_region:
  assumes "mem_inv B w" and "fresh w k p n" and "r \<in> set (regs w)"
  shows "\<not> region_inside r k p n"
proof
  assume i: "region_inside r k p n"
  obtain l q m where b: "(l, q, m) \<in> set (live w)" "region_inside r l q m"
    using assms(1,3) unfolding mem_inv_def regions_ok_def by blast
  have "same_space k l" using i b(2) by (simp add: region_inside_def same_space_def)
  then have "apart p n q m" by (rule freshD(2) [OF assms(2) b(1)])
  then show False using i b(2) unfolding region_inside_def apart_def by linarith
qed

text \<open>Allocation.\<close>

lemma mem_inv_Alloc:
  assumes "mem_inv B w" and "fresh w k p n" and "live w' = (k, p, n) # live w" and "regs w' = regs w"
    and "trace_ok w' \<longleftrightarrow> trace_ok w" and "length w \<le> length w'"
  shows "mem_inv B w'"
proof -
  have "live_ok (Alloc k p n # w)"
    using assms(1,2) by (blast intro: live_ok_Alloc mem_inv_live_ok)
  then have "live_ok w'" using assms(3) live_ok_same [of w' "Alloc k p n # w"] by simp
  moreover have "regions_ok w'"
    using assms(1) less_le_trans [OF _ assms(6)]
    unfolding mem_inv_def regions_ok_def assms(3,4) list.set insert_iff by blast
  ultimately show ?thesis
    using assms(1) unfolding mem_inv_def assms(3-5) list.set insert_iff by blast
qed

text \<open>Registration of live memory in which nothing is registered yet.\<close>

lemma mem_inv_Register:
  assumes inv: "mem_inv B w" and l: "(k, p, n) \<in> set (live w)"
    and none: "\<And>r'. r' \<in> set (regs w) \<Longrightarrow> \<not> region_inside r' k p n"
    and ins: "region_inside r k p n" and new: "rg_id r = length w"
  shows "mem_inv (add_mset (k, p, n, r) B) (Register r # w)"
proof -
  note ok = mem_inv_live_ok [OF inv]
  have nr: "r \<notin> set (regs w)" using none ins by blast
  have only: "r' = s" if B: "(l, q, m, s) \<in># B" and r': "r' \<in> set (regs (Register r # w))"
    and i: "region_inside r' l q m" for l q m s r'
  proof (cases "r' = r")
    case True
    then have "(k, p, n) = (l, q, m)"
      using region_inside_same [OF ok _ mem_inv_liveD [OF inv B] ins] l i by simp
    then have False using none [OF mem_inv_regsD [OF inv B]] mem_inv_insideD [OF inv B] by simp
    then show ?thesis ..
  next
    case False
    then show ?thesis using mem_inv_onlyD [OF inv B _ i] r' by simp
  qed
  have "r \<notin># image_mset backing_region B" using nr mem_inv_regsD [OF inv] by auto
  then have uniq: "unique_regions (add_mset (k, p, n, r) B)"
    using inv unfolding mem_inv_def by simp
  have "regions_ok w" using inv unfolding mem_inv_def by blast
  then have "regions_ok (Register r # w)"
    using l ins new nr unfolding regions_ok_def by (auto simp: less_Suc_eq)
  moreover have "live_ok (Register r # w)" "trace_ok (Register r # w)"
    using ok mem_inv_trace_ok [OF inv] by simp_all
  moreover have "\<forall>k' p' n' s. (k', p', n', s) \<in># add_mset (k, p, n, r) B \<longrightarrow>
      (k', p', n') \<in> set (live (Register r # w)) \<and> s \<in> set (regs (Register r # w)) \<and> region_inside s k' p' n'"
    using l ins inv unfolding mem_inv_def by auto
  moreover have "\<forall>k' p' n' s r'. (k', p', n', s) \<in># add_mset (k, p, n, r) B \<longrightarrow>
      r' \<in> set (regs (Register r # w)) \<longrightarrow> region_inside r' k' p' n' \<longrightarrow> r' = s"
    using only none by auto
  ultimately show ?thesis using uniq unfolding mem_inv_def by blast
qed

text \<open>Deregistration takes the backing out and leaves its memory free of regions.\<close>

lemma mem_inv_Deregister:
  assumes inv: "mem_inv (add_mset (k, p, n, r) B) w"
  shows "mem_inv B (Deregister r # w)" and "(k, p, n) \<in> set (live (Deregister r # w))"
    and "\<And>r'. r' \<in> set (regs (Deregister r # w)) \<Longrightarrow> \<not> region_inside r' k p n"
proof -
  have d: "distinct (map rg_id (regs w))" using inv unfolding mem_inv_def regions_ok_def by blast
  then have dr: "distinct (regs w)" by (simp add: distinct_map)
  then have rs: "set (regs (Deregister r # w)) = set (regs w) - {r}" by (simp add: set_remove1_eq)
  have r: "(k, p, n, r) \<in># add_mset (k, p, n, r) B" by simp
  have ne: "s \<noteq> r" if "(l, q, m, s) \<in># B" for l q m s
  proof
    assume "s = r"
    then have "r \<in># image_mset backing_region B" using that by force
    moreover have "unique_regions (add_mset (k, p, n, r) B)" using inv unfolding mem_inv_def by blast
    ultimately show False by simp
  qed
  have sub: "(l, q, m, s) \<in># add_mset (k, p, n, r) B" if "(l, q, m, s) \<in># B" for l q m s
    using that by simp
  have "distinct (map rg_id (remove1 r (regs w)))"
    using d by (metis distinct_remove1 distinct_map inj_on_diff set_remove1_eq dr)
  moreover have "regions_ok w" using inv unfolding mem_inv_def by blast
  ultimately have "regions_ok (Deregister r # w)"
    using rs unfolding regions_ok_def by (simp add: less_Suc_eq)
  moreover have "live_ok (Deregister r # w)" "trace_ok (Deregister r # w)"
    using mem_inv_live_ok [OF inv] mem_inv_trace_ok [OF inv] mem_inv_regsD [OF inv r] by simp_all
  moreover have "unique_regions (add_mset (k, p, n, r) B)" using inv unfolding mem_inv_def by blast
  then have "unique_regions B" by simp
  moreover have "(l, q, m) \<in> set (live (Deregister r # w)) \<and> s \<in> set (regs (Deregister r # w))
      \<and> region_inside s l q m" if "(l, q, m, s) \<in># B" for l q m s
    using mem_inv_liveD [OF inv sub [OF that]] mem_inv_regsD [OF inv sub [OF that]]
      mem_inv_insideD [OF inv sub [OF that]] ne [OF that] rs by simp
  moreover have "r' = s" if "(l, q, m, s) \<in># B" "r' \<in> set (regs (Deregister r # w))"
    "region_inside r' l q m" for l q m s r'
    using mem_inv_onlyD [OF inv sub [OF that(1)] _ that(3)] that(2) rs by simp
  ultimately show "mem_inv B (Deregister r # w)" unfolding mem_inv_def by blast
  show "(k, p, n) \<in> set (live (Deregister r # w))" using mem_inv_liveD [OF inv r] by simp
  show "\<not> region_inside r' k p n" if "r' \<in> set (regs (Deregister r # w))" for r'
    using mem_inv_onlyD [OF inv r] that rs by auto
qed

text \<open>Release of memory in which nothing is registered.\<close>

lemma mem_inv_Dealloc:
  assumes inv: "mem_inv B w" and l: "(k, p, n) \<in> set (live w)"
    and none: "\<And>r'. r' \<in> set (regs w) \<Longrightarrow> \<not> region_inside r' k p n"
  shows "mem_inv B (Dealloc k p # w)"
proof -
  note ok = mem_inv_live_ok [OF inv]
  have n: "m = n" if "(k, p, m) \<in> set (live w)" for m
    using live_okD(1) [OF ok that l] by auto
  have keep: "(l, q, m) \<in> set (live (Dealloc k p # w))"
    if "(l, q, m) \<in> set (live w)" "region_inside r l q m" "r \<in> set (regs w)" for l q m r
    using that none [OF that(3)] n by auto
  have "regions_ok (Dealloc k p # w)"
    using inv keep unfolding mem_inv_def regions_ok_def by (simp add: less_Suc_eq) metis
  moreover have "trace_ok (Dealloc k p # w)"
    using mem_inv_trace_ok [OF inv] ok l none by (rule trace_ok_Dealloc)
  moreover have "live_ok (Dealloc k p # w)" using ok by (rule live_ok_Dealloc)
  ultimately show ?thesis
    using inv keep unfolding mem_inv_def by (simp only: regs.simps) blast
qed

text \<open>The memory of two backings does not overlap.\<close>

lemma mem_inv_apart:
  assumes inv: "mem_inv B w" and two: "{#(k, p, n, r), (l, q, m, s)#} \<subseteq># B" and "same_space k l"
  shows "apart p n q m"
proof -
  have in1: "(k, p, n, r) \<in># B" and in2: "(l, q, m, s) \<in># B"
    using mset_subset_eqD [OF two] by simp_all
  have "(k, p, n) \<noteq> (l, q, m)"
  proof
    assume eq: "(k, p, n) = (l, q, m)"
    then have "s = r"
      using mem_inv_onlyD [OF inv in1 mem_inv_regsD [OF inv in2]] mem_inv_insideD [OF inv in2] by simp
    then have "{#r, r#} \<subseteq># image_mset backing_region B"
      using image_mset_subseteq_mono [OF two, of backing_region] by simp
    from mset_subset_eq_count [OF this, of r] have "2 \<le> count (image_mset backing_region B) r" by simp
    moreover have "count (image_mset backing_region B) r \<le> 1"
      using inv by (simp add: mem_inv_def unique_regions_def)
    ultimately show False by linarith
  qed
  then show ?thesis
    using live_okD(2) [OF mem_inv_live_ok [OF inv] mem_inv_liveD [OF inv in1] mem_inv_liveD [OF inv in2]]
      assms(3) by blast
qed

end
