(* ===== verification/Pool_Invariant.thy ===== *)
theory Pool_Invariant
  imports Pool Memory
begin

text \<open>
  What every operation of a pool keeps. First the steps on memory: releasing, registering and
  deregistering. Then the invariant, which says where each block of each segment is and that the
  memory behind the segments is live and registered. Then one lemma for each operation.
\<close>

section \<open>What the steps on memory do\<close>

text \<open>Steps that add events without effect on memory.\<close>

definition quiet :: "world \<Rightarrow> world \<Rightarrow> bool" where
  "quiet w' w \<longleftrightarrow> live w' = live w \<and> regs w' = regs w \<and> (trace_ok w' \<longleftrightarrow> trace_ok w)
     \<and> length w \<le> length w'"

lemma quiet_refl [simp]: "quiet w w"
  by (simp add: quiet_def)

lemma quiet_simps [simp]:
  "quiet (New_Object i # w) w" "quiet (Set_Device d # w) w" "quiet (Alloc_Failed k n # w) w"
  "quiet (Register_Failed # w) w" "quiet (Call_Failed s # w) w"
  by (simp_all add: quiet_def)

lemma mem_inv_quiet: "mem_inv B w \<Longrightarrow> quiet w' w \<Longrightarrow> mem_inv B w'"
  unfolding quiet_def by (rule mem_inv_cong) blast+

lemma quiet_length: "quiet w' w \<Longrightarrow> length w \<le> length w'"
  by (simp add: quiet_def)

lemma set_device_id_quiet: "set_device_id d w i = (w', r) \<Longrightarrow> quiet w' w"
  by (auto simp: set_device_id_def none_set_device_id_def emulate_set_device_id_def quiet_def
      cuda_set_device_id_def hip_set_device_id_def check_cuda_result_def check_hip_result_def check_result_def set_device_call_def Let_def
      split: device_runtime.splits if_splits)

text \<open>Live memory nothing is registered in.\<close>

definition bare :: "world \<Rightarrow> memory_kind \<Rightarrow> u64 \<Rightarrow> nat \<Rightarrow> bool" where
  "bare w k p n \<longleftrightarrow> (k, p, n) \<in> set (live w) \<and> list_all (\<lambda>r. \<not> region_inside r k p n) (regs w)"

lemma bare_quiet: "bare w k p n \<Longrightarrow> quiet w' w \<Longrightarrow> bare w' k p n"
  by (simp add: bare_def quiet_def)

lemma mem_inv_free_bare: "mem_inv B w \<Longrightarrow> bare w k p n \<Longrightarrow> mem_inv B (Dealloc k p # w)"
  by (rule mem_inv_Dealloc) (auto simp: bare_def list_all_iff)

lemma mem_inv_Register_bare:
  "mem_inv B w \<Longrightarrow> bare w k p n \<Longrightarrow> region_inside r k p n \<Longrightarrow> rg_id r = length w
     \<Longrightarrow> mem_inv (add_mset (k, p, n, r) B) (Register r # w)"
  by (rule mem_inv_Register) (auto simp: bare_def list_all_iff)

lemma bare_Register:
  assumes "live_ok w" and "bare w k p n" and "bare w l q m" and "(k, p, n) \<noteq> (l, q, m)"
    and "region_inside r k p n"
  shows "bare (Register r # w) l q m"
  using assms region_inside_same [OF assms(1), of k p n l q m r] by (auto simp: bare_def)

lemma bare_Deregister:
  assumes "mem_inv (add_mset (k, p, n, r) B) w"
  shows "mem_inv B (Deregister r # w)" and "bare (Deregister r # w) k p n"
  using mem_inv_Deregister [OF assms] by (auto simp: bare_def list_all_iff)

lemma mem_inv_fresh:
  assumes "mem_inv B w" and "fresh w k p n" and "live w' = (k, p, n) # live w" and "regs w' = regs w"
    and "trace_ok w' \<longleftrightarrow> trace_ok w" and "length w \<le> length w'"
  shows "mem_inv B w'" and "bare w' k p n"
    and "\<And>l q m. bare w l q m \<Longrightarrow> bare w' l q m \<and> (l, q, m) \<noteq> (k, p, n)"
proof -
  show "mem_inv B w'" by (rule mem_inv_Alloc [OF assms])
  show "bare w' k p n"
    using assms(3,4) fresh_no_region [OF assms(1,2)] by (auto simp: bare_def list_all_iff)
  show "bare w' l q m \<and> (l, q, m) \<noteq> (k, p, n)" if "bare w l q m" for l q m
    using that assms(3,4) freshD(1) [OF assms(2), of l q m] by (auto simp: bare_def)
qed

lemma mem_inv_stray:
  assumes "mem_inv B w" and "stray w' w k n"
  shows "mem_inv B w'" and "length w \<le> length w'"
proof -
  show "mem_inv B w'"
    using assms mem_inv_cong [OF assms(1), of w'] mem_inv_Alloc [OF assms(1), of k _ n w'] unfolding stray_def by blast
  show "length w \<le> length w'" using assms(2) by (simp add: stray_def)
qed

lemma add_region_cases:
  assumes "add_region w d g p s failure = (w', res)"
  obtains f where "res = Inl f" and "w' = Register_Failed # w"
  | r where "res = Inr r" and "w' = Register r # w" and "rg_id r = length w" and "rg_gpu r = g"
      and "rg_ptr r = p" and "rg_size r = s"
  using assms by (cases failure) (auto simp: add_region_def Let_def)

text \<open>Registering bare memory.\<close>

lemma register_memory_cases:
  assumes "mem_inv B w" and "bare w k p n" and "k \<noteq> Gpu_Memory" and "0 < n"
    and "register_memory cx w p s = (w', res)"
  obtains f where "res = Inl f" and "quiet w' w"
  | r where "res = Inr r" and "w' = Register r # w" and "region_inside r k p n"
      and "mem_inv (add_mset (k, p, n, r) B) w'" and "rg_ptr r = p" and "rg_size r = s"
  using assms(5) unfolding register_memory_def
proof (cases rule: add_region_cases)
  case (1 f)
  then show ?thesis using that(1) by simp
next
  case (2 r)
  have "region_inside r k p n" using 2 assms(3,4) by (simp add: region_inside_def)
  then show ?thesis using that(2) 2 mem_inv_Register_bare [OF assms(1,2)] by blast
qed

lemma register_device_memory_cases:
  assumes "mem_inv B w" and "bare w k p n" and "0 < n"
    and "register_device_memory cx (k = Gpu_Memory) w d p s = (w', res)"
  obtains f where "res = Inl f" and "quiet w' w"
  | r where "res = Inr r" and "w' = Register r # w" and "region_inside r k p n"
      and "mem_inv (add_mset (k, p, n, r) B) w'" and "rg_ptr r = p" and "rg_size r = s"
  using assms(4) unfolding register_device_memory_def
proof (cases rule: add_region_cases)
  case (1 f)
  then show ?thesis using that(1) by simp
next
  case (2 r)
  have "region_inside r k p n" using 2 assms(3) by (simp add: region_inside_def)
  then show ?thesis using that(2) 2 mem_inv_Register_bare [OF assms(1,2)] by blast
qed

text \<open>Registering the two memories of a device segment, whichever the compiler does first.\<close>

lemma register_both_cases:
  assumes inv: "mem_inv B w" and h: "bare w (a_kind a) (a_ptr a) n"
    and d: "bare w (device_kind (ev_device e)) dp n"
    and ne: "(a_kind a, a_ptr a, n) \<noteq> (device_kind (ev_device e), dp, n)" and pos: "0 < n"
    and eq: "register_both e w a i dp = (w', res)"
  obtains f where "res = Inl f" and "mem_inv B w'" and "length w \<le> length w'"
  | r dr where "res = Inr (r, dr)" and "length w \<le> length w'" and
      "rg_ptr r = a_ptr a" and "rg_size r = a_size a" and "rg_ptr dr = dp" and "rg_size dr = a_size a" and
      "mem_inv (add_mset (a_kind a, a_ptr a, n, r) (add_mset (device_kind (ev_device e), dp, n, dr) B)) w'"
proof (cases "ev_host_first e")
  case True
  let ?h = "register_memory (ev_context e) w (a_ptr a) (a_size a)"
  obtain w1 res1 where e1: "?h = (w1, res1)" by (cases ?h)
  have gk: "a_kind a \<noteq> Gpu_Memory" by (simp add: a_kind_def)
  from inv h gk pos e1 show ?thesis
  proof (cases rule: register_memory_cases)
    case (1 f)
    then show ?thesis
      using that(1) eq e1 True mem_inv_quiet [OF inv] quiet_length by (auto simp: register_both_def)
  next
    case (2 r)
    let ?d = "register_device_memory (ev_context e) (device_kind (ev_device e) = Gpu_Memory) w1 i dp (a_size a)"
    obtain w2 res2 where e2: "?d = (w2, res2)" by (cases ?d)
    have "bare w1 (device_kind (ev_device e)) dp n"
      unfolding 2(2) using bare_Register [OF mem_inv_live_ok [OF inv] h d ne 2(3)] .
    from 2(4) this pos e2 show ?thesis
    proof (cases rule: register_device_memory_cases)
      case (1 f)
      then have "w' = Deregister r # w2" "res = Inl f"
        using eq e1 e2 True 2(1) by (simp_all add: register_both_def)
      then show ?thesis
        using that(1) bare_Deregister(1) [OF mem_inv_quiet [OF 2(4) 1(2)]] quiet_length [OF 1(2)] 2(2)
        by auto
    next
      case (2 dr)
      note 22 = 2
      then have "w' = w2" "res = Inr (r, dr)"
        using eq e1 e2 True \<open>res1 = Inr r\<close> by (simp_all add: register_both_def)
      then show ?thesis
        using that(2) 22 \<open>w1 = Register r # w\<close> \<open>rg_ptr r = a_ptr a\<close> \<open>rg_size r = a_size a\<close>
        by (simp add: add_mset_commute)
    qed
  qed
next
  case False
  let ?d = "register_device_memory (ev_context e) (device_kind (ev_device e) = Gpu_Memory) w i dp (a_size a)"
  obtain w1 res1 where e1: "?d = (w1, res1)" by (cases ?d)
  have gk: "a_kind a \<noteq> Gpu_Memory" by (simp add: a_kind_def)
  from inv d pos e1 show ?thesis
  proof (cases rule: register_device_memory_cases)
    case (1 f)
    then show ?thesis
      using that(1) eq e1 False mem_inv_quiet [OF inv] quiet_length by (auto simp: register_both_def)
  next
    case (2 dr)
    let ?h = "register_memory (ev_context e) w1 (a_ptr a) (a_size a)"
    obtain w2 res2 where e2: "?h = (w2, res2)" by (cases ?h)
    have "bare w1 (a_kind a) (a_ptr a) n"
      unfolding 2(2) using bare_Register [OF mem_inv_live_ok [OF inv] d h ne [symmetric] 2(3)] .
    from 2(4) this gk pos e2 show ?thesis
    proof (cases rule: register_memory_cases)
      case (1 f)
      then have "w' = Deregister dr # w2" "res = Inl f"
        using eq e1 e2 False 2(1) by (simp_all add: register_both_def)
      then show ?thesis
        using that(1) bare_Deregister(1) [OF mem_inv_quiet [OF 2(4) 1(2)]] quiet_length [OF 1(2)] 2(2)
        by auto
    next
      case (2 r)
      note 22 = 2
      then have "w' = w2" "res = Inr (r, dr)"
        using eq e1 e2 False \<open>res1 = Inr dr\<close> by (simp_all add: register_both_def)
      then show ?thesis
        using that(2) 22 \<open>w1 = Register dr # w\<close> \<open>rg_ptr dr = dp\<close> \<open>rg_size dr = a_size a\<close> by simp
    qed
  qed
qed

section \<open>The memory behind a segment\<close>

definition seg_backings :: "('h, 's) env \<Rightarrow> 's segment \<Rightarrow> backing multiset" where
  "seg_backings e seg =
     (case s_device_region seg of
        None \<Rightarrow> {#(a_kind (s_allocation seg), a_ptr (s_allocation seg),
                  unat (a_size (s_allocation seg)), s_region seg)#}
      | Some dr \<Rightarrow> {#(a_kind (s_allocation seg), a_ptr (s_allocation seg),
                     unat (a_size (s_allocation seg)), s_region seg),
                    (device_kind (ev_device e), s_device_allocation seg,
                     unat (a_size (s_allocation seg)), dr)#})"

lemma seg_backings_update [simp]:
  "seg_backings e (seg\<lparr>s_freed_stack := fs, s_num_freed := n\<rparr>) = seg_backings e seg"
  by (simp add: seg_backings_def split: option.split)

text \<open>
  What the destructor needs to hand everything back to where it came from; and the regions cover
  the memory.
\<close>

definition seg_owned :: "('h, 's) env \<Rightarrow> 's segment \<Rightarrow> bool" where
  "seg_owned e seg \<longleftrightarrow> a_valid (s_allocation seg) \<and> numa_owner (ev_numa e) (s_allocation seg) \<and>
     rg_ptr (s_region seg) = a_ptr (s_allocation seg) \<and> rg_size (s_region seg) = a_size (s_allocation seg) \<and>
     (case s_device_region seg of
        None \<Rightarrow> s_device_allocation seg = 0
      | Some dr \<Rightarrow> s_device_allocation seg \<noteq> 0 \<and> ev_enable_device e \<and>
          rg_ptr dr = s_device_allocation seg \<and> rg_size dr = a_size (s_allocation seg))"

lemma destroy_segment_ok:
  assumes ok: "env_ok e" and own: "seg_owned e seg" and inv: "mem_inv (seg_backings e seg + B) w"
  shows "mem_inv B (destroy_segment e w seg)" and "length w \<le> length (destroy_segment e w seg)"
proof -
  let ?a = "s_allocation seg" and ?n = "unat (a_size (s_allocation seg))"
  have host: "mem_inv B (numa_free (ev_numa e) (Deregister (s_region seg) # v) ?a)
      \<and> length v \<le> length (numa_free (ev_numa e) (Deregister (s_region seg) # v) ?a)"
    if "mem_inv (add_mset (a_kind ?a, a_ptr ?a, ?n, s_region seg) B) v" for v
  proof -
    have f: "numa_free (ev_numa e) (Deregister (s_region seg) # v) ?a
        = Dealloc (a_kind ?a) (a_ptr ?a) # Deregister (s_region seg) # v"
      using own by (intro numa.release_owned) (simp_all add: seg_owned_def)
    note b = bare_Deregister [OF that]
    show ?thesis unfolding f using mem_inv_free_bare [OF b] by simp
  qed
  have "mem_inv B (destroy_segment e w seg) \<and> length w \<le> length (destroy_segment e w seg)"
  proof (cases "s_device_region seg")
    case None
    then show ?thesis
      using host [of w] own inv by (simp add: destroy_segment_def seg_owned_def seg_backings_def)
  next
    case (Some dr)
    let ?k = "device_kind (ev_device e)" and ?p = "s_device_allocation seg"
    let ?v = "Dealloc ?k ?p # Deregister dr # w"
    have d: "device_ok (ev_device e)" using ok own Some by (simp add: env_ok_def seg_owned_def)
    have p: "?p \<noteq> 0" using own Some by (simp add: seg_owned_def)
    have "mem_inv (add_mset (?k, ?p, ?n, dr) (add_mset (a_kind ?a, a_ptr ?a, ?n, s_region seg) B)) w"
      using inv Some by (simp add: seg_backings_def add_mset_commute)
    note b = bare_Deregister [OF this]
    have "mem_inv (add_mset (a_kind ?a, a_ptr ?a, ?n, s_region seg) B) ?v"
      by (rule mem_inv_free_bare [OF b])
    from host [OF this] show ?thesis
      using Some p device.dfree_live [OF d p] by (simp add: destroy_segment_def)
  qed
  then show "mem_inv B (destroy_segment e w seg)" and "length w \<le> length (destroy_segment e w seg)"
    by blast+
qed

section \<open>The invariant of a pool\<close>

text \<open>
  The configuration: blocks of a positive size that fit into a segment, and a segment size that can
  be rounded up to pages without leaving \<open>std::size_t\<close>.
\<close>

definition pool_config_ok :: "('h, 's) env \<Rightarrow> 's pool \<Rightarrow> bool" where
  "pool_config_ok e p \<longleftrightarrow> p_block_size p \<noteq> 0 \<and> p_block_size p \<le> p_segment_size p \<and>
     unat (p_segment_size p) + unat (page_size (ev_numa e)) \<le> 2 ^ 64"

definition pool_segment_ok :: "('h, 's) env \<Rightarrow> 's pool \<Rightarrow> nat \<Rightarrow> 's segment \<Rightarrow> bool" where
  "pool_segment_ok e p this seg \<longleftrightarrow> segment_ok e seg \<and> seg_owned e seg \<and>
     s_pool seg = p_self p \<and> s_block_size seg = p_block_size p \<and>
     p_segment_size p \<le> a_size (s_allocation seg) \<and> a_node (s_allocation seg) = p_numa_node p \<and>
     set (freed_blocks e seg) \<subseteq> set (seg_blocks e this seg) \<and>
     (s_device_region seg \<noteq> None \<longleftrightarrow> allocates_on_device e p) \<and>
     (s_device_region seg \<noteq> None \<longrightarrow> s_device_id seg = p_device_id p)"

definition blocks_of :: "('h, 's) env \<Rightarrow> (nat \<times> 's segment) multiset \<Rightarrow> 'h block multiset" where
  "blocks_of e M = \<Sum>\<^sub># (image_mset (\<lambda>s. mset (seg_blocks e (fst s) (snd s))) M)"

definition freed_of :: "('h, 's) env \<Rightarrow> (nat \<times> 's segment) multiset \<Rightarrow> 'h block multiset" where
  "freed_of e M = \<Sum>\<^sub># (image_mset (\<lambda>s. mset (freed_blocks e (snd s))) M)"

definition backings_of :: "('h, 's) env \<Rightarrow> (nat \<times> 's segment) multiset \<Rightarrow> backing multiset" where
  "backings_of e M = \<Sum>\<^sub># (image_mset (\<lambda>s. seg_backings e (snd s)) M)"

lemma of_simps [simp]:
  "blocks_of e {#} = {#}" "freed_of e {#} = {#}" "backings_of e {#} = {#}"
  "blocks_of e (add_mset s M) = mset (seg_blocks e (fst s) (snd s)) + blocks_of e M"
  "freed_of e (add_mset s M) = mset (freed_blocks e (snd s)) + freed_of e M"
  "backings_of e (add_mset s M) = seg_backings e (snd s) + backings_of e M"
  by (simp_all add: blocks_of_def freed_of_def backings_of_def)

abbreviation pool_segments :: "'s pool \<Rightarrow> (nat \<times> 's segment) multiset" where
  "pool_segments p \<equiv> mset (p_segments p)"

definition pool_backings :: "('h, 's) env \<Rightarrow> 's pool \<Rightarrow> backing multiset" where
  "pool_backings e p = backings_of e (pool_segments p)"

definition free_blocks :: "('h, 's) env \<Rightarrow> 's pool \<Rightarrow> 'h block multiset" where
  "free_blocks e p = mset (sk_list (ev_stack e) (p_free_stack p))"

text \<open>
  \<open>U\<close> are the blocks the users hold. Every block of every segment is in one place: on the free
  stack, on its segment's stack of freed blocks, or with a user.
\<close>

definition pool_ok :: "('h, 's) env \<Rightarrow> 's pool \<Rightarrow> world \<Rightarrow> 'h block multiset \<Rightarrow> bool" where
  "pool_ok e p w U \<longleftrightarrow> pool_config_ok e p \<and>
     sk_limit (ev_stack e) (p_free_stack p) = None \<and>
     distinct (map fst (p_segments p)) \<and>
     (\<forall>this seg. (this, seg) \<in> set (p_segments p) \<longrightarrow> this < length w \<and> pool_segment_ok e p this seg) \<and>
     free_blocks e p + freed_of e (pool_segments p) + U = blocks_of e (pool_segments p)"

text \<open>The pool among others: \<open>G\<close> is the memory other components own.\<close>

definition pool_inv ::
  "('h, 's) env \<Rightarrow> backing multiset \<Rightarrow> 's pool \<Rightarrow> world \<Rightarrow> 'h block multiset \<Rightarrow> bool" where
  "pool_inv e G p w U \<longleftrightarrow> pool_ok e p w U \<and> mem_inv (pool_backings e p + G) w"

text \<open>An operation changes the stack, the segments and the mutex, and nothing else.\<close>

definition same_pool :: "'s pool \<Rightarrow> 's pool \<Rightarrow> bool" where
  "same_pool p' p \<longleftrightarrow>
     p' = p\<lparr>p_free_stack := p_free_stack p', p_segments := p_segments p', p_mutex := p_mutex p'\<rparr>"

lemma same_poolD:
  assumes "same_pool p' p"
  shows "p_self p' = p_self p" "p_block_size p' = p_block_size p" "p_segment_size p' = p_segment_size p"
    "p_numa_node p' = p_numa_node p" "p_never_free p' = p_never_free p" "p_device_id p' = p_device_id p"
    "p_num_reserve_segments p' = p_num_reserve_segments p"
    "p_allocate_on_device p' = p_allocate_on_device p"
  using assms unfolding same_pool_def by (cases p; cases p'; simp)+

lemma same_pool_update [simp]:
  "same_pool (p\<lparr>p_free_stack := fs\<rparr>) p"
  "same_pool (p\<lparr>p_segments := segs\<rparr>) p"
  "same_pool (p\<lparr>p_mutex := m\<rparr>) p"
  "same_pool (p\<lparr>p_free_stack := fs, p_segments := segs\<rparr>) p"
  "same_pool (p\<lparr>p_free_stack := fs, p_segments := segs, p_mutex := m\<rparr>) p"
  "same_pool p p"
  by (simp_all add: same_pool_def)

lemma same_pool_trans: "same_pool r q \<Longrightarrow> same_pool q p \<Longrightarrow> same_pool r p"
  unfolding same_pool_def by (cases p; cases q; cases r) simp

lemma pool_ok_length: "pool_ok e p w U \<Longrightarrow> length w \<le> length w' \<Longrightarrow> pool_ok e p w' U"
  unfolding pool_ok_def by (meson less_le_trans)

lemma pool_segment_ok_same:
  assumes "same_pool p' p"
  shows "pool_segment_ok e p' this seg = pool_segment_ok e p this seg"
  unfolding pool_segment_ok_def allocates_on_device_def same_poolD [OF assms] ..

lemma pool_config_ok_same: "same_pool p' p \<Longrightarrow> pool_config_ok e p' = pool_config_ok e p"
  unfolding pool_config_ok_def by (simp only: same_poolD)

text \<open>Rounding a segment size up to pages loses nothing.\<close>

lemma num_pages_enough:
  assumes "unat s + unat (page_size e) \<le> 2 ^ 64" and "page_size e \<noteq> 0"
  shows "unat s \<le> unat (num_pages e s * page_size e)"
proof -
  let ?p = "unat (page_size e)"
  have p: "0 < ?p" using assms(2) by (simp add: unat_gt_0)
  have x: "unat (s + page_size e - 1) = unat s + ?p - 1"
  proof (cases "unat s + ?p = 2 ^ 64")
    case True
    have "s + page_size e = of_nat (unat s + ?p)" by simp
    also have "\<dots> = 0" unfolding True of_nat_power of_nat_numeral by simp
    finally have "s + page_size e - 1 = - 1" by simp
    then show ?thesis using True by (simp add: unsigned_minus_1_eq_mask mask_eq_exp_minus_1)
  next
    case False
    then have a: "unat (s + page_size e) = unat s + ?p"
      using assms(1) by (intro unat_add_no_wrap) simp
    then have "s + page_size e \<noteq> 0" using p by auto
    then show ?thesis using a by (simp add: unat_minus_one_pos)
  qed
  let ?q = "(unat s + ?p - 1) div ?p"
  have n: "unat (num_pages e s) = ?q" by (simp add: num_pages_def unat_div_word x)
  have "?q * ?p \<le> unat s + ?p - 1" by (rule div_times_less_eq_dividend)
  also have "\<dots> < 2 ^ 64" using p assms(1) by linarith
  finally have "unat (num_pages e s) * ?p < 2 ^ LENGTH(64)" unfolding n by simp
  then have "unat (num_pages e s * page_size e) = ?q * ?p" unfolding n [symmetric] by (rule unat_mult_no_wrap)
  moreover have "unat s \<le> ?q * ?p"
    using p mod_less_divisor [of ?p "unat s + ?p - 1"] div_mult_mod_eq [of "unat s + ?p - 1" ?p]
    by linarith
  ultimately show ?thesis by simp
qed

section \<open>Adding a segment keeps the invariant\<close>

lemma insert_segment_ok:
  assumes ok: "env_ok e" and p: "pool_ok e p w U" and new: "length w \<le> this" "this < length w'"
    and seg: "pool_segment_ok e p this seg" and fr: "freed_blocks e seg = []"
    and fs: "sk_list (ev_stack e) fs = seg_blocks e this seg @ sk_list (ev_stack e) (p_free_stack p)"
      "sk_limit (ev_stack e) fs = None"
  shows "pool_ok e (insert_segment e p v this seg fs) w' U"
    and "pool_backings e (insert_segment e p v this seg fs) = seg_backings e seg + pool_backings e p"
proof -
  let ?p = "insert_segment e p v this seg fs"
  have m: "mset (p_segments ?p) = add_mset (this, seg) (pool_segments p)"
    using ok by (simp add: insert_segment_def env_ok_def)
  then have set: "set (p_segments ?p) = insert (this, seg) (set (p_segments p))"
    by (metis set_mset_add_mset_insert set_mset_mset)
  have "mset (map fst (p_segments ?p)) = mset (map fst ((this, seg) # p_segments p))"
    using m by (metis mset.simps(2) mset_map)
  moreover have "distinct (map fst ((this, seg) # p_segments p))"
    using p new(1) by (fastforce simp: pool_ok_def)
  ultimately have d: "distinct (map fst (p_segments ?p))" by (metis mset_eq_imp_distinct_iff)
  have same: "same_pool ?p p" by (simp add: insert_segment_def)
  have f: "free_blocks e ?p = mset (seg_blocks e this seg) + free_blocks e p"
    using fs(1) by (simp add: free_blocks_def insert_segment_def)
  show "pool_backings e ?p = seg_backings e seg + pool_backings e p"
    unfolding pool_backings_def m by simp
  have "free_blocks e ?p + freed_of e (pool_segments ?p) + U = blocks_of e (pool_segments ?p)"
    unfolding m f using p fr by (simp add: pool_ok_def add_ac)
  moreover have "pool_config_ok e ?p" using p pool_config_ok_same [OF same, of e] by (simp add: pool_ok_def)
  moreover have "sk_limit (ev_stack e) (p_free_stack ?p) = None"
    using fs(2) by (simp add: insert_segment_def)
  moreover have "i < length w' \<and> pool_segment_ok e ?p i s" if "(i, s) \<in> set (p_segments ?p)" for i s
    using that p new seg unfolding set pool_segment_ok_same [OF same] pool_ok_def by force
  ultimately show "pool_ok e ?p w' U" using d unfolding pool_ok_def by blast
qed

text \<open>An allocation that passed the check, before anything is registered in it.\<close>

definition usable :: "('h, 's) env \<Rightarrow> 's pool \<Rightarrow> world \<Rightarrow> allocation \<Rightarrow> bool" where
  "usable e p w a \<longleftrightarrow> a_valid a \<and> numa_owner (ev_numa e) a \<and> a_node a = p_numa_node p \<and>
     p_segment_size p \<le> a_size a \<and> bare w (a_kind a) (a_ptr a) (unat (a_size a))"

lemma usable_pos: "pool_config_ok e p \<Longrightarrow> usable e p w a \<Longrightarrow> 0 < unat (a_size a)"
  by (auto simp: usable_def pool_config_ok_def word_nat unat_eq_zero [symmetric])

lemma pool_inv_quiet: "pool_inv e G p w U \<Longrightarrow> quiet w' w \<Longrightarrow> pool_inv e G p w' U"
  unfolding pool_inv_def using mem_inv_quiet pool_ok_length quiet_length by blast

text \<open>
  What adding a segment promises: it returns; the invariant holds whether or not an exception was
  thrown, and if none was, there are blocks to take.
\<close>

definition fresh_ids :: "'s pool \<Rightarrow> 's pool \<Rightarrow> world \<Rightarrow> bool" where
  "fresh_ids p' p w \<longleftrightarrow>
     (\<forall>i \<in> fst ` set (p_segments p'). i \<in> fst ` set (p_segments p) \<or> length w \<le> i)"

lemma fresh_ids_sub: "set (map fst (p_segments p')) \<subseteq> set (map fst (p_segments p)) \<Longrightarrow> fresh_ids p' p w"
  unfolding fresh_ids_def list.set_map by blast

lemma fresh_ids_simps [simp]:
  "fresh_ids (p'\<lparr>p_free_stack := fs\<rparr>) p w = fresh_ids p' p w"
  "fresh_ids (p'\<lparr>p_mutex := m\<rparr>) p w = fresh_ids p' p w"
  "fresh_ids p p w"
  by (simp_all add: fresh_ids_def)

lemma fresh_ids_length: "fresh_ids p' p w' \<Longrightarrow> length w \<le> length w' \<Longrightarrow> fresh_ids p' p w"
  unfolding fresh_ids_def by (meson order_trans)

lemma fresh_ids_same: "fresh_ids p' q w \<Longrightarrow> map fst (p_segments q) = map fst (p_segments p) \<Longrightarrow> fresh_ids p' p w"
  unfolding fresh_ids_def by (metis list.set_map)

lemma fresh_ids_insert:
  assumes "env_ok e" and "length w \<le> this"
  shows "fresh_ids (insert_segment e p v this seg fs) p w"
proof -
  have "mset (p_segments (insert_segment e p v this seg fs)) = mset ((this, seg) # p_segments p)"
    using assms(1) by (simp add: insert_segment_def env_ok_def)
  from mset_eq_setD [OF this]
  have "set (p_segments (insert_segment e p v this seg fs)) = insert (this, seg) (set (p_segments p))"
    by simp
  then show ?thesis using assms(2) by (simp add: fresh_ids_def)
qed

fun added ::
  "('h, 's) env \<Rightarrow> backing multiset \<Rightarrow> 'h block multiset \<Rightarrow> 's pool \<Rightarrow> world \<Rightarrow> ('s, unit) result \<Rightarrow> bool" where
  "added e G U p w None = False"
| "added e G U p w (Some (p', w', r)) =
     (pool_inv e G p' w' U \<and> same_pool p' p \<and> p_mutex p' = p_mutex p \<and> length w \<le> length w' \<and>
      fresh_ids p' p w \<and> (r = Inr () \<longrightarrow> sk_list (ev_stack e) (p_free_stack p') \<noteq> []))"

lemma added_length: "added e G U p w' res \<Longrightarrow> length w \<le> length w' \<Longrightarrow> added e G U p w res"
  by (cases res) (auto intro: fresh_ids_length)

lemma pool_ok_segmentD:
  "pool_ok e p w U \<Longrightarrow> (this, seg) \<in> set (p_segments p) \<Longrightarrow> pool_segment_ok e p this seg"
  by (simp add: pool_ok_def)

lemma new_segment_nonempty:
  assumes "pool_config_ok e p" and "pool_segment_ok e p this seg"
  shows "seg_blocks e this seg \<noteq> []"
proof -
  let ?n = "unat (a_size (s_allocation seg))" and ?b = "unat (p_block_size p)"
  have "unat (s_num_blocks seg) = ?n div ?b"
    using assms(2) by (simp add: pool_segment_ok_def segment_ok_def unat_div_word)
  moreover have "?b \<le> ?n"
    using assms by (auto simp: pool_segment_ok_def pool_config_ok_def word_nat)
  moreover have "0 < ?b" using assms(1) by (simp add: pool_config_ok_def unat_gt_0)
  ultimately have "0 < unat (s_num_blocks seg)" by (simp add: div_greater_zero_iff)
  then show ?thesis by (metis length_seg_blocks length_greater_0_conv)
qed

lemma add_host_segment_ok:
  assumes ok: "env_ok e" and inv: "pool_inv e G p w U" and a: "usable e p w a"
    and host: "\<not> allocates_on_device e p"
  shows "added e G U p w (add_host_segment e p w a)"
proof -
  let ?n = "unat (a_size a)"
  have p: "pool_ok e p w U" and mem: "mem_inv (pool_backings e p + G) w"
    using inv by (simp_all add: pool_inv_def)
  have cfg: "pool_config_ok e p" using p by (simp add: pool_ok_def)
  have bare: "bare w (a_kind a) (a_ptr a) ?n" using a by (simp add: usable_def)
  have k: "a_kind a \<noteq> Gpu_Memory" by (simp add: a_kind_def)
  obtain w1 res where reg: "register_memory (ev_context e) w (a_ptr a) (a_size a) = (w1, res)"
    by (cases "register_memory (ev_context e) w (a_ptr a) (a_size a)")
  from mem bare k usable_pos [OF cfg a] reg show ?thesis
  proof (cases rule: register_memory_cases)
    case (1 f)
    then have "pool_inv e G p w1 U" using pool_inv_quiet [OF inv] by blast
    then show ?thesis
      using 1 reg quiet_length [OF 1(2)] by (simp add: add_host_segment_def)
  next
    case (2 r)
    let ?id = "length w1" and ?w2 = "New_Object (length w1) # w1"
    have sk: "stack_ok (ev_stack e)" "sk_limit (ev_stack e) (p_free_stack p) = None" "p_block_size p \<noteq> 0"
      using ok p cfg by (simp_all add: env_ok_def pool_ok_def pool_config_ok_def)
    from make_segment_ok [OF sk, of ?id "p_self p" r a]
    obtain seg fs where
      ms: "make_segment e ?id (p_self p) r a (p_block_size p) (p_free_stack p) = Some (Inr (seg, fs))"
      and seg: "segment_ok e seg" "freed_blocks e seg = []" "s_pool seg = p_self p"
        "s_allocation seg = a" "s_region seg = r" "s_block_size seg = p_block_size p"
        "s_device_region seg = None" "s_device_allocation seg = 0"
      and fs: "sk_list (ev_stack e) fs = seg_blocks e ?id seg @ sk_list (ev_stack e) (p_free_stack p)"
        "sk_limit (ev_stack e) fs = None" .
    have ps: "pool_segment_ok e p ?id seg"
      using seg a host 2(5,6) by (simp add: pool_segment_ok_def seg_owned_def usable_def)
    let ?p = "insert_segment e p ?w2 ?id seg fs"
    have len: "length w \<le> ?id" "?id < length ?w2" using 2(2) by simp_all
    note ins = insert_segment_ok [OF ok p len ps seg(2) fs]
    have "mem_inv (pool_backings e ?p + G) ?w2"
      using mem_inv_quiet [OF 2(4), of ?w2] unfolding ins(2) by (simp add: seg_backings_def seg)
    then have "pool_inv e G ?p ?w2 U" using ins(1) by (simp add: pool_inv_def)
    moreover have "sk_list (ev_stack e) (p_free_stack ?p) \<noteq> []"
      using new_segment_nonempty [OF cfg ps] fs(1) by (simp add: insert_segment_def)
    ultimately have "added e G U p w (Some (?p, ?w2, Inr ()))"
      using len fresh_ids_insert [OF ok len(1)] by simp (simp add: insert_segment_def)
    then show ?thesis using reg 2(1) ms by (simp add: add_host_segment_def Let_def)
  qed
qed

lemma add_device_segment_ok:
  assumes ok: "env_ok e" and inv: "pool_inv e G p w U" and a: "usable e p w a"
    and device: "allocates_on_device e p"
  shows "added e G U p w (add_device_segment e p w a)"
proof (cases "get_device_id (ev_device e) w")
  case (Inl f)
  then show ?thesis using inv by (simp add: add_device_segment_def)
next
  case (Inr tmp)
  let ?n = "unat (a_size a)" and ?k = "device_kind (ev_device e)"
  have d: "device_ok (ev_device e)" and en: "ev_enable_device e"
    using ok device by (simp_all add: env_ok_def allocates_on_device_def)
  obtain w1 r1 where set1: "set_device_id (ev_device e) w (p_device_id p) = (w1, r1)"
    by (cases "set_device_id (ev_device e) w (p_device_id p)")
  note q1 = set_device_id_quiet [OF set1]
  have inv1: "pool_inv e G p w1 U" using inv q1 by (rule pool_inv_quiet)
  then have p: "pool_ok e p w1 U" and mem: "mem_inv (pool_backings e p + G) w1"
    by (simp_all add: pool_inv_def)
  have cfg: "pool_config_ok e p" using p by (simp add: pool_ok_def)
  have bare: "bare w1 (a_kind a) (a_ptr a) ?n" using a bare_quiet [OF _ q1] by (simp add: usable_def)
  have size: "a_size a \<noteq> 0" using usable_pos [OF cfg a] by auto
  note l1 = quiet_length [OF q1]
  obtain w2 r2 where dm: "device_malloc (ev_device e) w1 (a_size a) = (w2, r2)"
    by (cases "device_malloc (ev_device e) w1 (a_size a)")
  consider f where "r1 = Inl f" | u f where "r1 = Inr u" "r2 = Inl f"
    | u dp where "r1 = Inr u" "r2 = Inr dp"
    by (cases r1; cases r2) auto
  then show ?thesis
  proof cases
    case (1 f)
    then show ?thesis using Inr set1 inv1 l1 by (simp add: add_device_segment_def)
  next
    case r: (2 u f)
    then have "stray w2 w1 ?k ?n" using device.dmalloc_failed [OF d size] dm by blast
    then have "mem_inv (pool_backings e p + G) w2" "length w1 \<le> length w2" by (rule mem_inv_stray [OF mem])+
    then have "pool_inv e G p w2 U" "length w \<le> length w2"
      using pool_ok_length [OF p] l1 by (simp_all add: pool_inv_def)
    then show ?thesis using Inr set1 r dm by (simp add: add_device_segment_def)
  next
    case r: (3 u dp)
    note g = device.dmalloc_granted [OF d size, of w1 w2 dp]
    have w2: "w2 = Alloc ?k dp ?n # w1" and fr: "fresh w1 ?k dp ?n" using g dm r by simp_all
    have dp: "dp \<noteq> 0" using fr by (simp add: fresh_def)
    have m2: "mem_inv (pool_backings e p + G) w2" "bare w2 ?k dp ?n" "bare w2 (a_kind a) (a_ptr a) ?n"
      "(a_kind a, a_ptr a, ?n) \<noteq> (?k, dp, ?n)"
      using mem_inv_fresh [OF mem fr, of w2] bare unfolding w2 by auto
    have l2: "length w \<le> length w2" "length w1 \<le> length w2" using l1 w2 by simp_all
    obtain w3 r3 where both: "register_both e w2 a (p_device_id p) dp = (w3, r3)"
      by (cases "register_both e w2 a (p_device_id p) dp")
    from m2(1,3,2,4) usable_pos [OF cfg a] both show ?thesis
    proof (cases rule: register_both_cases)
      case (1 f)
      then have "pool_inv e G p w3 U" using pool_ok_length [OF p] l2 by (simp add: pool_inv_def)
      then show ?thesis using Inr set1 r dm both 1 l2 by (simp add: add_device_segment_def)
    next
      case (2 reg dr)
      let ?id = "length w3" and ?w4 = "New_Object (length w3) # w3"
      have sk: "stack_ok (ev_stack e)" "sk_limit (ev_stack e) (p_free_stack p) = None" "p_block_size p \<noteq> 0"
        using ok p cfg by (simp_all add: env_ok_def pool_ok_def pool_config_ok_def)
      from make_device_segment_ok [OF sk, of ?id "p_self p" reg a dr dp "p_device_id p"]
      obtain seg fs where
        ms: "make_device_segment e ?id (p_self p) reg a dr dp (p_device_id p) (p_block_size p)
               (p_free_stack p) = Some (Inr (seg, fs))"
        and seg: "segment_ok e seg" "freed_blocks e seg = []" "s_pool seg = p_self p"
          "s_allocation seg = a" "s_region seg = reg" "s_block_size seg = p_block_size p"
          "s_device_region seg = Some dr" "s_device_allocation seg = dp" "s_device_id seg = p_device_id p"
        and fs: "sk_list (ev_stack e) fs = seg_blocks e ?id seg @ sk_list (ev_stack e) (p_free_stack p)"
          "sk_limit (ev_stack e) fs = None" .
      have ps: "pool_segment_ok e p ?id seg"
        using seg a device en dp 2(3-6) by (simp add: pool_segment_ok_def seg_owned_def usable_def)
      let ?p = "insert_segment e p ?w4 ?id seg fs"
      have len: "length w1 \<le> ?id" "?id < length ?w4" using 2(2) l2 by simp_all
      note ins = insert_segment_ok [OF ok p len ps seg(2) fs]
      have "mem_inv (pool_backings e ?p + G) ?w4"
        using mem_inv_quiet [OF 2(7), of ?w4] unfolding ins(2) by (simp add: seg_backings_def seg)
      then have inv4: "pool_inv e G ?p ?w4 U" using ins(1) by (simp add: pool_inv_def)
      obtain w5 r5 where set5: "set_device_id (ev_device e) ?w4 tmp = (w5, r5)"
        by (cases "set_device_id (ev_device e) ?w4 tmp")
      have "pool_inv e G ?p w5 U" "length ?w4 \<le> length w5"
        using pool_inv_quiet [OF inv4] set_device_id_quiet [OF set5] quiet_length by blast+
      moreover have "sk_list (ev_stack e) (p_free_stack ?p) \<noteq> []"
        using new_segment_nonempty [OF cfg ps] fs(1) by (simp add: insert_segment_def)
      moreover have "fresh_ids ?p p w" using len l1 by (intro fresh_ids_insert [OF ok]) simp
      ultimately have "added e G U p w (Some (?p, w5, r5))"
        using len l1 by simp (simp add: insert_segment_def)
      then show ?thesis
        using Inr set1 r dm both 2(1) ms set5 by (simp add: add_device_segment_def Let_def)
    qed
  qed
qed

text \<open>The check hands back what it refuses.\<close>

lemma check_allocation_cases:
  assumes "mem_inv B w" and "a_valid a \<longrightarrow> numa_owner ne a \<and> bare w (a_kind a) (a_ptr a) (unat (a_size a))"
    and "check_allocation ne w a node = (w', res)"
  obtains f where "res = Inl f" and "mem_inv B w'" and "length w \<le> length w'"
  | "res = Inr a" and "w' = w" and "a_valid a" and "a_node a = node"
proof (cases "a_valid a \<and> a_node a \<noteq> node")
  case True
  then have own: "numa_owner ne a" "bare w (a_kind a) (a_ptr a) (unat (a_size a))"
    using assms(2) by simp_all
  then have "w' = Dealloc (a_kind a) (a_ptr a) # w" "res = Inl (numa_node_error node)"
    using True assms(3) numa.release_owned [OF own(1)] by (simp_all add: check_allocation_def)
  then show ?thesis using that(1) mem_inv_free_bare [OF assms(1) own(2)] by simp
next
  case False
  then show ?thesis using that assms(1,3) by (auto simp: check_allocation_def split: if_splits)
qed

lemma add_segment_ok:
  assumes ok: "env_ok e" and inv: "pool_inv e G p w U"
  shows "added e G U p w (add_segment e p w)"
proof -
  let ?ne = "ev_numa e" and ?s = "p_segment_size p"
  have p: "pool_ok e p w U" and mem: "mem_inv (pool_backings e p + G) w"
    using inv by (simp_all add: pool_inv_def)
  have ready: "numa_ok ?ne" using ok by (simp add: env_ok_def)
  obtain w1 a where al: "numa_allocate ?ne w (num_pages ?ne ?s) (p_numa_node p) = (w1, Inr a)"
    using numa.alloc_returns [OF ready] by blast
  have m1: "mem_inv (pool_backings e p + G) w1"
    and l1: "length w \<le> length w1"
    and g: "a_valid a \<Longrightarrow> numa_owner ?ne a \<and> bare w1 (a_kind a) (a_ptr a) (unat (a_size a))
              \<and> a_size a = num_pages ?ne ?s * page_size ?ne"
  proof -
    show l1: "length w \<le> length w1" using numa.alloc_extends [OF al] by (rule extends_length)
    show "mem_inv (pool_backings e p + G) w1"
    proof (cases "a_valid a")
      case True
      from numa.alloc_granted [OF ready al True] show ?thesis
        using mem_inv_fresh(1) [OF mem _ _ _ _ l1] by blast
    next
      case False
      from numa.alloc_failed [OF al False] show ?thesis using mem_inv_cong [OF mem _ _ _ l1] by blast
    qed
    assume "a_valid a"
    note g = numa.alloc_granted [OF ready al this]
    then have "bare w1 (a_kind a) (a_ptr a) (unat (a_size a))"
      using mem_inv_fresh(2) [OF mem _ _ _ _ l1] by blast
    then show "numa_owner ?ne a \<and> bare w1 (a_kind a) (a_ptr a) (unat (a_size a))
        \<and> a_size a = num_pages ?ne ?s * page_size ?ne" using g by blast
  qed
  obtain w2 res where ch: "check_allocation ?ne w1 a (p_numa_node p) = (w2, res)"
    by (cases "check_allocation ?ne w1 a (p_numa_node p)")
  have gb: "a_valid a \<longrightarrow> numa_owner ?ne a \<and> bare w1 (a_kind a) (a_ptr a) (unat (a_size a))" using g by blast
  from m1 gb ch show ?thesis
  proof (cases rule: check_allocation_cases)
    case (1 f)
    have l: "length w \<le> length w2" using l1 1(3) by (rule order_trans)
    then have "pool_inv e G p w2 U" using 1(2) pool_ok_length [OF p] by (simp add: pool_inv_def)
    then show ?thesis using al ch 1 l by (simp add: add_segment_def)
  next
    case 2
    have inv1: "pool_inv e G p w1 U" using m1 pool_ok_length [OF p l1] by (simp add: pool_inv_def)
    have "unat ?s + unat (page_size ?ne) \<le> 2 ^ 64" using p by (simp add: pool_ok_def pool_config_ok_def)
    moreover have "page_size ?ne \<noteq> 0" using ready by (simp add: numa_ok_def os_ok_def page_size_def)
    ultimately have "?s \<le> a_size a" using g [OF 2(3)] num_pages_enough by (simp add: word_nat)
    then have "usable e p w1 a" using g [OF 2(3)] 2 unfolding usable_def by blast
    then have "added e G U p w1 (if allocates_on_device e p then add_device_segment e p w1 a
        else add_host_segment e p w1 a)"
      using add_device_segment_ok [OF ok inv1] add_host_segment_ok [OF ok inv1] by simp
    from added_length [OF this l1] show ?thesis using al ch 2 by (simp add: add_segment_def)
  qed
qed

section \<open>Allocation keeps the invariant\<close>

lemma pool_segment_ok_update:
  assumes "pool_segment_ok e p this seg"
    and "segment_ok e (seg\<lparr>s_freed_stack := fr, s_num_freed := n\<rparr>)"
    and "set (sk_list (ev_stack e) fr) \<subseteq> set (seg_blocks e this seg)"
  shows "pool_segment_ok e p this (seg\<lparr>s_freed_stack := fr, s_num_freed := n\<rparr>)"
  using assms by (simp add: pool_segment_ok_def seg_owned_def freed_blocks_def split: option.splits)

text \<open>Collecting moves every freed block to the free stack and changes nothing else.\<close>

lemma collect_each_ok:
  assumes "stack_ok (ev_stack e)" and "sk_limit (ev_stack e) fs = None"
    and "\<And>i s. (i, s) \<in> set segs \<Longrightarrow> pool_segment_ok e p i s"
  obtains segs' fs' where "collect_each e segs fs = Some (segs', fs')"
    and "map fst segs' = map fst segs"
    and "\<forall>i s. (i, s) \<in> set segs' \<longrightarrow> pool_segment_ok e p i s \<and> freed_blocks e s = []"
    and "mset (sk_list (ev_stack e) fs') = freed_of e (mset segs) + mset (sk_list (ev_stack e) fs)"
    and "freed_of e (mset segs') = {#}" and "blocks_of e (mset segs') = blocks_of e (mset segs)"
    and "backings_of e (mset segs') = backings_of e (mset segs)"
    and "sk_limit (ev_stack e) fs' = None"
proof -
  have "\<exists>segs' fs'. collect_each e segs fs = Some (segs', fs') \<and> map fst segs' = map fst segs
    \<and> (\<forall>x \<in> set segs'. pool_segment_ok e p (fst x) (snd x) \<and> freed_blocks e (snd x) = [])
    \<and> mset (sk_list (ev_stack e) fs') = freed_of e (mset segs) + mset (sk_list (ev_stack e) fs)
    \<and> freed_of e (mset segs') = {#} \<and> blocks_of e (mset segs') = blocks_of e (mset segs)
    \<and> backings_of e (mset segs') = backings_of e (mset segs) \<and> sk_limit (ev_stack e) fs' = None"
    using assms(2,3)
  proof (induction segs arbitrary: fs)
    case Nil
    then show ?case by simp
  next
    case (Cons x segs)
    obtain i seg where x: "x = (i, seg)" by (cases x)
    have ps: "pool_segment_ok e p i seg" using Cons.prems(2) x by simp
    then have "segment_ok e seg" by (simp add: pool_segment_ok_def)
    from collect_ok [OF assms(1) this Cons.prems(1)] obtain fr fs1 where
      c: "collect e seg fs = Some (seg\<lparr>s_freed_stack := fr, s_num_freed := 0\<rparr>, fs1, length (freed_blocks e seg))"
      and so: "segment_ok e (seg\<lparr>s_freed_stack := fr, s_num_freed := 0\<rparr>)"
      and fr: "sk_list (ev_stack e) fr = []"
      and fs1: "sk_list (ev_stack e) fs1 = rev (freed_blocks e seg) @ sk_list (ev_stack e) fs"
        "sk_limit (ev_stack e) fs1 = None" .
    let ?seg = "seg\<lparr>s_freed_stack := fr, s_num_freed := 0\<rparr>"
    have ps': "pool_segment_ok e p i ?seg" using ps so fr by (intro pool_segment_ok_update) simp_all
    have fb: "freed_blocks e ?seg = []" using fr by (simp add: freed_blocks_def)
    have "\<And>j s. (j, s) \<in> set segs \<Longrightarrow> pool_segment_ok e p j s" using Cons.prems(2) by simp
    from Cons.IH [OF fs1(2) this] obtain segs' fs' where ih:
      "collect_each e segs fs1 = Some (segs', fs')" "map fst segs' = map fst segs"
      "\<forall>x \<in> set segs'. pool_segment_ok e p (fst x) (snd x) \<and> freed_blocks e (snd x) = []"
      "mset (sk_list (ev_stack e) fs') = freed_of e (mset segs) + mset (sk_list (ev_stack e) fs1)"
      "freed_of e (mset segs') = {#}" "blocks_of e (mset segs') = blocks_of e (mset segs)"
      "backings_of e (mset segs') = backings_of e (mset segs)" "sk_limit (ev_stack e) fs' = None"
      by blast
    have "collect_each e (x # segs) fs = Some ((i, ?seg) # segs', fs')" using x c ih(1) by simp
    then show ?case
      using ih fs1(1) ps' fb x by (intro exI [of _ "(i, ?seg) # segs'"] exI [of _ fs']) simp
  qed
  then show ?thesis using that by fastforce
qed

lemma pool_inv_pop:
  assumes ok: "env_ok e" and inv: "pool_inv e G p w U" and pop: "sk_pop (ev_stack e) (p_free_stack p) = Some (b, fs)"
  shows "pool_inv e G (p\<lparr>p_free_stack := fs\<rparr>) w (add_mset b U)"
proof -
  let ?p = "p\<lparr>p_free_stack := fs\<rparr>"
  have same: "same_pool ?p p" by simp
  have k: "stack_ok (ev_stack e)" using ok by (simp add: env_ok_def)
  note s = stack_pop_Some [OF k pop]
  have p: "pool_ok e p w U" using inv by (simp add: pool_inv_def)
  have "free_blocks e p = add_mset b (free_blocks e ?p)" using s by (simp add: free_blocks_def)
  then have "free_blocks e ?p + freed_of e (pool_segments ?p) + add_mset b U = blocks_of e (pool_segments ?p)"
    using p by (simp add: pool_ok_def)
  then have "pool_ok e ?p w (add_mset b U)"
    using p s(2) unfolding pool_ok_def pool_config_ok_same [OF same] pool_segment_ok_same [OF same] by simp
  then show ?thesis using inv by (simp add: pool_inv_def pool_backings_def)
qed

text \<open>
  What allocation promises: it returns; a block it hands out was with nobody before; after an
  exception the blocks are where they were, but the mutex stays locked.
\<close>

fun allocated ::
  "('h, 's) env \<Rightarrow> backing multiset \<Rightarrow> 'h block multiset \<Rightarrow> 's pool \<Rightarrow> world \<Rightarrow> ('s, 'h block) result \<Rightarrow> bool" where
  "allocated e G U p w None = False"
| "allocated e G U p w (Some (p', w', Inr b)) =
     (pool_inv e G p' w' (add_mset b U) \<and> same_pool p' p \<and> p_mutex p' = p_mutex p \<and> length w \<le> length w' \<and>
      fresh_ids p' p w)"
| "allocated e G U p w (Some (p', w', Inl f)) =
     (pool_inv e G p' w' U \<and> same_pool p' p \<and> p_mutex p' \<and> length w \<le> length w' \<and> fresh_ids p' p w)"

lemma pool_inv_mutex: "pool_inv e G (p\<lparr>p_mutex := m\<rparr>) w U = pool_inv e G p w U"
  unfolding pool_inv_def pool_ok_def pool_config_ok_same [OF same_pool_update(3)]
    pool_segment_ok_same [OF same_pool_update(3)]
  by (simp add: pool_backings_def free_blocks_def)

text \<open>A segment that was added has blocks, so the loop takes one at its second test at the latest.\<close>

lemma alloc_loop_ok:
  assumes ok: "env_ok e" and inv: "pool_inv e G p w U" and m: "p_mutex p"
  shows "allocated e G U p w (alloc_loop e 0 p w)"
proof (cases "sk_pop (ev_stack e) (p_free_stack p)")
  case (Some x)
  obtain b fs where x: "x = (b, fs)" by (cases x)
  then have "alloc_loop e 0 p w = Some (p\<lparr>p_free_stack := fs\<rparr>, w, Inr b)"
    using Some by (subst alloc_loop.simps) simp
  then show ?thesis using pool_inv_pop [OF ok inv] Some x by simp
next
  case None
  have k: "stack_ok (ev_stack e)" using ok by (simp add: env_ok_def)
  obtain p' w' r where add: "add_segment e p w = Some (p', w', r)"
    and inv': "pool_inv e G p' w' U" and same: "same_pool p' p" and m': "p_mutex p'"
    and l: "length w \<le> length w'" and fi: "fresh_ids p' p w"
    and ne: "r = Inr () \<Longrightarrow> sk_list (ev_stack e) (p_free_stack p') \<noteq> []"
    using add_segment_ok [OF ok inv] m by (cases "add_segment e p w") auto
  show ?thesis
  proof (cases r)
    case (Inl f)
    then have "alloc_loop e 0 p w = Some (p', w', Inl f)"
      using None add by (subst alloc_loop.simps) simp
    then show ?thesis using inv' same m' l fi by simp
  next
    case (Inr u)
    then obtain b fs where pop: "sk_pop (ev_stack e) (p_free_stack p') = Some (b, fs)"
      using ne stack_pop_None [OF k, of "p_free_stack p'"] by fastforce
    have "alloc_loop e 0 p w = alloc_loop e 1 p' w'"
      using None add Inr by (subst alloc_loop.simps) simp
    also have "\<dots> = Some (p'\<lparr>p_free_stack := fs\<rparr>, w', Inr b)"
      using pop by (subst alloc_loop.simps) simp
    finally show ?thesis
      using pool_inv_pop [OF ok inv' pop] same_pool_trans [OF same_pool_update(1) same] m m' l fi by simp
  qed
qed

lemma pool_inv_collect:
  assumes ok: "env_ok e" and inv: "pool_inv e G p w U"
  obtains segs fs where "collect_each e (p_segments p) (p_free_stack p) = Some (segs, fs)"
    and "pool_inv e G (p\<lparr>p_segments := segs, p_free_stack := fs\<rparr>) w U"
    and "mset (sk_list (ev_stack e) fs) = freed_of e (pool_segments p) + free_blocks e p"
    and "map fst segs = map fst (p_segments p)"
proof -
  have p: "pool_ok e p w U" using inv by (simp add: pool_inv_def)
  have "stack_ok (ev_stack e)" "sk_limit (ev_stack e) (p_free_stack p) = None"
    using ok p by (simp_all add: env_ok_def pool_ok_def)
  from collect_each_ok [OF this pool_ok_segmentD [OF p]] obtain segs fs where
    c: "collect_each e (p_segments p) (p_free_stack p) = Some (segs, fs)"
      "map fst segs = map fst (p_segments p)"
      "\<forall>i s. (i, s) \<in> set segs \<longrightarrow> pool_segment_ok e p i s \<and> freed_blocks e s = []"
      "mset (sk_list (ev_stack e) fs) = freed_of e (pool_segments p) + mset (sk_list (ev_stack e) (p_free_stack p))"
      "freed_of e (mset segs) = {#}" "blocks_of e (mset segs) = blocks_of e (pool_segments p)"
      "backings_of e (mset segs) = backings_of e (pool_segments p)" "sk_limit (ev_stack e) fs = None"
    .
  let ?p = "p\<lparr>p_segments := segs, p_free_stack := fs\<rparr>"
  have same: "same_pool ?p p" by (simp add: same_pool_def)
  have ids: "i < length w" if "(i, s) \<in> set segs" for i s
  proof -
    have "i \<in> set (map fst (p_segments p))" using that c(2) by (metis fst_conv image_eqI set_map)
    then show ?thesis using p by (auto simp: pool_ok_def)
  qed
  have "free_blocks e ?p + freed_of e (pool_segments ?p) + U = blocks_of e (pool_segments ?p)"
    using p c by (simp add: pool_ok_def free_blocks_def add_ac)
  then have "pool_ok e ?p w U"
    using p c ids unfolding pool_ok_def pool_config_ok_same [OF same] pool_segment_ok_same [OF same] by simp
  then have "pool_inv e G ?p w U" using inv c(7) by (simp add: pool_inv_def pool_backings_def)
  then show ?thesis using that [of segs fs] c by (simp add: free_blocks_def)
qed

lemma pool_allocate_ok:
  assumes ok: "env_ok e" and inv: "pool_inv e G p w U" and m: "\<not> p_mutex p"
  shows "allocated e G U p w (pool_allocate e p w)"
proof (cases "sk_pop (ev_stack e) (p_free_stack p)")
  case (Some x)
  then show ?thesis using pool_inv_pop [OF ok inv] by (cases x) (simp add: pool_allocate_def)
next
  case None
  obtain segs fs where c: "collect_each e (p_segments p) (p_free_stack p) = Some (segs, fs)"
    and inv1: "pool_inv e G (p\<lparr>p_segments := segs, p_free_stack := fs\<rparr>) w U"
    and ids: "map fst segs = map fst (p_segments p)"
    using pool_inv_collect [OF ok inv] .
  let ?p1 = "p\<lparr>p_segments := segs, p_free_stack := fs\<rparr>"
  have same1: "same_pool ?p1 p" by (simp add: same_pool_def)
  show ?thesis
  proof (cases "sk_pop (ev_stack e) fs")
    case (Some x)
    obtain b fs2 where x: "x = (b, fs2)" by (cases x)
    have "pool_inv e G (p\<lparr>p_segments := segs, p_free_stack := fs2\<rparr>) w (add_mset b U)"
      using pool_inv_pop [OF ok inv1] Some x by simp
    then show ?thesis
      using None m c Some x ids by (simp add: pool_allocate_def same_pool_def fresh_ids_sub)
  next
    case none: None
    let ?p2 = "p\<lparr>p_segments := segs, p_free_stack := fs, p_mutex := True\<rparr>"
    have inv2: "pool_inv e G ?p2 w U" using inv1 pool_inv_mutex [where p = ?p1 and m = True and e = e] by simp
    have same2: "same_pool ?p2 p" by (simp add: same_pool_def)
    obtain p' w' r where loop: "alloc_loop e 0 ?p2 w = Some (p', w', r)"
      using alloc_loop_ok [OF ok inv2] by (cases "alloc_loop e 0 ?p2 w") auto
    note l = alloc_loop_ok [OF ok inv2, unfolded loop, simplified]
    have fi: "fresh_ids p' p w" using l ids fresh_ids_same [of p' ?p2 w p] by (cases r) simp_all
    show ?thesis
    proof (cases r)
      case (Inl f)
      then show ?thesis
        using l None m c none loop same_pool_trans [OF _ same2] fi by (simp add: pool_allocate_def)
    next
      case (Inr b)
      then have "same_pool p' ?p2" using l by simp
      from same_pool_trans [OF this same2] have "same_pool (p'\<lparr>p_mutex := False\<rparr>) p"
        by (rule same_pool_trans [OF same_pool_update(3)])
      then show ?thesis
        using l None m c none loop Inr fi by (simp add: pool_allocate_def pool_inv_mutex)
    qed
  qed
qed

section \<open>Freeing keeps the invariant\<close>

text \<open>One segment of a pool, and the others.\<close>

lemma segment_split:
  assumes "distinct (map fst xs)" and "(i, seg) \<in> set xs"
  obtains M where "mset xs = add_mset (i, seg) M" and "\<forall>x \<in># M. fst x \<noteq> i"
    and "mset (update_segment i seg' xs) = add_mset (i, seg') M"
    and "mset (filter (\<lambda>s. fst s \<noteq> i) xs) = M"
proof -
  obtain ys zs where xs: "xs = ys @ (i, seg) # zs" using assms(2) by (meson split_list)
  have ne: "\<forall>x \<in> set (ys @ zs). fst x \<noteq> i" using assms(1) unfolding xs by auto
  have "map (\<lambda>s. if fst s = i then (i, seg') else s) ls = ls" if "\<forall>x \<in> set ls. fst x \<noteq> i" for ls
    using that by (induction ls) auto
  moreover have "filter (\<lambda>s. fst s \<noteq> i) ls = ls" if "\<forall>x \<in> set ls. fst x \<noteq> i" for ls :: "(_ \<times> 's segment) list"
    using that by (simp add: filter_id_conv)
  ultimately show ?thesis
    using ne by (intro that [of "mset (ys @ zs)"]) (simp_all add: xs update_segment_def)
qed

lemma blocks_of_other: "\<forall>x \<in># M. fst x \<noteq> i \<Longrightarrow> b \<in># blocks_of e M \<Longrightarrow> m_segment b \<noteq> Some i"
  by (induction M) (auto dest: seg_blocks_segment)

lemma freed_of_other:
  "\<forall>x \<in># M. fst x \<noteq> i \<and> pool_segment_ok e p (fst x) (snd x) \<Longrightarrow> b \<in># freed_of e M \<Longrightarrow> m_segment b \<noteq> Some i"
  by (induction M) (auto simp: pool_segment_ok_def dest!: seg_blocks_segment subsetD)

text \<open>
  The blocks of a segment are those freed to it, those of it on the free stack and those of it the
  users hold.
\<close>

lemma segment_share:
  assumes p: "pool_ok e p w U" and s: "(i, seg) \<in> set (p_segments p)"
  shows "mset (freed_blocks e seg) + filter_mset (\<lambda>b. m_segment b = Some i) (free_blocks e p + U)
    = mset (seg_blocks e i seg)"
proof -
  have d: "distinct (map fst (p_segments p))" using p by (simp add: pool_ok_def)
  obtain M where M: "pool_segments p = add_mset (i, seg) M" "\<forall>x \<in># M. fst x \<noteq> i"
    using segment_split [OF d s] .
  let ?F = "filter_mset (\<lambda>b. m_segment b = Some i)"
  have all: "?F (mset (seg_blocks e i seg)) = mset (seg_blocks e i seg)"
    by (auto simp: filter_mset_eq_conv dest: seg_blocks_segment)
  have none: "?F (blocks_of e M) = {#}"
    using blocks_of_other [OF M(2)] by (auto simp: filter_mset_eq_mempty_iff)
  have "\<forall>x \<in># M. fst x \<noteq> i \<and> pool_segment_ok e p (fst x) (snd x)"
    using M pool_ok_segmentD [OF p] by (metis prod.collapse set_mset_mset union_iff add_mset_add_single)
  then have none': "?F (freed_of e M) = {#}"
    using freed_of_other by (fastforce simp: filter_mset_eq_mempty_iff)
  have sub: "set (freed_blocks e seg) \<subseteq> set (seg_blocks e i seg)"
    using pool_ok_segmentD [OF p s] by (simp add: pool_segment_ok_def)
  then have own: "?F (mset (freed_blocks e seg)) = mset (freed_blocks e seg)"
    by (auto simp: filter_mset_eq_conv dest!: seg_blocks_segment)
  have "free_blocks e p + freed_of e (pool_segments p) + U = blocks_of e (pool_segments p)"
    using p by (simp add: pool_ok_def)
  then have "?F (free_blocks e p + (mset (freed_blocks e seg) + freed_of e M) + U)
      = ?F (mset (seg_blocks e i seg) + blocks_of e M)" unfolding M(1) by simp
  then show ?thesis unfolding filter_union_mset all none none' own by (simp add: add_ac)
qed

lemma block_in_pool:
  assumes p: "pool_ok e p w U" and b: "b \<in># free_blocks e p + U"
  obtains i seg where "m_segment b = Some i" and "(i, seg) \<in> set (p_segments p)"
    and "map_of (p_segments p) i = Some seg" and "b \<in> set (seg_blocks e i seg)"
proof -
  have "b \<in># blocks_of e M \<Longrightarrow> \<exists>x \<in># M. b \<in> set (seg_blocks e (fst x) (snd x))" for M
    by (induction M) auto
  moreover have "free_blocks e p + freed_of e (pool_segments p) + U = blocks_of e (pool_segments p)"
    using p by (simp add: pool_ok_def)
  then have "b \<in># blocks_of e (pool_segments p)" using b by (metis union_iff)
  ultimately obtain x where x: "x \<in> set (p_segments p)" "b \<in> set (seg_blocks e (fst x) (snd x))"
    by fastforce
  moreover have "distinct (map fst (p_segments p))" using p by (simp add: pool_ok_def)
  ultimately show ?thesis
    using that [of "fst x" "snd x"] seg_blocks_segment by fastforce
qed

text \<open>The block waits on its segment's stack; that is all, unless the segment is empty now.\<close>

lemma free_to_segment:
  assumes ok: "env_ok e" and inv: "pool_inv e G p w (add_mset b U)"
    and b: "m_segment b = Some i" "(i, seg) \<in> set (p_segments p)" "b \<in> set (seg_blocks e i seg)"
  obtains seg' where "segment_free e seg b = Some seg'" and "seg_backings e seg' = seg_backings e seg"
    and "pool_inv e G (p\<lparr>p_segments := update_segment i seg' (p_segments p)\<rparr>) w U"
    and "pool_segment_ok e p i seg'" and "seg_blocks e i seg' = seg_blocks e i seg"
    and "freed_blocks e seg' = b # freed_blocks e seg"
proof -
  have p: "pool_ok e p w (add_mset b U)" using inv by (simp add: pool_inv_def)
  have ps: "pool_segment_ok e p i seg" using pool_ok_segmentD [OF p b(2)] .
  have k: "stack_ok (ev_stack e)" and so: "segment_ok e seg"
    using ok ps by (simp_all add: env_ok_def pool_segment_ok_def)
  have "mset (freed_blocks e seg) + {#b#} \<subseteq># mset (seg_blocks e i seg)"
    using b(1) unfolding segment_share [OF p b(2), symmetric] by simp
  then have "length (freed_blocks e seg) < unat (s_num_blocks seg)"
    using size_mset_mono by fastforce
  from segment_free_ok [OF k so this, of b] obtain fr where
    sf: "segment_free e seg b = Some (seg\<lparr>s_freed_stack := fr, s_num_freed := s_num_freed seg + 1\<rparr>)"
    and so': "segment_ok e (seg\<lparr>s_freed_stack := fr, s_num_freed := s_num_freed seg + 1\<rparr>)"
    and fr: "sk_list (ev_stack e) fr = b # freed_blocks e seg" .
  let ?s = "seg\<lparr>s_freed_stack := fr, s_num_freed := s_num_freed seg + 1\<rparr>"
  let ?p = "p\<lparr>p_segments := update_segment i ?s (p_segments p)\<rparr>"
  have same: "same_pool ?p p" by simp
  have ps': "pool_segment_ok e p i ?s"
    using pool_segment_ok_update [OF ps so'] ps b(3) fr by (simp add: pool_segment_ok_def)
  have d: "distinct (map fst (p_segments p))" using p by (simp add: pool_ok_def)
  obtain M where M: "pool_segments p = add_mset (i, seg) M"
    "mset (update_segment i ?s (p_segments p)) = add_mset (i, ?s) M"
    using segment_split [OF d b(2)] by metis
  have "map fst (p_segments ?p) = map fst (p_segments p)" by (simp add: update_segment_def)
  then have d': "distinct (map fst (p_segments ?p))" using d by argo
  have el: "j < length w \<and> pool_segment_ok e p j s" if "(j, s) \<in> set (p_segments ?p)" for j s
    using that p ps' b(2) by (auto simp: update_segment_def pool_ok_def split: if_splits)
  have fb: "freed_blocks e ?s = b # freed_blocks e seg" using fr by (simp add: freed_blocks_def)
  have "free_blocks e ?p + freed_of e (pool_segments ?p) + U = blocks_of e (pool_segments ?p)"
    using p M by (simp add: pool_ok_def free_blocks_def fb)
  then have "pool_ok e ?p w U"
    using p d' el unfolding pool_ok_def pool_config_ok_same [OF same] pool_segment_ok_same [OF same] by simp
  moreover have "pool_backings e ?p = pool_backings e p" using M by (simp add: pool_backings_def)
  ultimately have "pool_inv e G ?p w U" using inv by (simp add: pool_inv_def)
  then show ?thesis using that [OF sf] ps' fb by simp
qed

text \<open>An empty segment holds all its blocks, so the rest of the pool does without it.\<close>

lemma erase_segment_ok:
  assumes ok: "env_ok e" and inv: "pool_inv e G p w U" and s: "(i, seg) \<in> set (p_segments p)"
    and empty: "is_empty seg" and er: "erase_segment e p w i = (p', w')"
  shows "pool_inv e G p' w' U" and "same_pool p' p" and "p_mutex p' = p_mutex p"
    and "length w \<le> length w'" and "map fst (p_segments p') = filter (\<lambda>j. j \<noteq> i) (map fst (p_segments p))"
proof -
  have p: "pool_ok e p w U" using inv by (simp add: pool_inv_def)
  have d: "distinct (map fst (p_segments p))" using p by (simp add: pool_ok_def)
  obtain M where M: "pool_segments p = add_mset (i, seg) M"
    "mset (filter (\<lambda>s. fst s \<noteq> i) (p_segments p)) = M"
    using segment_split [OF d s] by metis
  have p': "p' = p\<lparr>p_segments := filter (\<lambda>s. fst s \<noteq> i) (p_segments p)\<rparr>"
    and w': "w' = destroy_segment e w seg"
    using er d s by (auto simp: erase_segment_def)
  show same: "same_pool p' p" and "p_mutex p' = p_mutex p" by (simp_all add: p')
  show ids: "map fst (p_segments p') = filter (\<lambda>j. j \<noteq> i) (map fst (p_segments p))"
    by (simp add: p' filter_map o_def)
  have ps: "pool_segment_ok e p i seg" using pool_ok_segmentD [OF p s] .
  have own: "seg_owned e seg" using ps by (simp add: pool_segment_ok_def)
  have "mem_inv (seg_backings e seg + (backings_of e M + G)) w"
    using inv M by (simp add: pool_inv_def pool_backings_def add_ac)
  note ds = destroy_segment_ok [OF ok own this]
  show l: "length w \<le> length w'" using ds(2) w' by simp
  have so: "segment_ok e seg" using ps by (simp add: pool_segment_ok_def)
  then have "unat (s_num_freed seg) = length (freed_blocks e seg)"
    using unat_less_2p [of "s_num_blocks seg"] unfolding segment_ok_def
    by (metis le_less_trans unat_of_nat_small)
  then have len: "length (freed_blocks e seg) = unat (s_num_blocks seg)"
    using empty by (simp add: is_empty_def)
  have "mset (freed_blocks e seg) \<subseteq># mset (seg_blocks e i seg)"
    unfolding segment_share [OF p s, symmetric] by simp
  then have all: "mset (freed_blocks e seg) = mset (seg_blocks e i seg)"
    using len by (metis length_seg_blocks size_mset mset_subset_size subset_mset.le_imp_less_or_eq less_irrefl)
  have segs: "pool_segments p' = M" using M by (simp add: p')
  have "free_blocks e p' + freed_of e (pool_segments p') + U = blocks_of e (pool_segments p')"
    using p all unfolding segs by (simp add: pool_ok_def M(1) p' free_blocks_def add_ac)
  moreover have "distinct (map fst (p_segments p'))" unfolding ids using d by simp
  moreover have "sk_limit (ev_stack e) (p_free_stack p') = None" using p by (simp add: p' pool_ok_def)
  moreover have "j < length w' \<and> pool_segment_ok e p j s" if "(j, s) \<in> set (p_segments p')" for j s
    using that p l by (fastforce simp: p' pool_ok_def)
  ultimately have "pool_ok e p' w' U"
    using p unfolding pool_ok_def pool_config_ok_same [OF same] pool_segment_ok_same [OF same] by simp
  then show "pool_inv e G p' w' U" using ds(1) segs by (simp add: pool_inv_def pool_backings_def w')
qed

text \<open>A segment is empty when none of its blocks is on the free stack or with a user.\<close>

lemma is_empty_iff:
  assumes p: "pool_ok e p w U" and s: "(i, seg) \<in> set (p_segments p)"
  shows "is_empty seg \<longleftrightarrow> (\<forall>b. b \<in># free_blocks e p + U \<longrightarrow> m_segment b \<noteq> Some i)"
proof -
  let ?F = "filter_mset (\<lambda>b. m_segment b = Some i) (free_blocks e p + U)"
  have so: "segment_ok e seg" using pool_ok_segmentD [OF p s] by (simp add: pool_segment_ok_def)
  have n: "unat (s_num_freed seg) = length (freed_blocks e seg)"
    using so unat_less_2p [of "s_num_blocks seg"] unfolding segment_ok_def
    by (metis le_less_trans unat_of_nat_small)
  have "size (mset (freed_blocks e seg) + ?F) = unat (s_num_blocks seg)"
    unfolding segment_share [OF p s] by simp
  then have "is_empty seg \<longleftrightarrow> size ?F = 0"
    unfolding is_empty_def word_unat_eq_iff [of "s_num_freed seg"] n size_union size_mset by presburger
  then show ?thesis by (auto simp: filter_mset_eq_mempty_iff)
qed

text \<open>What a call to \<open>free\<close> does, once the block is on its segment's stack.\<close>

lemma pool_free_steps:
  assumes ok: "env_ok e" and inv: "pool_inv e G p w (add_mset b U)"
  obtains i seg p1 where "m_segment b = Some i" and "pool_inv e G p1 w U" and "same_pool p1 p"
    and "p_mutex p1 = p_mutex p" and "(i, seg) \<in> set (p_segments p1)"
    and "map fst (p_segments p1) = map fst (p_segments p)" and "p_free_stack p1 = p_free_stack p"
    and "pool_free e p w b =
      (if \<not> p_never_free p \<and> is_empty seg then
         if p_mutex p then Some (p1, w, Inl Deadlock)
         else if unat (p_num_reserve_segments p) < length (p_segments p)
         then Some (release_segment e p1 w i) else Some (p1, w, Inr ())
       else Some (p1, w, Inr ()))"
proof -
  have p: "pool_ok e p w (add_mset b U)" using inv by (simp add: pool_inv_def)
  have "b \<in># free_blocks e p + add_mset b U" by simp
  from block_in_pool [OF p this] obtain i seg where b: "m_segment b = Some i"
    "(i, seg) \<in> set (p_segments p)" "map_of (p_segments p) i = Some seg" "b \<in> set (seg_blocks e i seg)" .
  from free_to_segment [OF ok inv b(1,2,4)] obtain seg' where
    sf: "segment_free e seg b = Some seg'"
    and inv1: "pool_inv e G (p\<lparr>p_segments := update_segment i seg' (p_segments p)\<rparr>) w U" .
  let ?p = "p\<lparr>p_segments := update_segment i seg' (p_segments p)\<rparr>"
  have "(i, seg') \<in> set (p_segments ?p)" using b(2) by (force simp: update_segment_def)
  moreover have "map fst (p_segments ?p) = map fst (p_segments p)" by (simp add: update_segment_def)
  moreover have "length (p_segments ?p) = length (p_segments p)" by (simp add: update_segment_def)
  ultimately show ?thesis
    using that [OF b(1) inv1] b(1,3) sf by (simp add: pool_free_def Let_def)
qed

fun freed ::
  "('h, 's) env \<Rightarrow> backing multiset \<Rightarrow> 'h block multiset \<Rightarrow> 's pool \<Rightarrow> world \<Rightarrow> ('s, unit) result \<Rightarrow> bool" where
  "freed e G U p w None = False"
| "freed e G U p w (Some (p', w', r)) =
     (pool_inv e G p' w' U \<and> same_pool p' p \<and> p_mutex p' = p_mutex p \<and> length w \<le> length w' \<and>
      fresh_ids p' p w \<and> (r \<noteq> Inr () \<longrightarrow> allocates_on_device e p))"

lemma release_segment_ok:
  assumes ok: "env_ok e" and inv: "pool_inv e G p w U" and s: "(i, seg) \<in> set (p_segments p)"
    and empty: "is_empty seg"
  shows "freed e G U p w (Some (release_segment e p w i))"
proof (cases "allocates_on_device e p")
  case False
  obtain p' w' where er: "erase_segment e p w i = (p', w')" by (cases "erase_segment e p w i")
  show ?thesis
    using erase_segment_ok [OF ok inv s empty er] False er fresh_ids_sub [of p' p w]
    by (simp add: release_segment_def filter_is_subset)
next
  case True
  show ?thesis
  proof (cases "get_device_id (ev_device e) w")
    case (Inl f)
    then show ?thesis using inv True by (simp add: release_segment_def)
  next
    case (Inr tmp)
    obtain w1 r1 where set1: "set_device_id (ev_device e) w (p_device_id p) = (w1, r1)"
      by (cases "set_device_id (ev_device e) w (p_device_id p)")
    note q1 = set_device_id_quiet [OF set1]
    have inv1: "pool_inv e G p w1 U" using inv q1 by (rule pool_inv_quiet)
    obtain p' w2 where er: "erase_segment e p w1 i = (p', w2)" by (cases "erase_segment e p w1 i")
    note o = erase_segment_ok [OF ok inv1 s empty er]
    obtain w3 r3 where set3: "set_device_id (ev_device e) w2 tmp = (w3, r3)"
      by (cases "set_device_id (ev_device e) w2 tmp")
    note q3 = set_device_id_quiet [OF set3]
    have "pool_inv e G p' w3 U" using o(1) q3 by (rule pool_inv_quiet)
    moreover have "length w \<le> length w1" "length w \<le> length w3"
      using quiet_length [OF q1] quiet_length [OF q3] o(4) by simp_all
    moreover have "fresh_ids p' p w" by (rule fresh_ids_sub) (simp add: o(5))
    ultimately show ?thesis
      using True Inr set1 er set3 inv1 o(2,3) by (cases r1) (simp_all add: release_segment_def)
  qed
qed

lemma pool_free_ok:
  assumes ok: "env_ok e" and inv: "pool_inv e G p w (add_mset b U)" and m: "\<not> p_mutex p"
  shows "freed e G U p w (pool_free e p w b)"
proof -
  obtain i seg p1 where "m_segment b = Some i" and inv1: "pool_inv e G p1 w U" and same: "same_pool p1 p"
    and m1: "p_mutex p1 = p_mutex p" and s: "(i, seg) \<in> set (p_segments p1)"
    and ids: "map fst (p_segments p1) = map fst (p_segments p)" and eq: "pool_free e p w b =
      (if \<not> p_never_free p \<and> is_empty seg then
         if p_mutex p then Some (p1, w, Inl Deadlock)
         else if unat (p_num_reserve_segments p) < length (p_segments p)
         then Some (release_segment e p1 w i) else Some (p1, w, Inr ())
       else Some (p1, w, Inr ()))"
    using pool_free_steps [OF ok inv] by metis
  have "freed e G U p w (Some (release_segment e p1 w i))" if "is_empty seg"
    using release_segment_ok [OF ok inv1 s that] m1 same_pool_trans [OF _ same] same_poolD(8) [OF same]
      fresh_ids_same [OF _ ids]
    by (cases "release_segment e p1 w i") (auto simp: allocates_on_device_def)
  then show ?thesis using m inv1 same m1 ids unfolding eq by (simp add: fresh_ids_sub)
qed

section \<open>A new pool\<close>

lemma make_pool_ok:
  assumes ok: "env_ok e" and "make_pool e self bs ss node nf rs = Inr p" and "mem_inv G w"
    and "bs \<le> ss" and "unat ss + unat (page_size (ev_numa e)) \<le> 2 ^ 64"
  shows "pool_inv e G p w {#}" and "\<not> p_mutex p" and "p_self p = self"
proof -
  have k: "stack_ok (ev_stack e)" using ok by (simp add: env_ok_def)
  have bs: "bs \<noteq> 0" using assms(2) by (auto simp: make_pool_def)
  then have p: "p = \<lparr>p_self = self, p_block_size = bs, p_segment_size = ss, p_numa_node = node,
      p_never_free = nf, p_num_reserve_segments = max rs 1,
      p_free_stack = sk_make (ev_stack e) False (unat (ss div bs)), p_segments = [], p_mutex = False,
      p_device_id = 0, p_allocate_on_device = False\<rparr>"
    using assms(2) by (simp add: make_pool_def)
  show "\<not> p_mutex p" "p_self p = self" by (simp_all add: p)
  show "pool_inv e G p w {#}"
    using assms(3-5) bs stack_make [OF k]
    by (simp add: pool_inv_def pool_ok_def pool_config_ok_def pool_backings_def free_blocks_def p)
qed

lemma make_device_pool_ok:
  assumes ok: "env_ok e" and "make_device_pool e self bs ss node d nf rs = Inr p" and "mem_inv G w"
    and "bs \<le> ss" and "unat ss + unat (page_size (ev_numa e)) \<le> 2 ^ 64"
  shows "pool_inv e G p w {#}" and "\<not> p_mutex p" and "p_self p = self"
proof -
  obtain q where q: "make_pool e self bs ss node nf rs = Inr q"
    and p: "p = q\<lparr>p_device_id := d, p_allocate_on_device := True\<rparr>"
    using assms(2) by (auto simp: make_device_pool_def bindE_eq_Inr)
  note o = make_pool_ok [OF ok q assms(3-5)]
  have "p_segments q = []" using q by (auto simp: make_pool_def split: if_splits)
  then show "pool_inv e G p w {#}"
    using o(1) by (simp add: p pool_inv_def pool_ok_def pool_config_ok_def pool_backings_def free_blocks_def)
  show "\<not> p_mutex p" "p_self p = self" using o p by simp_all
qed

section \<open>Blocks do not overlap\<close>

text \<open>The memory of a block: within a live allocation, under a registration that covers it.\<close>

definition backed :: "world \<Rightarrow> u64 \<Rightarrow> nat \<Rightarrow> bool" where
  "backed w p n \<longleftrightarrow> p \<noteq> 0 \<and>
     list_ex (\<lambda>(k, q, m). k \<noteq> Gpu_Memory \<and> unat q \<le> unat p \<and> unat p + n \<le> unat q + m) (live w) \<and>
     list_ex (\<lambda>r. \<not> rg_gpu r \<and> unat (rg_ptr r) \<le> unat p \<and> unat p + n \<le> unat (rg_ptr r) + unat (rg_size r)) (regs w)"

lemma blocks_of_elem:
  "b \<in># blocks_of e S \<Longrightarrow> \<exists>i s S'. S = add_mset (i, s) S' \<and> b \<in> set (seg_blocks e i s)"
proof (induction S)
  case empty
  then show ?case by simp
next
  case (add x S)
  show ?case
  proof (cases "b \<in> set (seg_blocks e (fst x) (snd x))")
    case True
    then show ?thesis by (metis prod.collapse)
  next
    case False
    then have "b \<in># blocks_of e S" using add.prems by simp
    from add.IH [OF this] obtain i s S' where "S = add_mset (i, s) S'" "b \<in> set (seg_blocks e i s)" by blast
    then show ?thesis by (metis add_mset_commute)
  qed
qed

lemma host_backing: "(a_kind (s_allocation s), a_ptr (s_allocation s), unat (a_size (s_allocation s)), s_region s)
    \<in># seg_backings e s"
  by (simp add: seg_backings_def split: option.splits)

lemma host_backing_bound:
  assumes "mem_inv (backings_of e S + G) w" and "(i, s) \<in># S"
  shows "(a_kind (s_allocation s), a_ptr (s_allocation s), unat (a_size (s_allocation s)), s_region s)
      \<in># backings_of e S + G"
    and "unat (a_ptr (s_allocation s)) + unat (a_size (s_allocation s)) \<le> 2 ^ 64"
proof -
  obtain S' where "S = add_mset (i, s) S'" using assms(2) by (metis multi_member_split)
  then show b: "(a_kind (s_allocation s), a_ptr (s_allocation s), unat (a_size (s_allocation s)), s_region s)
      \<in># backings_of e S + G" using host_backing [of s e] by simp
  show "unat (a_ptr (s_allocation s)) + unat (a_size (s_allocation s)) \<le> 2 ^ 64"
    using live_ok_bound(2) [OF mem_inv_live_ok [OF assms(1)] mem_inv_liveD [OF assms(1) b]] .
qed

lemma in_seg_blocks:
  assumes "b \<in> set (seg_blocks e i s)"
  obtains j where "j < unat (s_num_blocks s)" and "b = seg_block e i s j"
  using assms by (auto simp: seg_blocks_def)

lemma block_backed:
  assumes inv: "mem_inv (backings_of e S + G) w" and s: "(i, s) \<in># S" and ok: "segment_ok e s" "seg_owned e s"
    and b: "b \<in> set (seg_blocks e i s)"
  shows "backed w (m_ptr b) (unat (s_block_size s))"
proof -
  let ?a = "s_allocation s"
  note h = host_backing_bound [OF inv s]
  obtain j where j: "j < unat (s_num_blocks s)" "b = seg_block e i s j" using in_seg_blocks [OF b] .
  note r = seg_block_range [OF ok(1) j(1) h(2)]
  have l: "(a_kind ?a, a_ptr ?a, unat (a_size ?a)) \<in> set (live w)" using mem_inv_liveD [OF inv h(1)] .
  have "a_ptr ?a \<noteq> 0" using live_ok_bound(1) [OF mem_inv_live_ok [OF inv] l] .
  then have "0 < unat (m_ptr b)" using r(1) [of i] j(2) by (simp add: unat_gt_0 trans_less_add1)
  then have "m_ptr b \<noteq> 0" by (auto simp: unat_gt_0)
  moreover have "a_kind ?a \<noteq> Gpu_Memory" by (simp add: a_kind_def)
  moreover have "\<not> rg_gpu (s_region s)"
    using mem_inv_insideD [OF inv h(1)] by (simp add: region_inside_def a_kind_def)
  moreover have "s_region s \<in> set (regs w)" using mem_inv_regsD [OF inv h(1)] .
  moreover have "rg_ptr (s_region s) = a_ptr ?a" "rg_size (s_region s) = a_size ?a"
    using ok(2) by (simp_all add: seg_owned_def)
  ultimately have "list_ex (\<lambda>r. \<not> rg_gpu r \<and> unat (rg_ptr r) \<le> unat (m_ptr b) \<and>
      unat (m_ptr b) + unat (s_block_size s) \<le> unat (rg_ptr r) + unat (rg_size r)) (regs w)"
    using r(1) [of i] r(2) j(2) unfolding list_ex_iff by (intro bexI [of _ "s_region s"]) simp_all
  moreover have "list_ex (\<lambda>(k, q, m). k \<noteq> Gpu_Memory \<and> unat q \<le> unat (m_ptr b) \<and>
      unat (m_ptr b) + unat (s_block_size s) \<le> unat q + m) (live w)"
    using r(1) [of i] r(2) j(2) unfolding list_ex_iff by (intro bexI [OF _ l]) (simp add: a_kind_def)
  ultimately show ?thesis using \<open>m_ptr b \<noteq> 0\<close> by (simp add: backed_def)
qed

lemma apart_within:
  assumes "apart p n q m" and "unat p \<le> unat p'" and "unat p' + n' \<le> unat p + n"
    and "unat q \<le> unat q'" and "unat q' + m' \<le> unat q + m"
  shows "apart p' n' q' m'"
  using assms unfolding apart_def by linarith

text \<open>Two blocks, of one segment or of two, never share memory.\<close>

lemma blocks_apart:
  assumes inv: "mem_inv (backings_of e S + G) w"
    and all: "\<forall>i s. (i, s) \<in># S \<longrightarrow> segment_ok e s"
    and two: "{#b, c#} \<subseteq># blocks_of e S"
  obtains i s j t where "(i, s) \<in># S" and "b \<in> set (seg_blocks e i s)"
    and "(j, t) \<in># S" and "c \<in> set (seg_blocks e j t)"
    and "apart (m_ptr b) (unat (s_block_size s)) (m_ptr c) (unat (s_block_size t))"
proof -
  note ok = all [rule_format]
  have "b \<in># blocks_of e S" using mset_subset_eqD [OF two] by simp
  then obtain i s S' where S: "S = add_mset (i, s) S'" and b: "b \<in> set (seg_blocks e i s)"
    using blocks_of_elem by blast
  have si: "(i, s) \<in># S" using S by simp
  obtain x where x: "x < unat (s_num_blocks s)" "b = seg_block e i s x" using in_seg_blocks [OF b] .
  note hs = host_backing_bound [OF inv si]
  have c: "c \<in># (mset (seg_blocks e i s) - {#b#}) + blocks_of e S'"
    using two b unfolding S of_simps by (simp add: insert_subset_eq_iff)
  show ?thesis
  proof (cases "c \<in># blocks_of e S'")
    case True
    then obtain j t S'' where S': "S' = add_mset (j, t) S''" and cb: "c \<in> set (seg_blocks e j t)"
      using blocks_of_elem by blast
    have jt: "(j, t) \<in># S" using S S' by simp
    obtain y where y: "y < unat (s_num_blocks t)" "c = seg_block e j t y" using in_seg_blocks [OF cb] .
    note ht = host_backing_bound [OF inv jt]
    let ?bk = "\<lambda>s. (a_kind (s_allocation s), a_ptr (s_allocation s), unat (a_size (s_allocation s)), s_region s)"
    obtain X Y where "seg_backings e s = add_mset (?bk s) X" "seg_backings e t = add_mset (?bk t) Y"
      using host_backing [of s e] host_backing [of t e] by (meson multi_member_split)
    then have "{#?bk s, ?bk t#} \<subseteq># backings_of e S + G" by (simp add: S S')
    then have "apart (a_ptr (s_allocation s)) (unat (a_size (s_allocation s)))
        (a_ptr (s_allocation t)) (unat (a_size (s_allocation t)))"
      by (rule mem_inv_apart [OF inv]) (simp add: same_space_def a_kind_def)
    then have "apart (m_ptr b) (unat (s_block_size s)) (m_ptr c) (unat (s_block_size t))"
      using seg_block_range(1) [OF ok [OF si] x(1) hs(2), of i] seg_block_range(2) [OF ok [OF si] x(1) hs(2)]
        seg_block_range(1) [OF ok [OF jt] y(1) ht(2), of j] seg_block_range(2) [OF ok [OF jt] y(1) ht(2)]
      unfolding x(2) y(2) by (elim apart_within) simp_all
    then show ?thesis using that [OF si b jt cb] by blast
  next
    case False
    then have cm: "c \<in># mset (seg_blocks e i s) - {#b#}" using c by simp
    then have cb: "c \<in> set (seg_blocks e i s)" by (metis in_diffD set_mset_mset)
    have "distinct (seg_blocks e i s)" by (rule distinct_seg_blocks [OF ok [OF si] hs(2)])
    then have ne: "c \<noteq> b" using cm by (simp add: set_remove1_eq flip: mset_remove1)
    obtain y where y: "y < unat (s_num_blocks s)" "c = seg_block e i s y" using in_seg_blocks [OF cb] .
    have "x \<noteq> y" using ne x y by blast
    then have "apart (m_ptr b) (unat (s_block_size s)) (m_ptr c) (unat (s_block_size s))"
      unfolding x(2) y(2) by (rule seg_blocks_apart [OF ok [OF si] x(1) y(1) _ hs(2)])
    then show ?thesis using that [OF si b si cb] by blast
  qed
qed

section \<open>Destruction\<close>

lemma destroy_segments_ok:
  assumes "env_ok e" and "\<forall>(i, s) \<in> set segs. seg_owned e s" and "mem_inv (backings_of e (mset segs) + G) w"
  shows "mem_inv G (fold (\<lambda>s w. destroy_segment e w (snd s)) segs w)"
  using assms(2,3)
proof (induction segs arbitrary: w)
  case Nil
  then show ?case by simp
next
  case (Cons s segs)
  obtain i seg where s: "s = (i, seg)" by (cases s)
  have "mem_inv (seg_backings e seg + (backings_of e (mset segs) + G)) w" using Cons.prems(2) s by (simp add: add_ac)
  from destroy_segment_ok(1) [OF assms(1) _ this] show ?case using Cons s by simp
qed

end
