(* ===== verification/Example_Env.thy ===== *)
theory Example_Env
  imports Pool_Invariant
begin

text \<open>
  A concrete environment the properties are applied to: stacks are lists, memory comes from the
  machine of \<open>bump_env\<close>, registration always succeeds, and a handle is the address it stands for.
  The device version emulates one device.
\<close>

type_synonym 'e list_stack = "'e list \<times> nat option"

definition list_stack_ops :: "('e, 'e list_stack) stack_ops" where
  "list_stack_ops =
     \<lparr>sk_make = (\<lambda>fixed n. ([], if fixed then Some n else None)),
      sk_push = (\<lambda>x s. case snd s of
          None \<Rightarrow> (True, (x # fst s, None))
        | Some n \<Rightarrow> if length (fst s) < n then (True, (x # fst s, Some n)) else (False, s)),
      sk_pop = (\<lambda>s. case fst s of [] \<Rightarrow> None | x # xs \<Rightarrow> Some (x, (xs, snd s))),
      sk_consume_all = (\<lambda>s. (fst s, ([], snd s))),
      sk_list = fst,
      sk_limit = snd\<rparr>"

lemma list_stack_ops_ok: "stack_ok list_stack_ops"
  by (auto simp: stack_ok_def list_stack_ops_def split: option.splits)

definition example_transport :: "u64 transport" where
  "example_transport = \<lparr>cx_register = (\<lambda>_ _ _. None), cx_register_device = None,
     cx_get_handle = (\<lambda>r offset size. rg_ptr r + offset), cx_default_handle = 0\<rparr>"

type_synonym example_stack = "u64 block list_stack"

definition example_env :: "(u64, example_stack) env" where
  "example_env = \<lparr>ev_numa = bump_env, ev_device = \<lparr>de_os = bump_os, de_runtime = No_Device\<rparr>,
     ev_enable_device = False, ev_context = example_transport, ev_stack = list_stack_ops,
     ev_map_order = (\<lambda>_ xs. xs), ev_host_first = True\<rparr>"

definition example_device_env :: "(u64, example_stack) env" where
  "example_device_env =
     example_env\<lparr>ev_device := \<lparr>de_os = bump_os, de_runtime = Emulate\<rparr>, ev_enable_device := True\<rparr>"

text \<open>A transport that refuses to register.\<close>

definition refusing_env :: "(u64, example_stack) env" where
  "refusing_env =
     example_env\<lparr>ev_context := example_transport\<lparr>cx_register := (\<lambda>_ _ _. Some (Runtime_Error ''refused''))\<rparr>\<rparr>"

lemma example_env_ok: "env_ok example_env"
  by (simp add: env_ok_def example_env_def bump_env_ok list_stack_ops_ok)

lemma example_device_env_ok: "env_ok example_device_env"
  by (simp add: env_ok_def example_device_env_def example_env_def bump_env_ok list_stack_ops_ok
      device_ok_def bump_os_ok)

lemma refusing_env_ok: "env_ok refusing_env"
  by (simp add: env_ok_def refusing_env_def example_env_def bump_env_ok list_stack_ops_ok)

text \<open>A pool with two blocks to a segment.\<close>

definition example_pool :: "example_stack pool" where
  "example_pool = \<lparr>p_self = 0, p_block_size = 2048, p_segment_size = 4096, p_numa_node = 0,
     p_never_free = False, p_num_reserve_segments = 1, p_free_stack = ([], None), p_segments = [],
     p_mutex = False, p_device_id = 0, p_allocate_on_device = False\<rparr>"

lemma make_example_pool:
  "make_pool example_env 0 2048 4096 0 False 1 = Inr example_pool"
  "make_pool refusing_env 0 2048 4096 0 False 1 = Inr example_pool"
  by (simp_all add: make_pool_def example_env_def refusing_env_def list_stack_ops_def example_pool_def)

lemma example_page_size: "page_size (ev_numa example_env) = 4096" "page_size (ev_numa refusing_env) = 4096"
  by (simp_all add: page_size_def example_env_def refusing_env_def bump_env_def bump_os_def)

lemma example_pool_inv: "pool_inv example_env {#} example_pool [] {#}"
  by (rule make_pool_ok(1) [OF example_env_ok make_example_pool(1)]) (simp_all add: example_page_size)

lemma refusing_pool_inv: "pool_inv refusing_env {#} example_pool [] {#}"
  by (rule make_pool_ok(1) [OF refusing_env_ok make_example_pool(2)]) (simp_all add: example_page_size)

lemma example_pool_unlocked [simp]: "\<not> p_mutex example_pool"
  by (simp add: example_pool_def)

section \<open>The example pool at work\<close>

named_theorems example \<open>evaluation of the example environment\<close>

lemma example_num_pages [example]: "num_pages bump_env 4096 = 1"
  by (simp add: num_pages_def page_size_def bump_env_def bump_os_def)

lemma task_nodes_two_cpus: "task_nodes two_cpus = [0, 0]"
  by (simp add: task_nodes_def two_cpus_def numeral_2_eq_2)

lemma bump_local_nodes: "local_nodes bump_env = make_node_map [0]"
  by (simp add: local_nodes_def bump_env_def libnuma_make_numa_tools_def libnuma_discover_nodes_def
      task_nodes_two_cpus Let_def) (simp add: two_cpus_def)

lemma bump_allocate [example]: "numa_allocate bump_env [] 1 0 =
    ([Alloc Numa_Memory 4112 4096], Inr \<lparr>a_ptr = 4112, a_size = 4096, a_node = 0, a_use_numa_free = True\<rparr>)"
proof -
  have n: "can_allocate_on bump_env 0"
    by (simp add: can_allocate_on_def bump_local_nodes make_node_map_def node_map_count_def
        upper_bound_key_def node_map_size_def Let_def)
  have "bump [] 4096 = 4112" by (simp add: bump_def top_address_def)
  then show ?thesis
    using n by (simp add: numa_allocate_def bump_env_def bump_os_def libnuma_allocate_def
        libnuma_allocate_onnode_def page_size_def Let_def)
qed

lemma push_spin_list [example]: "push_spin list_stack_ops x (xs, None) = Some (x # xs, None)"
  by (subst push_spin.simps) (simp add: list_stack_ops_def)

lemma push_two [example]: "push_blocks list_stack_ops f 2 (xs, None) = Some (f 0 # f 1 # xs, None)"
  by (simp add: numeral_2_eq_2 push_spin_list)

text \<open>The first allocation takes a segment of two blocks; the second block stays on the free stack.\<close>

lemma example_allocate:
  "case pool_allocate example_env example_pool [] of
     Some (p, w, Inr b) \<Rightarrow> m_ptr b = 4112 \<and> m_segment b = Some 2 \<and> map m_ptr (fst (p_free_stack p)) = [6160]
       \<and> length (p_segments p) = 1 \<and> \<not> p_mutex p
   | _ \<Rightarrow> False"
proof -
  have pop: "sk_pop (ev_stack example_env) (xs, None) = (case xs of [] \<Rightarrow> None | x # ys \<Rightarrow> Some (x, ys, None))" for xs
    by (simp add: example_env_def list_stack_ops_def split: list.split)
  show ?thesis
    apply (simp add: pool_allocate_def example_pool_def pop)
    apply (subst alloc_loop.simps)
    apply (simp add: pop)
    apply (simp add: add_segment_def example_env_def example check_allocation_def a_valid_def
        allocates_on_device_def add_host_segment_def register_memory_def add_region_def
        example_transport_def Let_def make_segment_def host_block_def insert_segment_def)
    apply (subst alloc_loop.simps)
    apply (simp add: list_stack_ops_def)
    done
qed

text \<open>A registration that throws leaves the mutex locked.\<close>

lemma refusing_allocate:
  "pool_allocate refusing_env example_pool [] =
     Some (example_pool\<lparr>p_mutex := True\<rparr>, [Register_Failed, Alloc Numa_Memory 4112 4096],
           Inl (Runtime_Error ''refused''))"
proof -
  have pop: "sk_pop (ev_stack refusing_env) ([], None) = None"
    by (simp add: refusing_env_def example_env_def list_stack_ops_def)
  show ?thesis
    apply (simp add: pool_allocate_def example_pool_def pop)
    apply (subst alloc_loop.simps)
    apply (simp add: pop)
    apply (simp add: add_segment_def refusing_env_def example_env_def example check_allocation_def a_valid_def
        allocates_on_device_def add_host_segment_def register_memory_def add_region_def
        example_transport_def)
    done
qed

lemma example_held:
  obtains p w b where "pool_allocate example_env example_pool [] = Some (p, w, Inr b)"
    and "pool_inv example_env {#} p w {#b#}" and "\<not> p_mutex p" and "\<not> allocates_on_device example_env p"
    and "free_blocks example_env p \<noteq> {#}" and "m_segment b = Some 2" and "m_ptr b = 4112"
proof -
  obtain p w r where al0: "pool_allocate example_env example_pool [] = Some (p, w, r)"
    using example_allocate by (auto split: option.splits)
  then obtain b where al: "pool_allocate example_env example_pool [] = Some (p, w, Inr b)"
    using example_allocate by (cases r) simp_all
  then have b: "m_ptr b = 4112" "m_segment b = Some 2" "map m_ptr (fst (p_free_stack p)) = [6160]" "\<not> p_mutex p"
    using example_allocate by simp_all
  have "pool_inv example_env {#} p w {#b#}"
    using pool_allocate_ok [OF example_env_ok example_pool_inv example_pool_unlocked] unfolding al by simp
  moreover have "free_blocks example_env p \<noteq> {#}"
    using b(3) by (auto simp: free_blocks_def example_env_def list_stack_ops_def)
  moreover have "\<not> allocates_on_device example_env p"
    by (simp add: allocates_on_device_def example_env_def)
  ultimately show ?thesis using that al b by blast
qed

end
