(* ===== verification/Memory_Balance.thy ===== *)
theory Memory_Balance
  imports Pool_Invariant
begin

text \<open>
  The other half of the memory invariant: nothing is live or registered but what somebody owns.
  Adding a segment and destroying one keep the balance, unless they throw.
\<close>

section \<open>Balance\<close>

definition memory_of :: "backing \<Rightarrow> allocation_range" where
  "memory_of = (\<lambda>(k, p, n, r). (k, p, n))"

lemma memory_of_simp [simp]: "memory_of (k, p, n, r) = (k, p, n)"
  by (simp add: memory_of_def)

definition balanced :: "backing multiset \<Rightarrow> world \<Rightarrow> bool" where
  "balanced B w \<longleftrightarrow> set (live w) \<subseteq> memory_of ` set_mset B \<and> mset (regs w) \<subseteq># image_mset backing_region B"

lemma balanced_new [simp]: "balanced B []"
  by (simp add: balanced_def)

lemma balanced_empty: "balanced {#} w \<longleftrightarrow> live w = [] \<and> regs w = []"
  by (auto simp: balanced_def)

lemma balanced_same: "balanced B w \<Longrightarrow> live w' = live w \<Longrightarrow> regs w' = regs w \<Longrightarrow> balanced B w'"
  by (simp add: balanced_def)

lemma balanced_quiet: "balanced B w \<Longrightarrow> quiet w' w \<Longrightarrow> balanced B w'"
  by (simp add: balanced_def quiet_def)

lemma balanced_gain:
  assumes "balanced B w" and "live w' = map memory_of bs @ live w"
    and "mset (regs w') = image_mset backing_region (mset bs) + mset (regs w)"
  shows "balanced (mset bs + B) w'"
  using assms by (auto simp: balanced_def)

lemma balanced_lose:
  assumes "balanced (add_mset (k, p, n, r) B) w"
  shows "balanced B (Dealloc k p # Deregister r # w)"
proof -
  have "mset (regs w) - {#r#} \<subseteq># image_mset backing_region B"
    using assms by (simp add: balanced_def subset_eq_diff_conv)
  then show ?thesis using assms by (auto simp: balanced_def)
qed

lemma destroy_segment_balanced:
  assumes "env_ok e" and "seg_owned e seg" and "balanced (seg_backings e seg + B) w"
  shows "balanced B (destroy_segment e w seg)"
proof -
  let ?a = "s_allocation seg" and ?n = "unat (a_size (s_allocation seg))"
  have f: "numa_free (ev_numa e) v ?a = Dealloc (a_kind ?a) (a_ptr ?a) # v" for v
    using assms(2) by (intro numa.release_owned) (simp_all add: seg_owned_def)
  show ?thesis
  proof (cases "s_device_region seg")
    case None
    then show ?thesis
      using assms(2,3) by (simp add: destroy_segment_def f seg_owned_def seg_backings_def balanced_lose)
  next
    case (Some dr)
    let ?k = "device_kind (ev_device e)" and ?p = "s_device_allocation seg"
    have d: "device_ok (ev_device e)" using assms(1,2) Some by (simp add: env_ok_def seg_owned_def)
    have p: "?p \<noteq> 0" using assms(2) Some by (simp add: seg_owned_def)
    have "balanced (add_mset (?k, ?p, ?n, dr) (add_mset (a_kind ?a, a_ptr ?a, ?n, s_region seg) B)) w"
      using assms(3) Some by (simp add: seg_backings_def add_mset_commute)
    note balanced_lose [OF balanced_lose [OF this]]
    then show ?thesis
      using Some p device.dfree_live [OF d p] by (simp add: destroy_segment_def f)
  qed
qed

text \<open>Exactly the memory of the segment goes.\<close>

lemma destroy_segment_live:
  assumes "env_ok e" and "seg_owned e seg" and "mem_inv (seg_backings e seg + B) w"
  shows "live (destroy_segment e w seg) = filter (\<lambda>r. r \<notin> memory_of ` set_mset (seg_backings e seg)) (live w)"
    and "mset (regs (destroy_segment e w seg)) = mset (regs w) - image_mset backing_region (seg_backings e seg)"
proof -
  let ?a = "s_allocation seg" and ?n = "unat (a_size (s_allocation seg))"
  have f: "numa_free (ev_numa e) v ?a = Dealloc (a_kind ?a) (a_ptr ?a) # v" for v
    using assms(2) by (intro numa.release_owned) (simp_all add: seg_owned_def)
  have key: "fst r = k \<and> fst (snd r) = p \<longleftrightarrow> r = (k, p, n)" if "(k, p, n) \<in> set (live w)" "r \<in> set (live w)" for k p n r
    using live_okD(1) [OF mem_inv_live_ok [OF assms(3)] that(1), of "fst r" "fst (snd r)" "snd (snd r)"] that
    by (cases r) (auto simp: same_space_def)
  have drop: "filter (\<lambda>r. \<not> (fst r = k \<and> fst (snd r) = p)) xs = filter (\<lambda>r. r \<noteq> (k, p, n)) xs"
    if "(k, p, n) \<in> set (live w)" "set xs \<subseteq> set (live w)" for k p n xs
    using key [OF that(1)] that(2) by (intro filter_cong) auto
  have h: "(a_kind ?a, a_ptr ?a, ?n) \<in> set (live w)"
    using mem_inv_liveD [OF assms(3), of "a_kind ?a" "a_ptr ?a" ?n "s_region seg"]
    by (simp add: seg_backings_def split: option.splits)
  have "live (destroy_segment e w seg) = filter (\<lambda>r. r \<notin> memory_of ` set_mset (seg_backings e seg)) (live w)
    \<and> mset (regs (destroy_segment e w seg)) = mset (regs w) - image_mset backing_region (seg_backings e seg)"
  proof (cases "s_device_region seg")
    case None
    then show ?thesis
      using assms(2) drop [OF h] by (simp add: destroy_segment_def f seg_owned_def seg_backings_def)
  next
    case (Some dr)
    let ?k = "device_kind (ev_device e)" and ?p = "s_device_allocation seg"
    have d: "device_ok (ev_device e)" using assms(1,2) Some by (simp add: env_ok_def seg_owned_def)
    have p: "?p \<noteq> 0" using assms(2) Some by (simp add: seg_owned_def)
    have h2: "(?k, ?p, ?n) \<in> set (live w)"
      using mem_inv_liveD [OF assms(3), of ?k ?p ?n dr] Some by (simp add: seg_backings_def)
    have "destroy_segment e w seg
        = Dealloc (a_kind ?a) (a_ptr ?a) # Deregister (s_region seg) # Dealloc ?k ?p # Deregister dr # w"
      using Some p device.dfree_live [OF d p] by (simp add: destroy_segment_def f)
    moreover from this have "live (destroy_segment e w seg)
        = filter (\<lambda>r. r \<noteq> (a_kind ?a, a_ptr ?a, ?n)) (filter (\<lambda>r. r \<noteq> (?k, ?p, ?n)) (live w))"
      using drop [OF h2, of "live w"] drop [OF h, of "filter (\<lambda>r. r \<noteq> (?k, ?p, ?n)) (live w)"] by auto
    ultimately show ?thesis using Some by (simp add: seg_backings_def conj_commute add_mset_commute)
  qed
  then show "live (destroy_segment e w seg) = filter (\<lambda>r. r \<notin> memory_of ` set_mset (seg_backings e seg)) (live w)"
    and "mset (regs (destroy_segment e w seg)) = mset (regs w) - image_mset backing_region (seg_backings e seg)"
    by blast+
qed

lemma destroy_segments_live:
  assumes "env_ok e" and "\<forall>(i, s) \<in> set segs. seg_owned e s" and "mem_inv (backings_of e (mset segs) + G) w"
  shows "live (fold (\<lambda>s w. destroy_segment e w (snd s)) segs w)
      = filter (\<lambda>r. r \<notin> memory_of ` set_mset (backings_of e (mset segs))) (live w)
    \<and> mset (regs (fold (\<lambda>s w. destroy_segment e w (snd s)) segs w))
      = mset (regs w) - image_mset backing_region (backings_of e (mset segs))"
  using assms(2,3)
proof (induction segs arbitrary: w)
  case (Cons s segs)
  obtain i seg where s: "s = (i, seg)" by (cases s)
  have m: "mem_inv (seg_backings e seg + (backings_of e (mset segs) + G)) w" and o: "seg_owned e seg"
    using Cons.prems s by (simp_all add: add_ac)
  note d = destroy_segment_live [OF assms(1) o m] and ok = destroy_segment_ok(1) [OF assms(1) o m]
  have "\<forall>(i, s) \<in> set segs. seg_owned e s" using Cons.prems(1) by simp
  from Cons.IH [OF this ok] show ?case
    using s d by (simp add: image_Un filter_filter conj_commute)
qed simp

lemma destroy_segments_balanced:
  assumes "env_ok e" and "\<forall>(i, s) \<in> set segs. seg_owned e s" and "balanced (backings_of e (mset segs) + G) w"
  shows "balanced G (fold (\<lambda>s w. destroy_segment e w (snd s)) segs w)"
  using assms(2,3)
proof (induction segs arbitrary: w)
  case (Cons s segs)
  obtain i seg where s: "s = (i, seg)" by (cases s)
  have "balanced (seg_backings e seg + (backings_of e (mset segs) + G)) w" using Cons.prems(2) s by (simp add: add_ac)
  from destroy_segment_balanced [OF assms(1) _ this] show ?case using Cons s by simp
qed simp

section \<open>Adding a segment\<close>

lemma seg_backings_mset:
  "seg_backings e seg = mset ((a_kind (s_allocation seg), a_ptr (s_allocation seg), unat (a_size (s_allocation seg)), s_region seg)
     # (case s_device_region seg of None \<Rightarrow> []
        | Some dr \<Rightarrow> [(device_kind (ev_device e), s_device_allocation seg, unat (a_size (s_allocation seg)), dr)]))"
  by (simp add: seg_backings_def split: option.split)

lemma insert_segment_backings:
  assumes "env_ok e"
  shows "pool_backings e (insert_segment e p w this seg fs) = seg_backings e seg + pool_backings e p"
proof -
  have "mset (p_segments (insert_segment e p w this seg fs)) = mset ((this, seg) # p_segments p)"
    using assms by (simp add: insert_segment_def env_ok_def)
  then show ?thesis by (simp add: pool_backings_def)
qed

text \<open>How a segment that was made shows.\<close>

lemma made_Inr:
  assumes "(case m of None \<Rightarrow> None | Some (Inl f) \<Rightarrow> Some (p, w, Inl f) | Some (Inr (s, fs)) \<Rightarrow> K s fs)
      = Some (p', w', Inr u)"
  shows "\<exists>s fs. m = Some (Inr (s, fs)) \<and> K s fs = Some (p', w', Inr u)"
  using assms by (cases m; cases "the m") auto

lemma add_host_segment_balanced:
  assumes "env_ok e" and "add_host_segment e p w a = Some (p', w', Inr ())"
    and "live w = (a_kind a, a_ptr a, unat (a_size a)) # live w0" and "regs w = regs w0"
    and "balanced (pool_backings e p + G) w0"
  shows "balanced (pool_backings e p' + G) w'"
proof -
  obtain w1 res where reg: "register_memory (ev_context e) w (a_ptr a) (a_size a) = (w1, res)"
    by (cases "register_memory (ev_context e) w (a_ptr a) (a_size a)")
  then obtain r where r: "res = Inr r"
    using assms(2) by (cases res) (simp_all add: add_host_segment_def)
  let ?made = "make_segment e (length w1) (p_self p) r a (p_block_size p) (p_free_stack p)"
  have "(case ?made of None \<Rightarrow> None | Some (Inl f) \<Rightarrow> Some (p, New_Object (length w1) # w1, Inl f)
      | Some (Inr (seg, fs)) \<Rightarrow> Some (insert_segment e p (New_Object (length w1) # w1) (length w1) seg fs,
            New_Object (length w1) # w1, Inr ())) = Some (p', w', Inr ())"
    using assms(2) reg r by (simp add: add_host_segment_def Let_def)
  from made_Inr [OF this] obtain seg fs where seg: "?made = Some (Inr (seg, fs))"
    and p': "p' = insert_segment e p w' (length w1) seg fs" and w': "w' = New_Object (length w1) # w1" by auto
  have w1: "w1 = Register r # w"
    using reg r unfolding register_memory_def by (cases rule: add_region_cases) simp_all
  have s: "s_allocation seg = a" "s_region seg = r" "s_device_region seg = None"
    using seg by (auto simp: make_segment_def Let_def split: if_splits option.splits)
  have "balanced (seg_backings e seg + (pool_backings e p + G)) w'"
    unfolding seg_backings_mset by (rule balanced_gain [OF assms(5)]) (simp_all add: w' w1 s assms(3,4))
  then show ?thesis by (simp add: p' insert_segment_backings [OF assms(1)] add_ac)
qed

lemma register_both_regs:
  assumes "register_both e w a d dp = (w', Inr (r, dr))"
  shows "live w' = live w" and "mset (regs w') = {#r, dr#} + mset (regs w)"
proof -
  have reg: "w1 = Register r # w" if "register_memory cx w p s = (w1, Inr r)" for cx w p s w1 r
    using that unfolding register_memory_def by (cases rule: add_region_cases) auto
  have dreg: "w1 = Register r # w" if "register_device_memory cx g w d p s = (w1, Inr r)" for cx g w d p s w1 r
    using that unfolding register_device_memory_def by (cases rule: add_region_cases) auto
  have "live w' = live w \<and> mset (regs w') = {#r, dr#} + mset (regs w)"
    using assms by (auto simp: register_both_def Let_def dest!: reg dreg split: if_splits prod.splits sum.splits)
  then show "live w' = live w" and "mset (regs w') = {#r, dr#} + mset (regs w)" by blast+
qed

lemma add_device_segment_balanced:
  assumes "env_ok e" and "add_device_segment e p w a = Some (p', w', Inr ())"
    and "live w = (a_kind a, a_ptr a, unat (a_size a)) # live w0" and "regs w = regs w0"
    and "balanced (pool_backings e p + G) w0" and "allocates_on_device e p" and "a_size a \<noteq> 0"
  shows "balanced (pool_backings e p' + G) w'"
proof -
  have d: "device_ok (ev_device e)" using assms(1,6) by (simp add: env_ok_def allocates_on_device_def)
  obtain tmp where tmp: "get_device_id (ev_device e) w = Inr tmp"
    using assms(2) by (cases "get_device_id (ev_device e) w") (simp_all add: add_device_segment_def)
  obtain w1 r1 where w1: "set_device_id (ev_device e) w (p_device_id p) = (w1, r1)"
    by (cases "set_device_id (ev_device e) w (p_device_id p)")
  then obtain u where u: "r1 = Inr u"
    using assms(2) tmp by (cases r1) (simp_all add: add_device_segment_def)
  obtain w2 r2 where w2: "device_malloc (ev_device e) w1 (a_size a) = (w2, r2)"
    by (cases "device_malloc (ev_device e) w1 (a_size a)")
  then obtain dp where dp: "r2 = Inr dp"
    using assms(2) tmp w1 u by (cases r2) (simp_all add: add_device_segment_def)
  obtain w3 r3 where w3: "register_both e w2 a (p_device_id p) dp = (w3, r3)"
    by (cases "register_both e w2 a (p_device_id p) dp")
  then obtain r dr where rdr: "r3 = Inr (r, dr)"
    using assms(2) tmp w1 u w2 dp by (cases r3) (auto simp: add_device_segment_def)
  let ?made = "make_device_segment e (length w3) (p_self p) r a dr dp (p_device_id p) (p_block_size p) (p_free_stack p)"
  have "(case ?made of None \<Rightarrow> None | Some (Inl f) \<Rightarrow> Some (p, New_Object (length w3) # w3, Inl f)
      | Some (Inr (seg, fs)) \<Rightarrow> (case set_device_id (ev_device e) (New_Object (length w3) # w3) tmp of
          (w5, res) \<Rightarrow> Some (insert_segment e p (New_Object (length w3) # w3) (length w3) seg fs, w5, res)))
      = Some (p', w', Inr ())"
    using assms(2) tmp w1 u w2 dp w3 rdr by (simp add: add_device_segment_def Let_def)
  from made_Inr [OF this] obtain seg fs where seg: "?made = Some (Inr (seg, fs))" 
    and p': "p' = insert_segment e p (New_Object (length w3) # w3) (length w3) seg fs"
    and w5: "set_device_id (ev_device e) (New_Object (length w3) # w3) tmp = (w', Inr ())"
    by (auto split: prod.splits)
  have s: "s_allocation seg = a" "s_region seg = r" "s_device_region seg = Some dr" "s_device_allocation seg = dp"
    using seg by (auto simp: make_device_segment_def Let_def split: if_splits option.splits)
  have q: "quiet w1 w" "quiet w' (New_Object (length w3) # w3)"
    using set_device_id_quiet [OF w1] set_device_id_quiet [OF w5] .
  have m: "w2 = Alloc (device_kind (ev_device e)) dp (unat (a_size a)) # w1"
    using device.dmalloc_granted [OF d assms(7)] w2 dp by blast
  note both = register_both_regs [OF w3 [unfolded rdr]]
  have "seg_backings e seg = mset [(device_kind (ev_device e), dp, unat (a_size a), dr),
      (a_kind a, a_ptr a, unat (a_size a), r)]"
    by (simp add: seg_backings_def s add_mset_commute)
  moreover have "live w3 = (device_kind (ev_device e), dp, unat (a_size a)) # (a_kind a, a_ptr a, unat (a_size a)) # live w0"
    "mset (regs w3) = {#r, dr#} + mset (regs w0)"
    using both m q(1) assms(3,4) by (simp_all add: quiet_def)
  ultimately have "balanced (seg_backings e seg + (pool_backings e p + G)) w3"
    using balanced_gain [OF assms(5), of w3 "[(device_kind (ev_device e), dp, unat (a_size a), dr),
      (a_kind a, a_ptr a, unat (a_size a), r)]"] by (simp add: add_mset_commute)
  then have "balanced (seg_backings e seg + (pool_backings e p + G)) w'"
    using q(2) by (auto intro: balanced_same simp: quiet_def)
  then show ?thesis by (simp add: p' insert_segment_backings [OF assms(1)] add_ac)
qed

lemma add_segment_balanced:
  assumes "env_ok e" and "pool_inv e G p w U" and "add_segment e p w = Some (p', w', Inr ())"
    and "balanced (pool_backings e p + G) w"
  shows "balanced (pool_backings e p' + G) w'"
proof -
  let ?ne = "ev_numa e" and ?s = "p_segment_size p"
  have p: "pool_ok e p w U" using assms(2) by (simp add: pool_inv_def)
  have ready: "numa_ok ?ne" using assms(1) by (simp add: env_ok_def)
  obtain w1 a where al: "numa_allocate ?ne w (num_pages ?ne ?s) (p_numa_node p) = (w1, Inr a)"
    using numa.alloc_returns [OF ready] by blast
  have "check_allocation ?ne w1 a (p_numa_node p) = (w1, Inr a) \<and> a_valid a"
    using assms(3) al by (auto simp: add_segment_def check_allocation_def split: if_splits)
  then have ch: "check_allocation ?ne w1 a (p_numa_node p) = (w1, Inr a)" and v: "a_valid a" by simp_all
  note g = numa.alloc_granted [OF ready al v]
  have "unat ?s + unat (page_size ?ne) \<le> 2 ^ 64" "?s \<noteq> 0"
    using p by (auto simp: pool_ok_def pool_config_ok_def)
  moreover have "page_size ?ne \<noteq> 0" using ready by (simp add: numa_ok_def os_ok_def page_size_def)
  ultimately have "unat ?s \<le> unat (a_size a)" "unat ?s \<noteq> 0" using g num_pages_enough by (simp_all add: unat_eq_zero)
  then have size: "a_size a \<noteq> 0" by auto
  show ?thesis
  proof (cases "allocates_on_device e p")
    case True
    then have "add_device_segment e p w1 a = Some (p', w', Inr ())"
      using assms(3) al ch by (simp add: add_segment_def)
    then show ?thesis using add_device_segment_balanced [OF assms(1) _ _ _ assms(4) True size] g by blast
  next
    case False
    then have "add_host_segment e p w1 a = Some (p', w', Inr ())"
      using assms(3) al ch by (simp add: add_segment_def)
    then show ?thesis using add_host_segment_balanced [OF assms(1) _ _ _ assms(4)] g by blast
  qed
qed

end
