(* ===== verification/Pool_Properties.thy ===== *)
theory Pool_Properties
  imports Block_Source Example_Env Memory_Balance
begin

text \<open>
  A pool meets the contract of a block source, and what that means for its users: the properties of
  allocation, freeing and the release of segments.
\<close>

section \<open>A pool as a block source\<close>

definition pool_get :: "('h, 's) env \<Rightarrow> unit \<Rightarrow> 's pool \<times> world \<Rightarrow> (('s pool \<times> world) \<times> (fault + 'h block)) option" where
  "pool_get e _ s = map_option (\<lambda>(p, w, r). ((p, w), r)) (pool_allocate e (fst s) (snd s))"

definition pool_put :: "('h, 's) env \<Rightarrow> 'h block \<Rightarrow> 's pool \<times> world \<Rightarrow> (('s pool \<times> world) \<times> (fault + unit)) option" where
  "pool_put e b s = map_option (\<lambda>(p, w, r). ((p, w), r)) (pool_free e (fst s) (snd s) b)"

definition pool_good ::
  "('h, 's) env \<Rightarrow> backing multiset \<Rightarrow> u64 \<Rightarrow> 's pool \<times> world \<Rightarrow> 'h block multiset \<Rightarrow> bool" where
  "pool_good e G n s U \<longleftrightarrow> env_ok e \<and> pool_inv e G (fst s) (snd s) U \<and> \<not> p_mutex (fst s)
     \<and> p_block_size (fst s) = n"

definition pool_clean :: "'s pool \<times> world \<Rightarrow> bool" where
  "pool_clean s \<longleftrightarrow> live_ok (snd s) \<and> trace_ok (snd s)"

definition block_apart :: "u64 \<Rightarrow> 'h block \<Rightarrow> 'h block \<Rightarrow> bool" where
  "block_apart n b c \<longleftrightarrow> apart (m_ptr b) (unat n) (m_ptr c) (unat n)"

lemma pool_inv_clean: "pool_inv e G p w U \<Longrightarrow> live_ok w \<and> trace_ok w"
  using mem_inv_live_ok mem_inv_trace_ok unfolding pool_inv_def by blast

lemma held_blocks:
  assumes "pool_inv e G p w U"
  shows "U \<subseteq># blocks_of e (pool_segments p)" and "mem_inv (backings_of e (pool_segments p) + G) w"
    and "\<And>i s. (i, s) \<in># pool_segments p \<Longrightarrow> segment_ok e s \<and> seg_owned e s \<and> s_block_size s = p_block_size p"
proof -
  have p: "pool_ok e p w U" using assms by (simp add: pool_inv_def)
  then have eq: "free_blocks e p + freed_of e (pool_segments p) + U = blocks_of e (pool_segments p)"
    by (simp add: pool_ok_def)
  show "U \<subseteq># blocks_of e (pool_segments p)" by (simp flip: eq)
  show "mem_inv (backings_of e (pool_segments p) + G) w"
    using assms by (simp add: pool_inv_def pool_backings_def)
  show "segment_ok e s \<and> seg_owned e s \<and> s_block_size s = p_block_size p"
    if "(i, s) \<in># pool_segments p" for i s
    using pool_ok_segmentD [OF p, of i s] that by (simp add: pool_segment_ok_def)
qed

lemma held_apart:
  assumes inv: "pool_inv e G p w U" and two: "{#b, c#} \<subseteq># U"
  shows "block_apart (p_block_size p) b c"
proof -
  note h = held_blocks [OF inv]
  have t: "{#b, c#} \<subseteq># blocks_of e (pool_segments p)" using two h(1) by (rule subset_mset.order_trans)
  have ok: "\<forall>i s. (i, s) \<in># pool_segments p \<longrightarrow> segment_ok e s" using h(3) by blast
  obtain i s j t where "(i, s) \<in># pool_segments p" "(j, t) \<in># pool_segments p"
    "apart (m_ptr b) (unat (s_block_size s)) (m_ptr c) (unat (s_block_size t))"
    using blocks_apart [OF h(2) ok t] .
  then show ?thesis unfolding block_apart_def using h(3) by metis
qed

lemma held_backed:
  assumes inv: "pool_inv e G p w U" and b: "b \<in># U"
  shows "backed w (m_ptr b) (unat (p_block_size p))"
proof -
  note h = held_blocks [OF inv]
  have "b \<in># blocks_of e (pool_segments p)" using h(1) b by (rule mset_subset_eqD)
  then obtain i s S where S: "pool_segments p = add_mset (i, s) S" and bs: "b \<in> set (seg_blocks e i s)"
    using blocks_of_elem by blast
  then have i: "(i, s) \<in># pool_segments p" by simp
  then show ?thesis using block_backed [OF h(2) i _ _ bs] h(3) [OF i] by simp
qed

interpretation pool: block_source "pool_get e" "pool_put e" "pool_good e G n" pool_clean "\<lambda>_. block_apart n"
  for e :: "('h, 's) env" and G and n
proof (unfold_locales, goal_cases)
  case (1 s U c)
  then show ?case
    using pool_allocate_ok [of e G "fst s" "snd s" U]
    by (cases "pool_allocate e (fst s) (snd s)") (auto simp: pool_good_def pool_get_def split_def)
next
  case (2 s U c s' b)
  then show ?case
    using pool_allocate_ok [of e G "fst s" "snd s" U]
    by (cases "pool_allocate e (fst s) (snd s)") (auto simp: pool_good_def pool_get_def dest: same_poolD(2))
next
  case (3 s U c s' f)
  then show ?case
    using pool_allocate_ok [of e G "fst s" "snd s" U]
    by (cases "pool_allocate e (fst s) (snd s)")
      (auto simp: pool_good_def pool_get_def pool_clean_def dest: pool_inv_clean)
next
  case (4 s b U)
  then show ?case
    using pool_free_ok [of e G "fst s" "snd s" b U]
    by (cases "pool_free e (fst s) (snd s) b") (auto simp: pool_good_def pool_put_def split_def)
next
  case (5 s b U s' u)
  then show ?case
    using pool_free_ok [of e G "fst s" "snd s" b U]
    by (cases "pool_free e (fst s) (snd s) b") (auto simp: pool_good_def pool_put_def dest: same_poolD(2))
next
  case (6 s b U s' f)
  then show ?case
    using pool_free_ok [of e G "fst s" "snd s" b U]
    by (cases "pool_free e (fst s) (snd s) b")
      (auto simp: pool_good_def pool_put_def pool_clean_def dest: pool_inv_clean)
next
  case (7 s U)
  then show ?case by (auto simp: pool_good_def pool_clean_def dest: pool_inv_clean)
next
  case (8 s U b b')
  then show ?case using held_apart by (auto simp: pool_good_def)
qed

section \<open>Properties\<close>

text \<open>
  C10: allocation from a pool whose mutex is free returns. Either it hands out a block that lies in
  live, registered memory and overlaps no block that is still held, and the mutex is free again; or
  it throws, no block has moved, and the mutex is still locked.
\<close>

theorem pool_allocate_hands_out:
  assumes "env_ok e" and "pool_inv e G p w U" and "\<not> p_mutex p"
  shows "\<exists>p' w' r. pool_allocate e p w = Some (p', w', r) \<and> trace_ok w' \<and>
    (case r of
       Inr b \<Rightarrow> pool_inv e G p' w' (add_mset b U) \<and> \<not> p_mutex p'
         \<and> backed w' (m_ptr b) (unat (p_block_size p))
         \<and> (\<forall>c \<in># U. block_apart (p_block_size p) b c)
     | Inl _ \<Rightarrow> pool_inv e G p' w' U \<and> p_mutex p')"
proof -
  obtain p' w' r where al: "pool_allocate e p w = Some (p', w', r)"
    and ok: "allocated e G U p w (Some (p', w', r))"
    using pool_allocate_ok [OF assms] by (cases "pool_allocate e p w") auto
  show ?thesis
  proof (cases r)
    case (Inl f)
    then show ?thesis using al ok pool_inv_clean by fastforce
  next
    case (Inr b)
    then have inv: "pool_inv e G p' w' (add_mset b U)" and same: "same_pool p' p" using ok by simp_all
    have "block_apart (p_block_size p) b c" if "c \<in># U" for c
      using held_apart [OF inv, of b c] that same_poolD(2) [OF same] by simp
    then show ?thesis
      using al ok Inr held_backed [OF inv, of b] same_poolD(2) [OF same] assms(3) pool_inv_clean [OF inv] by simp
  qed
qed

lemma pool_allocate_hands_out_witness:
  "\<exists>p' w' r. pool_allocate example_env example_pool [] = Some (p', w', r) \<and> trace_ok w' \<and>
    (case r of
       Inr b \<Rightarrow> pool_inv example_env {#} p' w' {#b#} \<and> \<not> p_mutex p'
         \<and> backed w' (m_ptr b) (unat (p_block_size example_pool))
         \<and> (\<forall>c \<in># {#}. block_apart (p_block_size example_pool) b c)
     | Inl _ \<Rightarrow> pool_inv example_env {#} p' w' {#} \<and> p_mutex p')"
  by (rule pool_allocate_hands_out [OF example_env_ok example_pool_inv example_pool_unlocked])
text \<open>
  A pool without a device takes back any block it handed out, without throwing; the other held
  blocks keep their memory.
\<close>

theorem pool_free_takes_back:
  assumes "env_ok e" and "pool_inv e G p w (add_mset b U)" and "\<not> p_mutex p"
    and "\<not> allocates_on_device e p"
  shows "\<exists>p' w'. pool_free e p w b = Some (p', w', Inr ()) \<and> pool_inv e G p' w' U \<and> \<not> p_mutex p'
    \<and> trace_ok w' \<and> (\<forall>c \<in># U. backed w' (m_ptr c) (unat (p_block_size p)))"
proof -
  obtain p' w' r where fr: "pool_free e p w b = Some (p', w', r)"
    and ok: "freed e G U p w (Some (p', w', r))"
    using pool_free_ok [OF assms(1-3)] by (cases "pool_free e p w b") auto
  then have "r = Inr ()" and inv: "pool_inv e G p' w' U" and same: "same_pool p' p"
    using assms(4) by auto
  then show ?thesis
    using fr ok assms(3) held_backed [OF inv] same_poolD(2) [OF same] pool_inv_clean [OF inv] by simp
qed

lemma pool_free_takes_back_witness:
  "\<exists>p w b. pool_allocate example_env example_pool [] = Some (p, w, Inr b) \<and> (\<exists>p' w'.
    pool_free example_env p w b = Some (p', w', Inr ()) \<and> pool_inv example_env {#} p' w' {#} \<and> \<not> p_mutex p'
    \<and> trace_ok w' \<and> (\<forall>c \<in># ({#} :: u64 block multiset). backed w' (m_ptr c) (unat (p_block_size p))))"
proof -
  obtain p w b where h: "pool_allocate example_env example_pool [] = Some (p, w, Inr b)"
    "pool_inv example_env {#} p w {#b#}" "\<not> p_mutex p" "\<not> allocates_on_device example_env p"
    by (rule example_held)
  from pool_free_takes_back [OF example_env_ok h(2-4)] h(1) show ?thesis by blast
qed

text \<open>
  C25: no new memory is requested while a free block is left: if there is a block on the free stack
  or one that was freed and not collected, allocation takes one of these, throws nothing and
  touches neither memory nor segments.
\<close>

theorem pool_allocate_reuses:
  assumes "env_ok e" and "pool_inv e G p w U" and "\<not> p_mutex p"
    and "free_blocks e p + freed_of e (pool_segments p) \<noteq> {#}"
  shows "\<exists>p' b. pool_allocate e p w = Some (p', w, Inr b)
    \<and> b \<in># free_blocks e p + freed_of e (pool_segments p)
    \<and> map fst (p_segments p') = map fst (p_segments p)"
proof -
  have k: "stack_ok (ev_stack e)" using assms(1) by (simp add: env_ok_def)
  obtain segs fs where c: "collect_each e (p_segments p) (p_free_stack p) = Some (segs, fs)"
    "mset (sk_list (ev_stack e) fs) = freed_of e (pool_segments p) + free_blocks e p"
    "map fst segs = map fst (p_segments p)"
    using pool_inv_collect [OF assms(1,2)] by metis
  show ?thesis
  proof (cases "sk_pop (ev_stack e) (p_free_stack p)")
    case (Some x)
    obtain b fs' where x: "x = (b, fs')" by (cases x)
    have "b \<in># free_blocks e p" using stack_pop_Some(1) [OF k] Some x by (simp add: free_blocks_def)
    then show ?thesis using Some x by (simp add: pool_allocate_def)
  next
    case None
    have "sk_list (ev_stack e) fs \<noteq> []" using assms(4) c(2) by (metis add.commute mset.simps(1))
    then obtain b fs' where pop: "sk_pop (ev_stack e) fs = Some (b, fs')"
      using stack_pop_None [OF k, of fs] by fastforce
    have "b \<in># mset (sk_list (ev_stack e) fs)" using stack_pop_Some(1) [OF k pop] by simp
    then show ?thesis using None assms(3) c pop by (simp add: pool_allocate_def add.commute)
  qed
qed

lemma pool_allocate_reuses_witness:
  "\<exists>p w b. pool_allocate example_env example_pool [] = Some (p, w, Inr b) \<and> (\<exists>p' c.
    pool_allocate example_env p w = Some (p', w, Inr c)
    \<and> c \<in># free_blocks example_env p + freed_of example_env (pool_segments p)
    \<and> map fst (p_segments p') = map fst (p_segments p))"
proof -
  obtain p w b where h: "pool_allocate example_env example_pool [] = Some (p, w, Inr b)"
    "pool_inv example_env {#} p w {#b#}" "\<not> p_mutex p" "free_blocks example_env p \<noteq> {#}"
    by (rule example_held)
  then have "free_blocks example_env p + freed_of example_env (pool_segments p) \<noteq> {#}" by simp
  from pool_allocate_reuses [OF example_env_ok h(2,3) this] h(1) show ?thesis by blast
qed







text \<open>
  Whatever a user of a new pool does, taking blocks and giving back blocks it holds in any
  order, every call returns; unless one of them threw, no two blocks held at the end overlap, each
  lies in live registered memory, and the history of allocations, registrations and releases has no
  fault in it.
\<close>

theorem pool_runs_safe:
  assumes "env_ok e" and "make_pool e self block_size segment_size node never_free reserve = Inr p"
    and "block_size \<le> segment_size" and "unat segment_size + unat (page_size (ev_numa e)) \<le> 2 ^ 64"
  shows "\<exists>p' w' held r. run (pool_get e) (pool_put e) requests (p, []) [] = Some ((p', w'), held, r)
    \<and> live_ok w' \<and> trace_ok w'
    \<and> (r = None \<longrightarrow> (\<forall>b \<in> set held. backed w' (m_ptr b) (unat block_size))
        \<and> (\<forall>i < length held. \<forall>j < length held. i \<noteq> j \<longrightarrow> block_apart block_size (held ! i) (held ! j)))"
proof -
  have "p_block_size p = block_size" using assms(2) by (auto simp: make_pool_def split: if_splits)
  then have new: "pool_good e {#} block_size (p, []) (mset [])"
    using make_pool_ok [OF assms(1,2) mem_inv_empty assms(3,4)] assms(1) by (simp add: pool_good_def)
  obtain p' w' held r where run: "run (pool_get e) (pool_put e) requests (p, []) [] = Some ((p', w'), held, r)"
    and clean: "pool_clean (p', w')" and good: "r = None \<longrightarrow> pool_good e {#} block_size (p', w') (mset held)"
    using pool.run_ok [OF new] by (metis surj_pair)
  have "backed w' (m_ptr b) (unat block_size)" if "r = None" "b \<in> set held" for b
    using good that held_backed [of e "{#}" p' w' "mset held" b] by (simp add: pool_good_def)
  moreover have "block_apart block_size (held ! i) (held ! j)"
    if "r = None" "i < length held" "j < length held" "i \<noteq> j" for i j
    using pool.inv_pairwise [OF good [rule_format, OF that(1)] that(2-4)] .
  ultimately show ?thesis using run clean by (simp add: pool_clean_def)
qed

lemma pool_runs_safe_witness:
  "\<exists>p' w' held r. run (pool_get example_env) (pool_put example_env) [Take (), Take (), Give 1, Take ()]
        (example_pool, []) [] = Some ((p', w'), held, r)
    \<and> live_ok w' \<and> trace_ok w'
    \<and> (r = None \<longrightarrow> (\<forall>b \<in> set held. backed w' (m_ptr b) (unat (2048 :: u64)))
        \<and> (\<forall>i < length held. \<forall>j < length held. i \<noteq> j \<longrightarrow> block_apart 2048 (held ! i) (held ! j)))"
  by (rule pool_runs_safe [OF example_env_ok make_example_pool(1)]) (simp_all add: example_page_size)

section \<open>Progress\<close>

text \<open>The system has memory for one more segment on the node of the pool, and the transport takes it.\<close>

definition memory_granted :: "('h, 's) env \<Rightarrow> u64 \<Rightarrow> u64 \<Rightarrow> world \<Rightarrow> bool" where
  "memory_granted e segment_size node w \<longleftrightarrow>
     (case numa_allocate (ev_numa e) w (num_pages (ev_numa e) segment_size) node of
        (w', Inl _) \<Rightarrow> False
      | (w', Inr a) \<Rightarrow> a_valid a \<and> a_node a = node
          \<and> cx_register (ev_context e) w' (a_ptr a) (a_size a) = None)"

lemma add_segment_granted:
  assumes ok: "env_ok e" and inv: "pool_inv e G p w U" and host: "\<not> allocates_on_device e p"
    and mem: "memory_granted e (p_segment_size p) (p_numa_node p) w"
  obtains p' w' where "add_segment e p w = Some (p', w', Inr ())"
    and "sk_list (ev_stack e) (p_free_stack p') \<noteq> []"
proof -
  obtain p' w' r where add: "add_segment e p w = Some (p', w', r)"
    and l: "added e G U p w (Some (p', w', r))"
    using add_segment_ok [OF ok inv] by (cases "add_segment e p w") auto
  have bs: "p_block_size p \<noteq> 0" using inv by (simp add: pool_inv_def pool_ok_def pool_config_ok_def)
  obtain w1 a where a: "numa_allocate (ev_numa e) w (num_pages (ev_numa e) (p_segment_size p)) (p_numa_node p) = (w1, Inr a)"
    "a_valid a" "a_node a = p_numa_node p" "cx_register (ev_context e) w1 (a_ptr a) (a_size a) = None"
    using mem by (auto simp: memory_granted_def split: prod.splits sum.splits)
  then have "add_segment e p w = add_host_segment e p w1 a"
    using host by (simp add: add_segment_def check_allocation_def)
  then have "r = Inr ()"
    using add a(4) bs by (auto simp: add_host_segment_def register_memory_def add_region_def make_segment_def Let_def
      split: option.splits)
  then show ?thesis using that add l by simp
qed

lemma pool_gives:
  assumes "env_ok e" and "pool_inv e G p w U" and "\<not> p_mutex p" and "\<not> allocates_on_device e p"
    and "memory_granted e (p_segment_size p) (p_numa_node p) w"
  shows "\<exists>p' w' b. pool_allocate e p w = Some (p', w', Inr b)"
proof (cases "sk_pop (ev_stack e) (p_free_stack p)")
  case (Some x)
  then show ?thesis by (cases x) (simp add: pool_allocate_def)
next
  case None
  obtain segs fs where c: "collect_each e (p_segments p) (p_free_stack p) = Some (segs, fs)"
    and inv1: "pool_inv e G (p\<lparr>p_segments := segs, p_free_stack := fs\<rparr>) w U"
    using pool_inv_collect [OF assms(1,2)] .
  let ?p1 = "p\<lparr>p_segments := segs, p_free_stack := fs\<rparr>"
  let ?p2 = "p\<lparr>p_segments := segs, p_free_stack := fs, p_mutex := True\<rparr>"
  show ?thesis
  proof (cases "sk_pop (ev_stack e) fs")
    case (Some x)
    then show ?thesis using None assms(3) c by (cases x) (simp add: pool_allocate_def)
  next
    case none: None
    have inv2: "pool_inv e G ?p2 w U"
      using inv1 pool_inv_mutex [where p = ?p1 and m = True and e = e] by simp
    have "\<not> allocates_on_device e ?p2" "memory_granted e (p_segment_size ?p2) (p_numa_node ?p2) w"
      using assms(4,5) by (simp_all add: allocates_on_device_def)
    from add_segment_granted [OF assms(1) inv2 this] obtain q v where
      add: "add_segment e ?p2 w = Some (q, v, Inr ())" and ne: "sk_list (ev_stack e) (p_free_stack q) \<noteq> []" .
    have "stack_ok (ev_stack e)" using assms(1) by (simp add: env_ok_def)
    from stack_pop_None [OF this, of "p_free_stack q"] ne obtain b fs' where
      pop: "sk_pop (ev_stack e) (p_free_stack q) = Some (b, fs')" by fastforce
    have "alloc_loop e 0 ?p2 w = alloc_loop e 1 q v"
      using none add by (subst alloc_loop.simps) simp
    also have "\<dots> = Some (q\<lparr>p_free_stack := fs'\<rparr>, v, Inr b)"
      using pop by (subst alloc_loop.simps) simp
    finally show ?thesis using None none assms(3) c by (simp add: pool_allocate_def)
  qed
qed

text \<open>
  C27: destroying a pool gives back the memory of its segments and deregisters it, that and nothing
  else, and no release of it is a fault, even when blocks of the pool are still held.
\<close>

theorem destroy_pool_gives_back:
  assumes "env_ok e" and "pool_inv e G p w U"
  shows "live (destroy_pool e w p) = filter (\<lambda>r. r \<notin> memory_of ` set_mset (pool_backings e p)) (live w)
    \<and> mset (regs (destroy_pool e w p)) = mset (regs w) - image_mset backing_region (pool_backings e p)
    \<and> mem_inv G (destroy_pool e w p) \<and> trace_ok (destroy_pool e w p)"
proof -
  have p: "pool_ok e p w U" and mem: "mem_inv (backings_of e (pool_segments p) + G) w"
    using assms(2) by (simp_all add: pool_inv_def pool_backings_def)
  have own: "\<forall>(i, s) \<in> set (p_segments p). seg_owned e s"
    using pool_ok_segmentD [OF p] by (auto simp: pool_segment_ok_def)
  have "mem_inv G (destroy_pool e w p)"
    using destroy_segments_ok [OF assms(1) own mem] by (simp add: destroy_pool_def)
  then show ?thesis
    using mem_inv_trace_ok destroy_segments_live [OF assms(1) own mem]
    by (simp add: destroy_pool_def pool_backings_def)
qed

lemma destroy_pool_gives_back_witness:
  "\<exists>p w b. pool_allocate example_env example_pool [] = Some (p, w, Inr b)
    \<and> live (destroy_pool example_env w p) = filter (\<lambda>r. r \<notin> memory_of ` set_mset (pool_backings example_env p)) (live w)
    \<and> trace_ok (destroy_pool example_env w p)"
proof -
  obtain p w b where h: "pool_allocate example_env example_pool [] = Some (p, w, Inr b)"
    "pool_inv example_env {#} p w {#b#}" by (rule example_held)
  from destroy_pool_gives_back [OF example_env_ok h(2)] h(1) show ?thesis by blast
qed


text \<open>One pass of the loop: pop, and if there is nothing, add a segment and pop again.\<close>

definition alloc_once :: "('h, 's) env \<Rightarrow> 's pool \<Rightarrow> world \<Rightarrow> ('s, 'h block) result" where
  "alloc_once e p w =
     (let take = (\<lambda>p w. map_option (\<lambda>(b, fs). (p\<lparr>p_free_stack := fs\<rparr>, w, Inr b)) (sk_pop (ev_stack e) (p_free_stack p)))
      in case take p w of
           Some r \<Rightarrow> Some r
         | None \<Rightarrow>
             (case add_segment e p w of
                None \<Rightarrow> None
              | Some (p', w', Inl f) \<Rightarrow> Some (p', w', Inl f)
              | Some (p', w', Inr _) \<Rightarrow> take p' w'))"

lemma alloc_loop_pass:
  assumes "env_ok e" and "pool_inv e G p w U"
  shows "alloc_loop e 0 p w = alloc_once e p w \<and> alloc_loop e 0 p w \<noteq> None"
proof (cases "sk_pop (ev_stack e) (p_free_stack p)")
  case (Some x)
  then show ?thesis by (cases x) (subst (1 2) alloc_loop.simps, simp add: alloc_once_def)
next
  case None
  obtain p' w' r where add: "add_segment e p w = Some (p', w', r)"
    and ne: "r = Inr () \<Longrightarrow> sk_list (ev_stack e) (p_free_stack p') \<noteq> []"
    using add_segment_ok [OF assms] by (cases "add_segment e p w") auto
  show ?thesis
  proof (cases r)
    case (Inl f)
    then show ?thesis using None add by (subst (1 2) alloc_loop.simps) (simp add: alloc_once_def)
  next
    case (Inr u)
    then obtain b fs where pop: "sk_pop (ev_stack e) (p_free_stack p') = Some (b, fs)"
      using ne stack_pop_None [of "ev_stack e" "p_free_stack p'"] assms(1) by (fastforce simp: env_ok_def)
    have "alloc_loop e 0 p w = alloc_loop e 1 p' w'"
      using None add Inr by (subst alloc_loop.simps) simp
    also have "\<dots> = Some (p'\<lparr>p_free_stack := fs\<rparr>, w', Inr b)"
      using pop by (subst alloc_loop.simps) simp
    finally show ?thesis using None add Inr pop by (simp add: alloc_once_def)
  qed
qed

text \<open>
  C17: the loop that waits for a free block ends, and adds one segment at most: it is the same as a
  single pass, which returns.
\<close>

theorem alloc_loop_once:
  assumes "env_ok e" and "pool_inv e G p w U"
  shows "alloc_loop e 0 p w = alloc_once e p w \<and> alloc_loop e 0 p w \<noteq> None"
  by (rule alloc_loop_pass [OF assms])

lemma alloc_loop_once_witness:
  "alloc_loop example_env 0 example_pool [] = alloc_once example_env example_pool []
    \<and> alloc_loop example_env 0 example_pool [] \<noteq> None"
  by (rule alloc_loop_once [OF example_env_ok example_pool_inv])

end
