(* ===== verification/Fixed_Size_Heap.thy ===== *)
theory Fixed_Size_Heap
  imports Pool_Invariant
begin

text \<open>
  The heaps of one block size, \<open>include/hwmalloc/detail/fixed_size_heap.hpp\<close>: a pool for every local
  NUMA node and one for every local node and device. The pools of all heaps live in one store, a
  list; a \<open>unique_ptr\<close> to a pool is its position there, or \<open>None\<close> while it is null.
\<close>

section \<open>State and constructor\<close>

record fixed_size_heap =
  f_block_size :: u64
  f_segment_size :: u64
  f_never_free :: bool
  f_num_reserve_segments :: u64
  f_pools :: "nat option list"
  f_num_devices :: nat
  f_device_pools :: "nat option list"

text \<open>Assigning to and reading from a vector of pointers, out of range being undefined.\<close>

definition vector_put :: "'a option list \<Rightarrow> nat \<Rightarrow> 'a \<Rightarrow> fault + 'a option list" where
  "vector_put xs i x = (if i < length xs then Inr (xs[i := Some x]) else Inl (Undefined Index_Out_Of_Range))"

definition vector_deref :: "'a option list \<Rightarrow> nat \<Rightarrow> fault + 'a" where
  "vector_deref xs i =
     (if i < length xs then case xs ! i of None \<Rightarrow> Inl (Undefined Null_Deref) | Some x \<Rightarrow> Inr x
      else Inl (Undefined Index_Out_Of_Range))"

text \<open>
  The loops of the constructor: over the entries \<open>(n, i)\<close> of the map of local nodes, and for each
  over the devices \<open>j\<close>.
\<close>

fun add_device_pools ::
  "('h, 's) env \<Rightarrow> fixed_size_heap \<Rightarrow> u64 \<Rightarrow> u64 \<Rightarrow> nat list \<Rightarrow> 's pool list
     \<Rightarrow> fault + 's pool list \<times> fixed_size_heap" where
  "add_device_pools e h n i [] ps = Inr (ps, h)"
| "add_device_pools e h n i (j # js) ps =
     bindE (make_device_pool e (length ps) (f_block_size h) (f_segment_size h) n (int j)
              (f_never_free h) (f_num_reserve_segments h)) (\<lambda>p.
     bindE (vector_put (f_device_pools h) (unat i * f_num_devices h + j) (length ps)) (\<lambda>dps.
       add_device_pools e (h\<lparr>f_device_pools := dps\<rparr>) n i js (ps @ [p])))"

fun add_pools ::
  "('h, 's) env \<Rightarrow> (u64 \<times> u64) list \<Rightarrow> 's pool list \<Rightarrow> fixed_size_heap \<Rightarrow> fault + 's pool list \<times> fixed_size_heap" where
  "add_pools e [] ps h = Inr (ps, h)"
| "add_pools e ((n, i) # ns) ps h =
     bindE (make_pool e (length ps) (f_block_size h) (f_segment_size h) n
              (f_never_free h) (f_num_reserve_segments h)) (\<lambda>p.
     bindE (vector_put (f_pools h) (unat i) (length ps)) (\<lambda>hps.
     bindE (add_device_pools e (h\<lparr>f_pools := hps\<rparr>) n i [0 ..< f_num_devices h] (ps @ [p])) (\<lambda>(ps', h').
       add_pools e ns ps' h')))"

text \<open>Without devices in the build there are none.\<close>

definition num_devices :: "('h, 's) env \<Rightarrow> world \<Rightarrow> fault + nat" where
  "num_devices e w =
     (if ev_enable_device e then bindE (get_num_devices (ev_device e) w) (\<lambda>n. Inr (nat n)) else Inr 0)"

definition make_fixed_size_heap ::
  "('h, 's) env \<Rightarrow> world \<Rightarrow> 's pool list \<Rightarrow> u64 \<Rightarrow> u64 \<Rightarrow> bool \<Rightarrow> u64
     \<Rightarrow> fault + 's pool list \<times> fixed_size_heap" where
  "make_fixed_size_heap e w ps block_size segment_size never_free num_reserve_segments =
     (let m = local_nodes (ev_numa e)
      in bindE (num_devices e w) (\<lambda>nd.
         add_pools e (nodes m) ps
           \<lparr>f_block_size = block_size, f_segment_size = segment_size, f_never_free = never_free,
            f_num_reserve_segments = num_reserve_segments,
            f_pools = replicate (node_map_size m) None, f_num_devices = nd,
            f_device_pools = replicate (node_map_size m * nd) None\<rparr>))"

section \<open>Allocation\<close>

text \<open>
  A node that is not among the local ones is replaced by the caller's own. The end iterator must not
  be dereferenced.
\<close>

definition numa_node_index :: "numa_env \<Rightarrow> world \<Rightarrow> u64 \<Rightarrow> fault + u64" where
  "numa_node_index e w numa_node =
     (let m = local_nodes e; it = node_map_find m numa_node
      in if it \<noteq> node_map_size m then Inr (snd (nodes m ! it))
         else bindE (local_node e w) (\<lambda>l.
           let it' = node_map_find m l
           in if it' < node_map_size m then Inr (snd (nodes m ! it'))
              else Inl (Undefined Index_Out_Of_Range)))"

type_synonym ('s, 'a) store_result = "('s pool list \<times> world \<times> (fault + 'a)) option"

text \<open>An operation of the pool at a position of the store.\<close>

definition with_pool :: "nat \<Rightarrow> ('s pool \<Rightarrow> world \<Rightarrow> ('s, 'a) result) \<Rightarrow> 's pool list \<Rightarrow> world \<Rightarrow> ('s, 'a) store_result" where
  "with_pool k f ps w =
     (if k < length ps then map_option (\<lambda>(p, w', r). (ps[k := p], w', r)) (f (ps ! k) w)
      else Some (ps, w, Inl (Undefined Dangling_Deref)))"

definition fixed_allocate ::
  "('h, 's) env \<Rightarrow> fixed_size_heap \<Rightarrow> 's pool list \<Rightarrow> world \<Rightarrow> u64 \<Rightarrow> ('s, 'h block) store_result" where
  "fixed_allocate e h ps w numa_node =
     (case bindE (numa_node_index (ev_numa e) w numa_node) (\<lambda>i. vector_deref (f_pools h) (unat i)) of
        Inl f \<Rightarrow> Some (ps, w, Inl f)
      | Inr k \<Rightarrow> with_pool k (pool_allocate e) ps w)"

text \<open>The device id is added to an unsigned index, so a negative one wraps around.\<close>

definition fixed_allocate_device ::
  "('h, 's) env \<Rightarrow> fixed_size_heap \<Rightarrow> 's pool list \<Rightarrow> world \<Rightarrow> u64 \<Rightarrow> int \<Rightarrow> ('s, 'h block) store_result" where
  "fixed_allocate_device e h ps w numa_node device_id =
     (case bindE (numa_node_index (ev_numa e) w numa_node)
             (\<lambda>i. vector_deref (f_device_pools h) (unat (i * of_nat (f_num_devices h) + of_int device_id))) of
        Inl f \<Rightarrow> Some (ps, w, Inl f)
      | Inr k \<Rightarrow> with_pool k (pool_allocate e) ps w)"

section \<open>The invariant of the store of pools\<close>

definition seg_ids :: "'s pool \<Rightarrow> nat list" where
  "seg_ids p = map fst (p_segments p)"

definition store_backings :: "('h, 's) env \<Rightarrow> 's pool list \<Rightarrow> backing multiset" where
  "store_backings e ps = sum_list (map (pool_backings e) ps)"

text \<open>
  \<open>Us\<close> gives the blocks that users hold, pool by pool. A pool knows its own position, no mutex is
  held between operations, and no two segments share an identity.
\<close>

definition store_inv ::
  "('h, 's) env \<Rightarrow> backing multiset \<Rightarrow> 's pool list \<Rightarrow> world \<Rightarrow> 'h block multiset list \<Rightarrow> bool" where
  "store_inv e G ps w Us \<longleftrightarrow> length Us = length ps \<and>
     (\<forall>k < length ps. p_self (ps ! k) = k \<and> \<not> p_mutex (ps ! k) \<and> pool_ok e (ps ! k) w (Us ! k)) \<and>
     distinct (concat (map seg_ids ps)) \<and> mem_inv (store_backings e ps + G) w"

definition others :: "('h, 's) env \<Rightarrow> 's pool list \<Rightarrow> nat \<Rightarrow> backing multiset" where
  "others e ps k = store_backings e (take k ps) + store_backings e (drop (Suc k) ps)"

lemma store_backings_split:
  "k < length ps \<Longrightarrow> store_backings e ps = pool_backings e (ps ! k) + others e ps k"
proof -
  assume k: "k < length ps"
  have "store_backings e (take k ps @ ps ! k # drop (Suc k) ps) = pool_backings e (ps ! k) + others e ps k"
    by (simp add: store_backings_def others_def add_ac)
  then show ?thesis using id_take_nth_drop [OF k] by simp
qed

lemma others_update [simp]: "others e (ps[k := p]) k = others e ps k"
  by (simp add: others_def)

lemma seg_ids_split:
  "k < length ps \<Longrightarrow> concat (map seg_ids ps)
     = concat (map seg_ids (take k ps)) @ seg_ids (ps ! k) @ concat (map seg_ids (drop (Suc k) ps))"
proof -
  assume k: "k < length ps"
  have "concat (map seg_ids (take k ps @ ps ! k # drop (Suc k) ps))
     = concat (map seg_ids (take k ps)) @ seg_ids (ps ! k) @ concat (map seg_ids (drop (Suc k) ps))"
    by simp
  then show ?thesis using id_take_nth_drop [OF k] by simp
qed

lemma store_inv_pool:
  assumes "store_inv e G ps w Us" and "k < length ps"
  shows "pool_inv e (others e ps k + G) (ps ! k) w (Us ! k)" and "\<not> p_mutex (ps ! k)"
    and "p_self (ps ! k) = k"
  using assms by (simp_all add: store_inv_def pool_inv_def store_backings_split [OF assms(2)] add_ac)

lemma seg_ids_old:
  assumes "store_inv e G ps w Us" and "i \<in> set (concat (map seg_ids ps))"
  shows "i < length w"
proof -
  obtain p where p: "p \<in> set ps" "i \<in> set (seg_ids p)" using assms(2) by auto
  obtain k where "k < length ps" "p = ps ! k" using p(1) by (metis in_set_conv_nth)
  then have "pool_ok e p w (Us ! k)" using assms(1) by (simp add: store_inv_def)
  then show ?thesis using p(2) by (auto simp: seg_ids_def pool_ok_def)
qed

text \<open>A step of one pool is a step of the store.\<close>

lemma store_inv_update:
  assumes st: "store_inv e G ps w Us" and k: "k < length ps"
    and p: "pool_inv e (others e ps k + G) p w' U" and same: "same_pool p (ps ! k)" and m: "\<not> p_mutex p"
    and fi: "fresh_ids p (ps ! k) w" and l: "length w \<le> length w'"
  shows "store_inv e G (ps[k := p]) w' (Us[k := U])"
proof -
  let ?ps = "ps[k := p]"
  have k': "k < length ?ps" using k by simp
  let ?A = "concat (map seg_ids (take k ps))" and ?B = "concat (map seg_ids (drop (Suc k) ps))"
  have d: "distinct (?A @ seg_ids (ps ! k) @ ?B)"
    using st seg_ids_split [OF k] by (simp add: store_inv_def)
  have "i < length w" if "i \<in> set ?A \<union> set ?B" for i
    using seg_ids_old [OF st, of i] that seg_ids_split [OF k] by auto
  moreover have "i \<in> set (seg_ids (ps ! k)) \<or> length w \<le> i" if "i \<in> set (seg_ids p)" for i
    using fi that by (auto simp: fresh_ids_def seg_ids_def)
  moreover have "distinct (seg_ids p)" using p by (simp add: pool_inv_def pool_ok_def seg_ids_def)
  ultimately have "distinct (?A @ seg_ids p @ ?B)" using d by fastforce
  then have ids: "distinct (concat (map seg_ids ?ps))" using seg_ids_split [OF k'] k by simp
  have mem: "mem_inv (store_backings e ?ps + G) w'"
    using p k unfolding store_backings_split [OF k'] by (simp add: pool_inv_def add_ac)
  have "p_self (?ps ! j) = j \<and> \<not> p_mutex (?ps ! j) \<and> pool_ok e (?ps ! j) w' (Us[k := U] ! j)"
    if j: "j < length ps" for j
  proof (cases "j = k")
    case True
    have "length Us = length ps" using st by (simp add: store_inv_def)
    then show ?thesis
      using True k p m same_poolD(1) [OF same] store_inv_pool(3) [OF st k] by (simp add: pool_inv_def)
  next
    case False
    have "pool_ok e (ps ! j) w (Us ! j)" using st j by (simp add: store_inv_def)
    from pool_ok_length [OF this l] show ?thesis using False st j by (simp add: store_inv_def)
  qed
  then show ?thesis using st ids mem by (simp add: store_inv_def)
qed

lemma store_inv_append:
  assumes st: "store_inv e G ps w Us" and p: "pool_inv e (store_backings e ps + G) p w {#}"
    and "p_self p = length ps" and "\<not> p_mutex p" and "p_segments p = []"
  shows "store_inv e G (ps @ [p]) w (Us @ [{#}])"
proof -
  have "mem_inv (store_backings e (ps @ [p]) + G) w"
    using p by (simp add: store_backings_def pool_inv_def add_ac)
  then show ?thesis
    using st p assms(3-5)
    by (auto simp: store_inv_def seg_ids_def pool_inv_def nth_append less_Suc_eq)
qed

lemma store_inv_clean: "store_inv e G ps w Us \<Longrightarrow> live_ok w \<and> trace_ok w"
  unfolding store_inv_def using mem_inv_live_ok mem_inv_trace_ok by blast

text \<open>Allocation from the pool at a position.\<close>

lemma store_allocate_ok:
  assumes ok: "env_ok e" and st: "store_inv e G ps w Us" and k: "k < length ps"
  obtains p w' b where "with_pool k (pool_allocate e) ps w = Some (ps[k := p], w', Inr b)"
    and "store_inv e G (ps[k := p]) w' (Us[k := add_mset b (Us ! k)])" and "same_pool p (ps ! k)"
  | p w' f where "with_pool k (pool_allocate e) ps w = Some (ps[k := p], w', Inl f)"
    and "live_ok w'" and "trace_ok w'"
proof -
  note pk = store_inv_pool [OF st k]
  obtain p w' r where al: "pool_allocate e (ps ! k) w = Some (p, w', r)"
    and l: "allocated e (others e ps k + G) (Us ! k) (ps ! k) w (Some (p, w', r))"
    using pool_allocate_ok [OF ok pk(1,2)] by (cases "pool_allocate e (ps ! k) w") auto
  have wp: "with_pool k (pool_allocate e) ps w = Some (ps[k := p], w', r)"
    using al k by (simp add: with_pool_def)
  show ?thesis
  proof (cases r)
    case (Inl f)
    then have "mem_inv (pool_backings e p + (others e ps k + G)) w'" using l by (simp add: pool_inv_def)
    then show ?thesis using that(2) wp Inl mem_inv_live_ok mem_inv_trace_ok by blast
  next
    case (Inr b)
    then have "store_inv e G (ps[k := p]) w' (Us[k := add_mset b (Us ! k)])"
      using l pk(2) by (intro store_inv_update [OF st k]) simp_all
    then show ?thesis using that(1) wp Inr l by simp
  qed
qed

lemma store_free_ok:
  assumes ok: "env_ok e" and st: "store_inv e G ps w Us" and k: "k < length ps"
    and b: "Us ! k = add_mset b U"
  obtains p w' r where "with_pool k (\<lambda>p w. pool_free e p w b) ps w = Some (ps[k := p], w', r)"
    and "store_inv e G (ps[k := p]) w' (Us[k := U])" and "same_pool p (ps ! k)"
    and "r \<noteq> Inr () \<Longrightarrow> allocates_on_device e (ps ! k)"
proof -
  note pk = store_inv_pool [OF st k, unfolded b]
  obtain p w' r where fr: "pool_free e (ps ! k) w b = Some (p, w', r)"
    and l: "freed e (others e ps k + G) U (ps ! k) w (Some (p, w', r))"
    using pool_free_ok [OF ok pk(1,2)] by (cases "pool_free e (ps ! k) w b") auto
  have "with_pool k (\<lambda>p w. pool_free e p w b) ps w = Some (ps[k := p], w', r)"
    using fr k by (simp add: with_pool_def)
  moreover have "store_inv e G (ps[k := p]) w' (Us[k := U])"
    using l pk(2) by (intro store_inv_update [OF st k]) simp_all
  ultimately show ?thesis using that l by simp
qed

section \<open>The invariant of a fixed-size heap\<close>

text \<open>The pool at an index is the one for its node, and for its device.\<close>

definition pool_fits :: "fixed_size_heap \<Rightarrow> u64 \<Rightarrow> 's pool \<Rightarrow> bool" where
  "pool_fits h node p \<longleftrightarrow> p_block_size p = f_block_size h \<and> p_segment_size p = f_segment_size h \<and>
     p_numa_node p = node \<and> p_never_free p = f_never_free h"

definition pool_at :: "'s pool list \<Rightarrow> nat option list \<Rightarrow> nat \<Rightarrow> ('s pool \<Rightarrow> bool) \<Rightarrow> bool" where
  "pool_at ps v i P \<longleftrightarrow> i < length v \<and> (\<exists>k < length ps. v ! i = Some k \<and> P (ps ! k))"

definition host_fits :: "('h, 's) env \<Rightarrow> fixed_size_heap \<Rightarrow> nat \<Rightarrow> 's pool \<Rightarrow> bool" where
  "host_fits e h i p \<longleftrightarrow> pool_fits h (fst (nodes (local_nodes (ev_numa e)) ! i)) p \<and> \<not> p_allocate_on_device p"

definition device_fits :: "('h, 's) env \<Rightarrow> fixed_size_heap \<Rightarrow> nat \<Rightarrow> 's pool \<Rightarrow> bool" where
  "device_fits e h x p \<longleftrightarrow>
     pool_fits h (fst (nodes (local_nodes (ev_numa e)) ! (x div f_num_devices h))) p \<and>
     p_allocate_on_device p \<and> p_device_id p = int (x mod f_num_devices h)"

definition num_nodes :: "('h, 's) env \<Rightarrow> nat" where
  "num_nodes e = node_map_size (local_nodes (ev_numa e))"

definition fixed_ok :: "('h, 's) env \<Rightarrow> 's pool list \<Rightarrow> fixed_size_heap \<Rightarrow> bool" where
  "fixed_ok e ps h \<longleftrightarrow> (\<forall>i < num_nodes e. pool_at ps (f_pools h) i (host_fits e h i)) \<and>
     (\<forall>x < num_nodes e * f_num_devices h. pool_at ps (f_device_pools h) x (device_fits e h x))"

lemma pool_at_append: "pool_at ps v i P \<Longrightarrow> pool_at (ps @ qs) v i P"
  unfolding pool_at_def by (metis length_append nth_append trans_less_add1)

lemma pool_at_update:
  assumes "pool_at ps v i P" and "\<And>k. k < length ps \<Longrightarrow> P (ps ! k) \<Longrightarrow> P (qs ! k)"
    and "length qs = length ps"
  shows "pool_at qs v i P"
  using assms unfolding pool_at_def by metis

lemma fixed_ok_append: "fixed_ok e ps h \<Longrightarrow> fixed_ok e (ps @ qs) h"
  unfolding fixed_ok_def using pool_at_append by blast

lemma fits_same:
  assumes "same_pool p q"
  shows "host_fits e h i p = host_fits e h i q" and "device_fits e h i p = device_fits e h i q"
  unfolding host_fits_def device_fits_def pool_fits_def same_poolD [OF assms] by (rule refl)+

lemma fixed_ok_update:
  assumes "fixed_ok e ps h" and "same_pool p (ps ! k)"
  shows "fixed_ok e (ps[k := p]) h"
proof -
  have "host_fits e h i (ps[k := p] ! j)" if "host_fits e h i (ps ! j)" "j < length ps" for i j
    using that fits_same(1) [OF assms(2), of e h i] by (cases "j = k") simp_all
  moreover have "device_fits e h i (ps[k := p] ! j)" if "device_fits e h i (ps ! j)" "j < length ps" for i j
    using that fits_same(2) [OF assms(2), of e h i] by (cases "j = k") simp_all
  ultimately show ?thesis
    using assms(1) unfolding fixed_ok_def by (auto intro!: pool_at_update [of ps _ _ _ "ps[k := p]"])
qed

text \<open>
  What the layer below has to know of the nodes: the local nodes are the ones discovered, and a
  thread runs on one of them.
\<close>

definition nodes_ok :: "numa_env \<Rightarrow> bool" where
  "nodes_ok e \<longleftrightarrow>
     (\<exists>ns. local_nodes e = make_node_map ns \<and> list_all (\<lambda>k. k \<noteq> - 1) ns \<and> length ns < 2 ^ 64) \<and>
     (\<forall>w. \<exists>l. local_node e w = Inr l \<and> node_map_count (local_nodes e) l = 1)"

lemma nodes_index:
  assumes "nodes_ok e" and "i < node_map_size (local_nodes e)"
  shows "unat (snd (nodes (local_nodes e) ! i)) = i"
proof -
  obtain ns where ns: "local_nodes e = make_node_map ns" "length ns < 2 ^ 64"
    using assms(1) by (auto simp: nodes_ok_def)
  have i: "i < length ns" using assms(2) ns(1) make_node_map_size by simp
  then have "nodes (local_nodes e) ! i = (sort ns ! i, of_nat i)" using ns(1) by (simp add: make_node_map_nodes)
  then show ?thesis using i ns(2) by (simp add: unat_of_nat_small)
qed

lemma node_map_count_1:
  assumes "nodes_ok e"
  shows "node_map_count (local_nodes e) n = (if node_map_find (local_nodes e) n < node_map_size (local_nodes e) then 1 else 0)"
    and "node_map_find (local_nodes e) n < node_map_size (local_nodes e) \<Longrightarrow>
      fst (nodes (local_nodes e) ! node_map_find (local_nodes e) n) = n"
    and "node_map_find (local_nodes e) n \<le> node_map_size (local_nodes e)"
proof -
  obtain ns where ns: "local_nodes e = make_node_map ns" "\<forall>k \<in> set ns. k \<noteq> - 1" "length ns < 2 ^ 64"
    using assms by (auto simp: nodes_ok_def list_all_iff)
  have le: "node_map_find (local_nodes e) n \<le> node_map_size (local_nodes e)"
    using node_map_find_present [OF _ ns(2,3), of n] node_map_find_absent [OF _ ns(3), of n]
    by (cases "n \<in> set ns") (simp_all add: ns(1) make_node_map_size)
  then show "node_map_find (local_nodes e) n \<le> node_map_size (local_nodes e)" .
  show "node_map_count (local_nodes e) n = (if node_map_find (local_nodes e) n < node_map_size (local_nodes e) then 1 else 0)"
    using le by (rule node_map_count_find)
  assume lt: "node_map_find (local_nodes e) n < node_map_size (local_nodes e)"
  then have "n \<in> set ns"
    using node_map_find_absent [OF _ ns(3), of n] by (auto simp: ns(1) make_node_map_size)
  then show "fst (nodes (local_nodes e) ! node_map_find (local_nodes e) n) = n"
    using node_map_find_present [OF _ ns(2,3)] by (simp add: ns(1))
qed

text \<open>The index of a node is that of the node, or of the caller's own.\<close>

lemma numa_node_index_ok:
  assumes "nodes_ok e"
  obtains i where "numa_node_index e w n = Inr i" and "unat i < node_map_size (local_nodes e)"
    and "fst (nodes (local_nodes e) ! unat i)
      = (if node_map_count (local_nodes e) n = 1 then n else projr (local_node e w))"
proof -
  let ?m = "local_nodes e" and ?it = "node_map_find (local_nodes e) n"
  show ?thesis
  proof (cases "?it < node_map_size ?m")
    case True
    then have "numa_node_index e w n = Inr (snd (nodes ?m ! ?it))"
      by (simp add: numa_node_index_def Let_def)
    moreover have "node_map_count ?m n = 1" using True node_map_count_1(1) [OF assms] by simp
    ultimately show ?thesis
      using True node_map_count_1(2) [OF assms True] by (intro that [of "snd (nodes ?m ! ?it)"]) (simp_all add: nodes_index [OF assms True])
  next
    case False
    then have it: "?it = node_map_size ?m" using node_map_count_1(3) [OF assms, of n] by simp
    obtain l where l: "local_node e w = Inr l" "node_map_count ?m l = 1" using assms unfolding nodes_ok_def by blast
    have lt: "node_map_find ?m l < node_map_size ?m"
    proof (rule ccontr)
      assume "\<not> node_map_find ?m l < node_map_size ?m"
      with node_map_count_1(1) [OF assms, of l] have "node_map_count ?m l = 0" by (simp only: if_False)
      with l(2) show False by simp
    qed
    have ix: "numa_node_index e w n = Inr (snd (nodes ?m ! node_map_find ?m l))"
      using it l(1) lt by (simp add: numa_node_index_def Let_def)
    have u: "unat (snd (nodes ?m ! node_map_find ?m l)) = node_map_find ?m l"
      using nodes_index [OF assms lt] .
    have "node_map_count ?m n \<noteq> 1" using False node_map_count_1(1) [OF assms] by simp
    then have "fst (nodes ?m ! unat (snd (nodes ?m ! node_map_find ?m l)))
        = (if node_map_count ?m n = 1 then n else projr (local_node e w))"
      unfolding u l(1) using node_map_count_1(2) [OF assms lt] by (simp only: if_False sum.sel)
    from that [OF ix _ this] show ?thesis unfolding u using lt by blast
  qed
qed

section \<open>The constructor builds the invariant\<close>

lemma fits_update [simp]:
  "device_fits e (h\<lparr>f_device_pools := v\<rparr>) x = device_fits e h x"
  "device_fits e (h\<lparr>f_pools := v\<rparr>) x = device_fits e h x"
  "host_fits e (h\<lparr>f_device_pools := v\<rparr>) x = host_fits e h x"
  "host_fits e (h\<lparr>f_pools := v\<rparr>) x = host_fits e h x"
  by (intro ext; simp add: device_fits_def host_fits_def pool_fits_def)+

text \<open>The sizes a fixed-size heap is built with.\<close>

definition sizes_ok :: "('h, 's) env \<Rightarrow> u64 \<Rightarrow> u64 \<Rightarrow> bool" where
  "sizes_ok e bs ss \<longleftrightarrow> bs \<noteq> 0 \<and> bs \<le> ss \<and> unat ss + unat (page_size (ev_numa e)) \<le> 2 ^ 64"

lemma vector_put_ok:
  assumes "i < length v"
  shows "vector_put v i k = Inr (v[i := Some k])"
    and "k < length ps \<Longrightarrow> P (ps ! k) \<Longrightarrow> pool_at ps (v[i := Some k]) i P"
    and "j \<noteq> i \<Longrightarrow> pool_at ps (v[i := Some k]) j P = pool_at ps v j P"
  using assms by (simp_all add: vector_put_def pool_at_def)

lemma add_device_pools_ok:
  assumes ok: "env_ok e" and sz: "sizes_ok e (f_block_size h) (f_segment_size h)"
    and "store_inv e G ps w Us" and i: "unat i < num_nodes e"
    and n: "n = fst (nodes (local_nodes (ev_numa e)) ! unat i)"
    and "set js \<subseteq> {0 ..< f_num_devices h}"
    and "length (f_device_pools h) = num_nodes e * f_num_devices h"
  shows "\<exists>qs v. add_device_pools e h n i js ps = Inr (ps @ qs, h\<lparr>f_device_pools := v\<rparr>)
    \<and> store_inv e G (ps @ qs) w (Us @ replicate (length qs) {#}) \<and> length v = length (f_device_pools h)
    \<and> (\<forall>x. pool_at ps (f_device_pools h) x (device_fits e h x)
            \<or> x \<in> (\<lambda>j. unat i * f_num_devices h + j) ` set js
          \<longrightarrow> pool_at (ps @ qs) v x (device_fits e h x))"
  using assms(2-)
proof (induction js arbitrary: h ps Us)
  case Nil
  then show ?case by (intro exI [of _ "[]"] exI [of _ "f_device_pools h"]) (simp add: pool_at_append)
next
  case (Cons j js)
  let ?nd = "f_num_devices h" and ?x = "unat i * f_num_devices h + j"
  let ?v = "(f_device_pools h)[?x := Some (length ps)]"
  obtain p where p: "make_device_pool e (length ps) (f_block_size h) (f_segment_size h) n (int j)
      (f_never_free h) (f_num_reserve_segments h) = Inr p"
    using Cons.prems(1) by (simp add: make_device_pool_def make_pool_def sizes_ok_def)
  have mem: "mem_inv (store_backings e ps + G) w" using Cons.prems(2) by (simp add: store_inv_def)
  have le: "f_block_size h \<le> f_segment_size h" "unat (f_segment_size h) + unat (page_size (ev_numa e)) \<le> 2 ^ 64"
    using Cons.prems(1) by (simp_all add: sizes_ok_def)
  note po = make_device_pool_ok [OF ok p mem le]
  have fp: "p_segments p = []" "p_block_size p = f_block_size h" "p_segment_size p = f_segment_size h"
    "p_numa_node p = n" "p_never_free p = f_never_free h" "p_allocate_on_device p" "p_device_id p = int j"
    using p by (auto simp: make_device_pool_def make_pool_def split: if_splits)
  have st: "store_inv e G (ps @ [p]) w (Us @ [{#}])"
    using store_inv_append [OF Cons.prems(2) po(1,3,2) fp(1)] .
  have j: "j < ?nd" using Cons.prems(5) by simp
  have "?x < unat i * ?nd + ?nd" using j by simp
  also have "\<dots> = Suc (unat i) * ?nd" by simp
  also have "\<dots> \<le> num_nodes e * ?nd" using i by (intro mult_le_mono1) simp
  finally have x: "?x < length (f_device_pools h)" using Cons.prems(6) by simp
  have "?x div ?nd = unat i" "?x mod ?nd = j" using j by simp_all
  then have fits: "device_fits e h ?x p" using fp n by (simp add: device_fits_def pool_fits_def)
  let ?h = "h\<lparr>f_device_pools := ?v\<rparr>"
  have "sizes_ok e (f_block_size ?h) (f_segment_size ?h)" "set js \<subseteq> {0 ..< f_num_devices ?h}"
    "length (f_device_pools ?h) = num_nodes e * f_num_devices ?h"
    using Cons.prems by simp_all
  from Cons.IH [OF this(1) st i n this(2,3)] obtain qs v where ih:
    "add_device_pools e ?h n i js (ps @ [p]) = Inr ((ps @ [p]) @ qs, ?h\<lparr>f_device_pools := v\<rparr>)"
    "store_inv e G ((ps @ [p]) @ qs) w ((Us @ [{#}]) @ replicate (length qs) {#})"
    "length v = length (f_device_pools h)"
    "\<forall>x. pool_at (ps @ [p]) ?v x (device_fits e h x) \<or> x \<in> (\<lambda>j. unat i * ?nd + j) ` set js
       \<longrightarrow> pool_at ((ps @ [p]) @ qs) v x (device_fits e h x)"
    by auto
  have "pool_at (ps @ [p]) ?v y (device_fits e h y)"
    if "pool_at ps (f_device_pools h) y (device_fits e h y) \<or> y = ?x" for y
  proof (cases "y = ?x")
    case True
    then show ?thesis using vector_put_ok(2) [OF x, of "length ps" "ps @ [p]"] fits by simp
  next
    case False
    then show ?thesis using that vector_put_ok(3) [OF x False] pool_at_append by blast
  qed
  then have "\<forall>x. pool_at ps (f_device_pools h) x (device_fits e h x)
      \<or> x \<in> (\<lambda>j. unat i * ?nd + j) ` set (j # js)
      \<longrightarrow> pool_at (ps @ p # qs) v x (device_fits e h x)"
    using ih(4) by auto
  then show ?case
    using ih(1-3) p vector_put_ok(1) [OF x]
    by (intro exI [of _ "p # qs"] exI [of _ v]) simp
qed

lemma add_pools_ok:
  assumes ok: "env_ok e" and sz: "sizes_ok e (f_block_size h) (f_segment_size h)"
    and "store_inv e G ps w Us"
    and "\<forall>(n, i) \<in> set ns. unat i < num_nodes e \<and> n = fst (nodes (local_nodes (ev_numa e)) ! unat i)"
    and "length (f_device_pools h) = num_nodes e * f_num_devices h" and "length (f_pools h) = num_nodes e"
  shows "\<exists>qs u v. add_pools e ns ps h = Inr (ps @ qs, h\<lparr>f_pools := u, f_device_pools := v\<rparr>)
    \<and> store_inv e G (ps @ qs) w (Us @ replicate (length qs) {#})
    \<and> (\<forall>x. pool_at ps (f_pools h) x (host_fits e h x) \<or> x \<in> (\<lambda>(n, i). unat i) ` set ns
          \<longrightarrow> pool_at (ps @ qs) u x (host_fits e h x))
    \<and> (\<forall>x. pool_at ps (f_device_pools h) x (device_fits e h x)
            \<or> (\<exists>(n, i) \<in> set ns. \<exists>j < f_num_devices h. x = unat i * f_num_devices h + j)
          \<longrightarrow> pool_at (ps @ qs) v x (device_fits e h x))"
  using assms(2-)
proof (induction ns arbitrary: h ps Us)
  case Nil
  then show ?case
    by (intro exI [of _ "[]"] exI [of _ "f_pools h"] exI [of _ "f_device_pools h"]) (simp add: pool_at_append)
next
  case (Cons ni ns)
  obtain n i where ni: "ni = (n, i)" by (cases ni)
  let ?nd = "f_num_devices h" and ?i = "unat i"
  let ?u = "(f_pools h)[?i := Some (length ps)]" and ?h = "h\<lparr>f_pools := (f_pools h)[unat i := Some (length ps)]\<rparr>"
  have i: "?i < num_nodes e" and n: "n = fst (nodes (local_nodes (ev_numa e)) ! ?i)"
    using Cons.prems(3) ni by simp_all
  obtain p where p: "make_pool e (length ps) (f_block_size h) (f_segment_size h) n
      (f_never_free h) (f_num_reserve_segments h) = Inr p"
    using Cons.prems(1) by (simp add: make_pool_def sizes_ok_def)
  have mem: "mem_inv (store_backings e ps + G) w" using Cons.prems(2) by (simp add: store_inv_def)
  have le: "f_block_size h \<le> f_segment_size h" "unat (f_segment_size h) + unat (page_size (ev_numa e)) \<le> 2 ^ 64"
    using Cons.prems(1) by (simp_all add: sizes_ok_def)
  note po = make_pool_ok [OF ok p mem le]
  have fp: "p_segments p = []" "p_block_size p = f_block_size h" "p_segment_size p = f_segment_size h"
    "p_numa_node p = n" "p_never_free p = f_never_free h" "\<not> p_allocate_on_device p"
    using p by (auto simp: make_pool_def split: if_splits)
  have st: "store_inv e G (ps @ [p]) w (Us @ [{#}])"
    using store_inv_append [OF Cons.prems(2) po(1,3,2) fp(1)] .
  have x: "?i < length (f_pools h)" using i Cons.prems(5) by simp
  have "sizes_ok e (f_block_size ?h) (f_segment_size ?h)" "set [0 ..< ?nd] \<subseteq> {0 ..< f_num_devices ?h}"
    "length (f_device_pools ?h) = num_nodes e * f_num_devices ?h"
    using Cons.prems by simp_all
  from add_device_pools_ok [OF ok this(1) st i n this(2,3)] obtain qs v where d:
    "add_device_pools e ?h n i [0 ..< ?nd] (ps @ [p]) = Inr ((ps @ [p]) @ qs, ?h\<lparr>f_device_pools := v\<rparr>)"
    "store_inv e G ((ps @ [p]) @ qs) w ((Us @ [{#}]) @ replicate (length qs) {#})"
    "length v = length (f_device_pools h)"
    "\<forall>x. pool_at (ps @ [p]) (f_device_pools h) x (device_fits e h x)
        \<or> x \<in> (\<lambda>j. ?i * ?nd + j) ` set [0 ..< ?nd]
       \<longrightarrow> pool_at ((ps @ [p]) @ qs) v x (device_fits e h x)"
    by auto
  let ?h' = "h\<lparr>f_pools := ?u, f_device_pools := v\<rparr>" and ?ps = "(ps @ [p]) @ qs"
  let ?Us = "(Us @ [{#}]) @ replicate (length qs) {#}"
  have "sizes_ok e (f_block_size ?h') (f_segment_size ?h')"
    "\<forall>(n, i) \<in> set ns. unat i < num_nodes e \<and> n = fst (nodes (local_nodes (ev_numa e)) ! unat i)"
    "length (f_device_pools ?h') = num_nodes e * f_num_devices ?h'" "length (f_pools ?h') = num_nodes e"
    using Cons.prems d(3) by simp_all
  from Cons.IH [OF this(1) d(2) this(2-4)] obtain rs u' v' where ih:
    "add_pools e ns ?ps ?h' = Inr (?ps @ rs, ?h'\<lparr>f_pools := u', f_device_pools := v'\<rparr>)"
    "store_inv e G (?ps @ rs) w (?Us @ replicate (length rs) {#})"
    "\<forall>x. pool_at ?ps ?u x (host_fits e h x) \<or> x \<in> (\<lambda>(n, i). unat i) ` set ns
          \<longrightarrow> pool_at (?ps @ rs) u' x (host_fits e h x)"
    "\<forall>x. pool_at ?ps v x (device_fits e h x)
            \<or> (\<exists>(n, i) \<in> set ns. \<exists>j < ?nd. x = unat i * ?nd + j)
          \<longrightarrow> pool_at (?ps @ rs) v' x (device_fits e h x)"
    by auto
  have "pool_at ?ps ?u y (host_fits e h y)" if "pool_at ps (f_pools h) y (host_fits e h y) \<or> y = ?i" for y
  proof (cases "y = ?i")
    case True
    then show ?thesis
      using vector_put_ok(2) [OF x, of "length ps" "?ps" "host_fits e h ?i"] fp n
      by (simp add: nth_append host_fits_def pool_fits_def)
  next
    case False
    then show ?thesis using that vector_put_ok(3) [OF x False] pool_at_append by blast
  qed
  then have hosts: "\<forall>x. pool_at ps (f_pools h) x (host_fits e h x) \<or> x \<in> (\<lambda>(n, i). unat i) ` set (ni # ns)
      \<longrightarrow> pool_at (?ps @ rs) u' x (host_fits e h x)"
    using ih(3) ni by auto
  have "pool_at ?ps v y (device_fits e h y)"
    if "pool_at ps (f_device_pools h) y (device_fits e h y) \<or> (\<exists>j < ?nd. y = ?i * ?nd + j)" for y
    using that d(4) pool_at_append [of ps _ y _ "[p]"] by fastforce
  then have devices: "\<forall>x. pool_at ps (f_device_pools h) x (device_fits e h x)
      \<or> (\<exists>(n, i) \<in> set (ni # ns). \<exists>j < ?nd. x = unat i * ?nd + j)
      \<longrightarrow> pool_at (?ps @ rs) v' x (device_fits e h x)"
    using ih(4) ni by auto
  have eq: "add_pools e (ni # ns) ps h = Inr (ps @ (p # qs @ rs), h\<lparr>f_pools := u', f_device_pools := v'\<rparr>)"
    using ih(1) d(1) p vector_put_ok(1) [OF x] ni by simp
  have "store_inv e G (ps @ (p # qs @ rs)) w (Us @ replicate (length (p # qs @ rs)) {#})"
    using ih(2) by (simp add: replicate_add)
  then show ?case
    using eq hosts devices
    by (intro exI [of _ "p # qs @ rs"] exI [of _ u'] exI [of _ v']) simp
qed

text \<open>A new fixed-size heap: a pool for every local node and device, all of them empty.\<close>

lemma make_fixed_size_heap_ok:
  assumes ok: "env_ok e" and nodes: "nodes_ok (ev_numa e)" and sz: "sizes_ok e bs ss"
    and st: "store_inv e G ps w Us" and nd: "num_devices e w = Inr nd"
  shows "\<exists>qs h. make_fixed_size_heap e w ps bs ss nf nr = Inr (ps @ qs, h)
    \<and> store_inv e G (ps @ qs) w (Us @ replicate (length qs) {#}) \<and> fixed_ok e (ps @ qs) h
    \<and> f_block_size h = bs \<and> f_segment_size h = ss \<and> f_num_devices h = nd \<and> f_never_free h = nf"
proof -
  let ?m = "local_nodes (ev_numa e)"
  define h where "h = \<lparr>f_block_size = bs, f_segment_size = ss, f_never_free = nf, f_num_reserve_segments = nr,
     f_pools = replicate (node_map_size ?m) None, f_num_devices = nd,
     f_device_pools = replicate (node_map_size ?m * nd) None\<rparr>"
  have f: "f_block_size h = bs" "f_segment_size h = ss" "f_num_devices h = nd" "f_never_free h = nf"
    "length (f_device_pools h) = num_nodes e * nd" "length (f_pools h) = num_nodes e"
    by (simp_all add: h_def num_nodes_def)
  have all: "unat i < num_nodes e \<and> n = fst (nodes ?m ! unat i)" if ni: "(n, i) \<in> set (nodes ?m)" for n i
  proof -
    obtain k where k: "k < length (nodes ?m)" "nodes ?m ! k = (n, i)" using ni by (metis in_set_conv_nth)
    then have "unat i = k" using nodes_index [OF nodes, of k] by (simp add: node_map_size_def)
    then show ?thesis using k by (simp add: num_nodes_def node_map_size_def)
  qed
  have "sizes_ok e (f_block_size h) (f_segment_size h)"
    "\<forall>(n, i) \<in> set (nodes ?m). unat i < num_nodes e \<and> n = fst (nodes ?m ! unat i)"
    "length (f_device_pools h) = num_nodes e * f_num_devices h" "length (f_pools h) = num_nodes e"
    using sz all f by auto
  from add_pools_ok [OF ok this(1) st this(2-4)] obtain qs u v where a:
    "add_pools e (nodes ?m) ps h = Inr (ps @ qs, h\<lparr>f_pools := u, f_device_pools := v\<rparr>)"
    "store_inv e G (ps @ qs) w (Us @ replicate (length qs) {#})"
    and a3: "\<forall>x. pool_at ps (f_pools h) x (host_fits e h x) \<or> x \<in> (\<lambda>(n, i). unat i) ` set (nodes ?m)
      \<longrightarrow> pool_at (ps @ qs) u x (host_fits e h x)"
    and a4: "\<forall>x. pool_at ps (f_device_pools h) x (device_fits e h x)
      \<or> (\<exists>(n, i) \<in> set (nodes ?m). \<exists>j < f_num_devices h. x = unat i * f_num_devices h + j)
      \<longrightarrow> pool_at (ps @ qs) v x (device_fits e h x)"
    by (elim exE conjE)
  have pos: "\<exists>n i. (n, i) \<in> set (nodes ?m) \<and> unat i = k" if k: "k < num_nodes e" for k
  proof -
    have "nodes ?m ! k \<in> set (nodes ?m)" using k by (simp add: num_nodes_def node_map_size_def)
    moreover have "unat (snd (nodes ?m ! k)) = k" using nodes_index [OF nodes] k by (simp add: num_nodes_def)
    ultimately show ?thesis by (metis prod.collapse)
  qed
  let ?h' = "h\<lparr>f_pools := u, f_device_pools := v\<rparr>"
  have "pool_at (ps @ qs) u k (host_fits e ?h' k)" if "k < num_nodes e" for k
  proof -
    have "k \<in> (\<lambda>(n, i). unat i) ` set (nodes ?m)" using pos [OF that] by force
    then show ?thesis using a3 by simp
  qed
  moreover have "pool_at (ps @ qs) v x (device_fits e ?h' x)" if x: "x < num_nodes e * nd" for x
  proof -
    have "0 < nd" using x by (cases nd) simp_all
    then have xx: "x = x div nd * nd + x mod nd" "x mod nd < nd" by simp_all
    have "x div nd < num_nodes e" using x by (rule less_mult_imp_div_less)
    from pos [OF this] obtain n i where ni: "(n, i) \<in> set (nodes ?m)" "unat i = x div nd" by blast
    then have "\<exists>j < f_num_devices h. x = unat i * f_num_devices h + j"
      unfolding f(3) ni(2) using xx by blast
    then have "\<exists>(n, i) \<in> set (nodes ?m). \<exists>j < f_num_devices h. x = unat i * f_num_devices h + j"
      using ni(1) by blast
    then show ?thesis using a4 f(3) by simp
  qed
  ultimately have "fixed_ok e (ps @ qs) ?h'" by (simp add: fixed_ok_def f)
  then show ?thesis
    using a(1,2) nd f(1-4)
    by (intro exI [of _ qs] exI [of _ ?h']) (simp add: make_fixed_size_heap_def Let_def h_def)
qed

section \<open>Allocation\<close>

text \<open>The node a request is served on.\<close>

definition served_node :: "numa_env \<Rightarrow> world \<Rightarrow> u64 \<Rightarrow> u64" where
  "served_node e w n = (if node_map_count (local_nodes e) n = 1 then n else projr (local_node e w))"

lemma deref_pool:
  assumes "pool_at ps v i P"
  obtains k where "vector_deref v i = Inr k" and "k < length ps" and "P (ps ! k)"
  using assms by (auto simp: pool_at_def vector_deref_def)

lemma fixed_allocate_pool:
  assumes nodes: "nodes_ok (ev_numa e)" and h: "fixed_ok e ps h"
  obtains k where "fixed_allocate e h ps w n = with_pool k (pool_allocate e) ps w" and "k < length ps"
    and "pool_fits h (served_node (ev_numa e) w n) (ps ! k)" and "\<not> p_allocate_on_device (ps ! k)"
proof -
  obtain i where i: "numa_node_index (ev_numa e) w n = Inr i" "unat i < num_nodes e"
    "fst (nodes (local_nodes (ev_numa e)) ! unat i) = served_node (ev_numa e) w n"
    using numa_node_index_ok [OF nodes, of w n] unfolding num_nodes_def served_node_def by metis
  have "pool_at ps (f_pools h) (unat i) (host_fits e h (unat i))" using h i(2) by (simp add: fixed_ok_def)
  then obtain k where "vector_deref (f_pools h) (unat i) = Inr k" "k < length ps" "host_fits e h (unat i) (ps ! k)"
    by (rule deref_pool)
  then show ?thesis using that i by (simp add: fixed_allocate_def host_fits_def)
qed

lemma fixed_allocate_device_pool:
  assumes nodes: "nodes_ok (ev_numa e)" and h: "fixed_ok e ps h"
    and d: "0 \<le> d" "d < int (f_num_devices h)" and small: "num_nodes e * f_num_devices h < 2 ^ 64"
  obtains k where "fixed_allocate_device e h ps w n d = with_pool k (pool_allocate e) ps w" and "k < length ps"
    and "pool_fits h (served_node (ev_numa e) w n) (ps ! k)"
    and "p_allocate_on_device (ps ! k)" and "p_device_id (ps ! k) = d"
proof -
  let ?nd = "f_num_devices h"
  obtain i where i: "numa_node_index (ev_numa e) w n = Inr i" "unat i < num_nodes e"
    "fst (nodes (local_nodes (ev_numa e)) ! unat i) = served_node (ev_numa e) w n"
    using numa_node_index_ok [OF nodes, of w n] unfolding num_nodes_def served_node_def by metis
  obtain j where j: "d = int j" "j < ?nd" using d by (metis of_nat_less_iff zero_le_imp_eq_int)
  have "unat i * ?nd + j < Suc (unat i) * ?nd" using j by simp
  also have "\<dots> \<le> num_nodes e * ?nd" using i(2) by (intro mult_le_mono1) simp
  finally have x: "unat i * ?nd + j < num_nodes e * ?nd" .
  have "i * of_nat ?nd + of_int d = of_nat (unat i * ?nd + j)" by (simp add: j(1))
  moreover have "unat (of_nat (unat i * ?nd + j) :: u64) = unat i * ?nd + j"
    using x small by (intro unat_of_nat_small) simp
  ultimately have u: "unat (i * of_nat ?nd + of_int d) = unat i * ?nd + j" by (simp only:)
  have "(unat i * ?nd + j) div ?nd = unat i" "(unat i * ?nd + j) mod ?nd = j" using j by simp_all
  moreover have "pool_at ps (f_device_pools h) (unat i * ?nd + j) (device_fits e h (unat i * ?nd + j))"
    using h x by (simp add: fixed_ok_def)
  ultimately obtain k where "vector_deref (f_device_pools h) (unat i * ?nd + j) = Inr k" "k < length ps"
    "pool_fits h (served_node (ev_numa e) w n) (ps ! k)" "p_allocate_on_device (ps ! k)" "p_device_id (ps ! k) = int j"
    using i(3) by (auto simp: device_fits_def elim: deref_pool)
  then show ?thesis using that i(1) u j(1) by (simp add: fixed_allocate_device_def)
qed

end
