(* ===== verification/Size_Class.thy ===== *)
theory Size_Class
  imports Heap_Config
begin

text \<open>
  The size classes of \<open>include/hwmalloc/heap.hpp\<close>: which fixed-size heap serves a request. Tiny
  requests have classes 8 bytes apart; above the tiny limit a class is twice the one before.
\<close>

section \<open>The index of a class\<close>

definition tiny_bucket_index :: "u64 \<Rightarrow> u64 \<Rightarrow> nat \<Rightarrow> u64" where
  "tiny_bucket_index n tiny_increment tiny_increment_shift =
     drop_bit tiny_increment_shift (n + tiny_increment - 1) - 1"

definition bucket_index :: "u64 \<Rightarrow> u64 \<Rightarrow> u64" where
  "bucket_index n bucket_shift = log2_c (drop_bit (unat bucket_shift) (n - 1)) - 1"

section \<open>What a family of classes promises\<close>

text \<open>
  A family of classes depends on a configuration: the sizes it serves, the number of classes, the
  class of a size and the width of a class. The class of a size is wide enough, and the one before
  is not.
\<close>

locale size_classes =
  fixes serves :: "'c \<Rightarrow> u64 \<Rightarrow> bool"
    and classes :: "'c \<Rightarrow> nat"
    and class_of :: "'c \<Rightarrow> u64 \<Rightarrow> nat"
    and width :: "'c \<Rightarrow> nat \<Rightarrow> nat"
  assumes class_exists: "serves c n \<Longrightarrow> class_of c n < classes c"
    and class_fits: "serves c n \<Longrightarrow> unat n \<le> width c (class_of c n)"
    and class_tight: "serves c n \<Longrightarrow> 0 < class_of c n \<Longrightarrow> width c (class_of c n - 1) < unat n"
    and width_mono: "i \<le> j \<Longrightarrow> width c i \<le> width c j"
begin

lemma class_least:
  assumes "serves c n" and "unat n \<le> width c j"
  shows "class_of c n \<le> j"
proof (rule ccontr)
  assume "\<not> class_of c n \<le> j"
  then have "0 < class_of c n" "j \<le> class_of c n - 1" by simp_all
  then show False using class_tight [OF assms(1)] width_mono [of j "class_of c n - 1" c] assms(2) by simp
qed

lemma class_mono:
  assumes "serves c n" and "serves c m" and "n \<le> m"
  shows "class_of c n \<le> class_of c m"
  using class_least [OF assms(1)] class_fits [OF assms(2)] assms(3) by (simp add: word_le_unat)

end

section \<open>The two families\<close>

definition tiny_class :: "heap_config \<Rightarrow> u64 \<Rightarrow> nat" where
  "tiny_class c n = unat (tiny_bucket_index n m_tiny_increment m_tiny_increment_shift)"

definition tiny_width :: "heap_config \<Rightarrow> nat \<Rightarrow> nat" where
  "tiny_width c i = 8 * (i + 1)"

definition tiny_classes :: "heap_config \<Rightarrow> nat" where
  "tiny_classes c = unat (m_tiny_limit c div m_tiny_increment)"

text \<open>A tiny limit below 8 leaves no class at all.\<close>

definition tiny_serves :: "heap_config \<Rightarrow> u64 \<Rightarrow> bool" where
  "tiny_serves c n \<longleftrightarrow> (\<exists>t s l. config_exponents c t s l \<and> 3 \<le> t) \<and> n \<noteq> 0 \<and> n \<le> m_tiny_limit c"

definition bucket_class :: "heap_config \<Rightarrow> u64 \<Rightarrow> nat" where
  "bucket_class c n = unat (bucket_index n (m_bucket_shift c))"

definition bucket_width :: "heap_config \<Rightarrow> nat \<Rightarrow> nat" where
  "bucket_width c i = unat (m_tiny_limit c) * 2 ^ (i + 1)"

text \<open>Small and large classes, and the one of twice the large limit.\<close>

definition bucket_classes :: "heap_config \<Rightarrow> nat" where
  "bucket_classes c = unat (m_num_small_heaps c) + unat (m_num_large_heaps c) + 1"

definition bucket_serves :: "heap_config \<Rightarrow> u64 \<Rightarrow> bool" where
  "bucket_serves c n \<longleftrightarrow> (\<exists>t s l. config_exponents c t s l) \<and> m_tiny_limit c < n \<and>
     unat n \<le> 2 * unat (m_large_limit c)"

lemma tiny_class_eq:
  assumes "n \<noteq> 0" and "unat n \<le> 2 ^ 31"
  shows "tiny_class c n = (unat n + 7) div 8 - 1" and "0 < (unat n + 7) div 8"
proof -
  have "unat (n + 8) = unat n + 8" using assms(2) by (subst unat_add_no_wrap) simp_all
  from this have "n + 8 \<noteq> 0" by (metis add_is_0 unat_0 zero_neq_numeral)
  from unat_minus_one_pos [OF this] have "unat (n + 8 - 1) = unat n + 8 - 1"
    unfolding \<open>unat (n + 8) = unat n + 8\<close> .
  then have "unat (n + m_tiny_increment - 1) = unat n + 7" unfolding m_tiny_increment_eq by linarith
  then have d: "unat (drop_bit 3 (n + m_tiny_increment - 1)) = (unat n + 7) div 8"
    by (simp only: unat_drop_bit) simp
  have "0 < unat n" using assms(1) by (simp add: unat_gt_0)
  then show pos: "0 < (unat n + 7) div 8" by (simp add: div_greater_zero_iff)
  then have "drop_bit 3 (n + m_tiny_increment - 1) \<noteq> 0" using d by (metis less_irrefl unat_0)
  from unat_minus_one_pos [OF this]
  have "unat (drop_bit 3 (n + m_tiny_increment - 1) - 1) = (unat n + 7) div 8 - 1" unfolding d .
  then show "tiny_class c n = (unat n + 7) div 8 - 1"
    by (simp only: tiny_class_def tiny_bucket_index_def m_tiny_increment_shift_def)
qed

lemma tiny_serves_exponent:
  assumes "tiny_serves c n"
  obtains t where "3 \<le> t" and "t \<le> 31" and "unat (m_tiny_limit c) = 2 ^ t" and "n \<noteq> 0" and "unat n \<le> 2 ^ t"
    and "unat n \<le> 2 ^ 31"
proof -
  obtain t s l where t: "config_exponents c t s l" "3 \<le> t" and n: "n \<noteq> 0" "n \<le> m_tiny_limit c"
    using assms by (auto simp: tiny_serves_def)
  have e: "t \<le> 31" "unat (m_tiny_limit c) = 2 ^ t" using t(1) by (simp_all add: config_exponents_def)
  have "unat n \<le> 2 ^ t" using n(2) e(2) by (simp add: word_le_unat)
  moreover have "(2::nat) ^ t \<le> 2 ^ 31" using e(1) by (intro power_increasing) simp_all
  ultimately show ?thesis using that t(2) e n(1) by (meson order_trans)
qed

interpretation tiny: size_classes tiny_serves tiny_classes tiny_class tiny_width
proof (unfold_locales, goal_cases)
  case (1 c n)
  then obtain t where t: "3 \<le> t" "t \<le> 31" "unat (m_tiny_limit c) = 2 ^ t" "n \<noteq> 0" "unat n \<le> 2 ^ t" "unat n \<le> 2 ^ 31"
    by (rule tiny_serves_exponent)
  have p: "(2::nat) ^ t = 8 * 2 ^ (t - 3)" using power_add [of "2::nat" 3 "t - 3"] t(1) by simp
  have "tiny_classes c = 2 ^ (t - 3)" using t(3) p by (simp add: tiny_classes_def unat_div_word)
  moreover have "(unat n + 7) div 8 \<le> 2 ^ (t - 3)" using t(5) p by simp
  ultimately show ?case using tiny_class_eq [OF t(4,6)] by simp
next
  case (2 c n)
  then obtain t where "n \<noteq> 0" "unat n \<le> 2 ^ 31" by (rule tiny_serves_exponent)
  note e = tiny_class_eq [OF this]
  show ?case by (simp add: tiny_width_def e(1) e(2))
next
  case (3 c n)
  then obtain t where "n \<noteq> 0" "unat n \<le> 2 ^ 31" by (metis tiny_serves_exponent)
  note e = tiny_class_eq(1) [OF this, of c]
  show ?case using e 3(2) by (simp add: tiny_width_def)
next
  case 4
  then show ?case by (simp add: tiny_width_def)
qed

text \<open>The bit length of the quotient by the tiny limit is the class.\<close>

lemma bucket_class_bounds:
  assumes "bucket_serves c n"
  obtains t s l where "config_exponents c t s l"
    and "2 ^ (t + bucket_class c n) < unat n" and "unat n \<le> 2 ^ (t + bucket_class c n + 1)"
    and "bucket_class c n < l - t + 1"
proof -
  obtain t s l where e: "config_exponents c t s l" and n: "m_tiny_limit c < n" "unat n \<le> 2 * unat (m_large_limit c)"
    using assms by (auto simp: bucket_serves_def)
  have x: "unat (m_tiny_limit c) = 2 ^ t" "unat (m_large_limit c) = 2 ^ l" "unat (m_bucket_shift c) = t" "t < l" "l \<le> 31"
    using e by (simp_all add: config_exponents_def)
  have lt: "2 ^ t < unat n" using n(1) x(1) by (simp add: word_less_unat)
  then have "n \<noteq> 0" by auto
  then have n1: "unat (n - 1) = unat n - 1" by (rule unat_minus_one_pos)
  let ?q = "drop_bit t (n - 1)" and ?m = "(unat n - 1) div 2 ^ t"
  have q: "unat ?q = ?m" by (simp add: unat_drop_bit n1)
  have "2 ^ t \<le> unat n - 1" using lt by linarith
  then have m: "0 < ?m" by (simp add: div_greater_zero_iff)
  then have "?q \<noteq> 0" using q by (metis less_irrefl unat_0)
  let ?k = "unat (log2_c ?q)"
  have k: "1 \<le> ?k" "?m < 2 ^ ?k" "2 ^ (?k - 1) \<le> ?m"
    using log2_c_bounds [of ?q] \<open>?q \<noteq> 0\<close> unfolding q by blast+
  have "log2_c ?q \<noteq> 0" using k(1) by (metis not_one_le_zero unat_0)
  then have b: "bucket_class c n = ?k - 1"
    by (simp add: bucket_class_def bucket_index_def x(3) unat_minus_one_pos)
  have "2 ^ (t + (?k - 1)) \<le> 2 ^ t * ?m" using k(3) by (simp add: power_add)
  also have "\<dots> \<le> unat n - 1" by simp
  finally have lo: "2 ^ (t + (?k - 1)) < unat n" using lt by linarith
  have "unat n - 1 < 2 ^ t * 2 ^ ?k" using k(2) by (simp add: div_less_iff_less_mult mult.commute)
  then have hi: "unat n \<le> 2 ^ (t + (?k - 1) + 1)" using k(1) lt by (simp add: power_add [symmetric])
  have "unat n \<le> 2 ^ (l + 1)" using n(2) x(2) by simp
  then have "(2::nat) ^ (t + (?k - 1)) < 2 ^ (l + 1)" using lo by linarith
  then have "t + (?k - 1) < l + 1" by (rule power_less_imp_less_exp [rotated]) simp
  then show ?thesis using that [OF e] lo hi x(4) unfolding b by simp
qed

lemma bucket_width_exp: "config_exponents c t s l \<Longrightarrow> bucket_width c i = 2 ^ (t + i + 1)"
  by (simp add: bucket_width_def config_exponents_def power_add)

lemma bucket_classes_exp: "config_exponents c t s l \<Longrightarrow> bucket_classes c = l - t + 1"
  by (simp add: bucket_classes_def config_exponents_def)

interpretation bucket: size_classes bucket_serves bucket_classes bucket_class bucket_width
proof (unfold_locales, goal_cases)
  case (1 c n)
  then obtain t s l where "config_exponents c t s l" "bucket_class c n < l - t + 1"
    by (rule bucket_class_bounds)
  then show ?case by (simp add: bucket_classes_exp)
next
  case (2 c n)
  then obtain t s l where "config_exponents c t s l" "unat n \<le> 2 ^ (t + bucket_class c n + 1)"
    by (rule bucket_class_bounds)
  then show ?case by (simp add: bucket_width_exp)
next
  case (3 c n)
  from 3(1) obtain t s l where e: "config_exponents c t s l" "2 ^ (t + bucket_class c n) < unat n"
    by (rule bucket_class_bounds)
  then show ?case using 3(2) by (simp add: bucket_width_exp [OF e(1)])
next
  case (4 i j c)
  then show ?case by (simp add: bucket_width_def)
qed

end
