(* ===== verification/Heap.thy ===== *)
theory Heap
  imports Fixed_Size_Heap Size_Class
begin

text \<open>
  The heap of \<open>include/hwmalloc/heap.hpp\<close> and the user allocations of
  \<open>include/hwmalloc/detail/user_allocation.hpp\<close>: a request is served by the fixed-size heap of its
  size class, the classes being linear up to the tiny limit, powers of two up to the largest size,
  and made on demand beyond it; a block is freed through the pointers it carries.
\<close>

section \<open>State\<close>

text \<open>
  A user allocation is memory of the user's that was registered: the host pointer, whether the heap
  allocated it and has to free it, and the registrations. The heap's state holds, beside its
  members, the objects it made: the pools, by position, and the user allocations, by identity.
\<close>

record user_allocation =
  ua_ptr :: u64
  ua_delete :: bool
  ua_region :: region
  ua_device_region :: "region option"

record 's heap =
  h_config :: heap_config
  h_max_size :: u64
  h_tiny_heaps :: "fixed_size_heap option list"
  h_heaps :: "fixed_size_heap option list"
  h_huge_heaps :: "(u64 \<times> fixed_size_heap) list"
  h_pools :: "'s pool list"
  h_users :: "(nat \<times> user_allocation) list"

type_synonym ('s, 'a) heap_result = "('s heap \<times> world \<times> (fault + 'a)) option"

section \<open>Constructor\<close>

text \<open>
  The loops of the constructor as lists of what they build: the slot, the block size and the segment
  size of each fixed-size heap.
\<close>

type_synonym slot = "nat \<times> u64 \<times> u64"

definition tiny_slots :: "heap_config \<Rightarrow> nat \<Rightarrow> slot list" where
  "tiny_slots c n = map (\<lambda>i. (i, m_tiny_increment * of_nat (i + 1), m_tiny_segment_size c)) [0 ..< n]"

definition small_slots :: "heap_config \<Rightarrow> slot list" where
  "small_slots c =
     map (\<lambda>i. (i, push_bit (i + 1) (m_tiny_limit c), m_small_segment_size c))
       [0 ..< unat (m_num_small_heaps c)]"

definition large_slots :: "heap_config \<Rightarrow> slot list" where
  "large_slots c =
     map (\<lambda>i. (i + unat (m_num_small_heaps c), push_bit (i + 1) (m_small_limit c), m_large_segment_size c))
       [0 ..< unat (m_num_large_heaps c)]"

definition huge_slots :: "heap_config \<Rightarrow> nat \<Rightarrow> slot list" where
  "huge_slots c n =
     map (\<lambda>i. (i + unat (m_num_small_heaps c) + unat (m_num_large_heaps c),
               push_bit (i + 1) (m_large_limit c), push_bit (i + 1) (m_large_limit c)))
       [0 ..< unat (of_nat n - (m_num_small_heaps c + m_num_large_heaps c))]"

fun build_heaps ::
  "('h, 's) env \<Rightarrow> world \<Rightarrow> heap_config \<Rightarrow> slot list \<Rightarrow> 's pool list \<Rightarrow> fixed_size_heap option list
     \<Rightarrow> fault + 's pool list \<times> fixed_size_heap option list" where
  "build_heaps e w c [] ps hs = Inr (ps, hs)"
| "build_heaps e w c ((i, block_size, segment_size) # slots) ps hs =
     bindE (make_fixed_size_heap e w ps block_size segment_size (m_never_free c) (m_num_reserve_segments c))
       (\<lambda>(ps', h). bindE (vector_put hs i h) (\<lambda>hs'. build_heaps e w c slots ps' hs'))"

definition make_heap :: "('h, 's) env \<Rightarrow> world \<Rightarrow> heap_config \<Rightarrow> fault + 's heap" where
  "make_heap e w c =
     bindE (round_to_pow_of_2 (m_large_limit c * 2)) (\<lambda>r.
       let max_size = max r (m_large_limit c);
           n_tiny = unat (m_tiny_limit c div m_tiny_increment);
           n = unat (bucket_index max_size (m_bucket_shift c) + 1)
       in bindE (build_heaps e w c (tiny_slots c n_tiny) [] (replicate n_tiny None)) (\<lambda>(ps, tiny).
          bindE (build_heaps e w c (small_slots c @ large_slots c @ huge_slots c n) ps (replicate n None))
            (\<lambda>(ps', hs).
            Inr \<lparr>h_config = c, h_max_size = max_size, h_tiny_heaps = tiny, h_heaps = hs,
                 h_huge_heaps = [], h_pools = ps', h_users = []\<rparr>)))"

text \<open>
  The one instance for the whole process. The first call makes it, with the default configuration;
  if that throws, the next call tries again.
\<close>

definition get_instance ::
  "('h, 's) env \<Rightarrow> world \<Rightarrow> (string \<Rightarrow> string option) \<Rightarrow> heap_config option \<Rightarrow> 's heap option
     \<Rightarrow> heap_config option \<times> 's heap option \<times> (fault + 's heap)" where
  "get_instance e w getenv config instance_ptr =
     (case instance_ptr of
        Some h \<Rightarrow> (config, Some h, Inr h)
      | None \<Rightarrow>
          (case get_default_heap_config getenv config of
             (config', Inl f) \<Rightarrow> (config', None, Inl f)
           | (config', Inr c) \<Rightarrow>
               (case make_heap e w c of
                  Inl f \<Rightarrow> (config', None, Inl f)
                | Inr h \<Rightarrow> (config', Some h, Inr h))))"

section \<open>Allocation\<close>

text \<open>
  The fixed-size heap that serves a size, and the heap with it in place: beyond the largest size it
  is made when first needed.
\<close>

definition size_class :: "('h, 's) env \<Rightarrow> 's heap \<Rightarrow> world \<Rightarrow> u64 \<Rightarrow> fault + 's heap \<times> fixed_size_heap" where
  "size_class e h w bytes =
     (if bytes \<le> m_tiny_limit (h_config h) then
        bindE (vector_deref (h_tiny_heaps h) (unat (tiny_bucket_index bytes m_tiny_increment m_tiny_increment_shift)))
          (\<lambda>f. Inr (h, f))
      else if bytes \<le> h_max_size h then
        bindE (vector_deref (h_heaps h) (unat (bucket_index bytes (m_bucket_shift (h_config h))))) (\<lambda>f. Inr (h, f))
      else
        bindE (round_to_pow_of_2 bytes) (\<lambda>s.
          case map_of (h_huge_heaps h) s of
            Some f \<Rightarrow> Inr (h, f)
          | None \<Rightarrow>
              bindE (make_fixed_size_heap e w (h_pools h) s s (m_never_free (h_config h))
                       (m_num_reserve_segments (h_config h)))
                (\<lambda>(ps, f). Inr (h\<lparr>h_huge_heaps := (s, f) # h_huge_heaps h, h_pools := ps\<rparr>, f))))"

definition in_store :: "'s heap \<Rightarrow> ('s, 'a) store_result \<Rightarrow> ('s, 'a) heap_result" where
  "in_store h = map_option (\<lambda>(ps, w, r). (h\<lparr>h_pools := ps\<rparr>, w, r))"

definition heap_allocate :: "('h, 's) env \<Rightarrow> 's heap \<Rightarrow> world \<Rightarrow> u64 \<Rightarrow> u64 \<Rightarrow> ('s, 'h block) heap_result" where
  "heap_allocate e h w bytes numa_node =
     (case size_class e h w bytes of
        Inl f \<Rightarrow> Some (h, w, Inl f)
      | Inr (h', f) \<Rightarrow> in_store h' (fixed_allocate e f (h_pools h') w numa_node))"

definition heap_allocate_device ::
  "('h, 's) env \<Rightarrow> 's heap \<Rightarrow> world \<Rightarrow> u64 \<Rightarrow> u64 \<Rightarrow> int \<Rightarrow> ('s, 'h block) heap_result" where
  "heap_allocate_device e h w bytes numa_node device_id =
     (case size_class e h w bytes of
        Inl f \<Rightarrow> Some (h, w, Inl f)
      | Inr (h', f) \<Rightarrow> in_store h' (fixed_allocate_device e f (h_pools h') w numa_node device_id))"

section \<open>User allocations\<close>

definition ua_free :: "world \<Rightarrow> u64 \<Rightarrow> bool \<Rightarrow> world" where
  "ua_free w ptr delete = (if ptr \<noteq> 0 \<and> delete then Dealloc Std_Memory ptr # w else w)"

definition make_user_allocation ::
  "('h, 's) env \<Rightarrow> world \<Rightarrow> u64 \<Rightarrow> bool \<Rightarrow> u64 \<Rightarrow> world \<times> (fault + user_allocation)" where
  "make_user_allocation e w ptr delete bytes =
     (case register_memory (ev_context e) w ptr bytes of
        (w1, Inl f) \<Rightarrow> (ua_free w1 ptr delete, Inl f)
      | (w1, Inr r) \<Rightarrow> (w1, Inr \<lparr>ua_ptr = ptr, ua_delete = delete, ua_region = r, ua_device_region = None\<rparr>))"

text \<open>With a device pointer. The members built so far are destroyed when a later one throws.\<close>

definition make_device_user_allocation ::
  "('h, 's) env \<Rightarrow> world \<Rightarrow> u64 \<Rightarrow> bool \<Rightarrow> u64 \<Rightarrow> int \<Rightarrow> u64 \<Rightarrow> world \<times> (fault + user_allocation)" where
  "make_device_user_allocation e w ptr delete device_ptr device_id bytes =
     (case make_user_allocation e w ptr delete bytes of
        (w1, Inl f) \<Rightarrow> (w1, Inl f)
      | (w1, Inr ua) \<Rightarrow>
          (case register_device_memory (ev_context e) (device_kind (ev_device e) = Gpu_Memory) w1
                  device_id device_ptr bytes of
             (w2, Inl f) \<Rightarrow> (ua_free (Deregister (ua_region ua) # w2) ptr delete, Inl f)
           | (w2, Inr dr) \<Rightarrow> (w2, Inr (ua\<lparr>ua_device_region := Some dr\<rparr>))))"

text \<open>The mirror on the host of device memory comes from \<open>std::malloc\<close>, unchecked.\<close>

definition malloc_mirror :: "os \<Rightarrow> world \<Rightarrow> u64 \<Rightarrow> world \<times> u64" where
  "malloc_mirror os w bytes =
     (let p = os_malloc os w bytes
      in ((if p = 0 then Alloc_Failed Std_Memory (unat bytes) else Alloc Std_Memory p (unat bytes)) # w, p))"

definition user_block ::
  "('h, 's) env \<Rightarrow> nat \<Rightarrow> user_allocation \<Rightarrow> u64 \<Rightarrow> u64 \<Rightarrow> int \<Rightarrow> 'h block" where
  "user_block e this ua bytes device_ptr device_id =
     \<lparr>m_segment = None, m_user_allocation = Some this, m_ptr = ua_ptr ua,
      m_handle = cx_get_handle (ev_context e) (ua_region ua) 0 bytes, m_device_ptr = device_ptr,
      m_device_handle = (case ua_device_region ua of
          None \<Rightarrow> cx_default_handle (ev_context e)
        | Some dr \<Rightarrow> cx_get_handle (ev_context e) dr 0 bytes),
      m_device_id = device_id\<rparr>"

definition keep_user_allocation ::
  "('h, 's) env \<Rightarrow> 's heap \<Rightarrow> world \<times> (fault + user_allocation) \<Rightarrow> u64 \<Rightarrow> u64 \<Rightarrow> int
     \<Rightarrow> 's heap \<times> world \<times> (fault + 'h block)" where
  "keep_user_allocation e h made bytes device_ptr device_id =
     (case made of
        (w, Inl f) \<Rightarrow> (h, w, Inl f)
      | (w, Inr ua) \<Rightarrow>
          (h\<lparr>h_users := (length w, ua) # h_users h\<rparr>, New_Object (length w) # w,
           Inr (user_block e (length w) ua bytes device_ptr device_id)))"

definition register_user_allocation ::
  "('h, 's) env \<Rightarrow> 's heap \<Rightarrow> world \<Rightarrow> u64 \<Rightarrow> u64 \<Rightarrow> 's heap \<times> world \<times> (fault + 'h block)" where
  "register_user_allocation e h w ptr bytes =
     keep_user_allocation e h (make_user_allocation e w ptr False bytes) bytes 0 0"

definition register_user_device_allocation ::
  "('h, 's) env \<Rightarrow> 's heap \<Rightarrow> world \<Rightarrow> u64 \<Rightarrow> int \<Rightarrow> u64 \<Rightarrow> 's heap \<times> world \<times> (fault + 'h block)" where
  "register_user_device_allocation e h w device_ptr device_id bytes =
     (case malloc_mirror (ne_os (ev_numa e)) w bytes of
        (w1, p) \<Rightarrow> keep_user_allocation e h
                      (make_device_user_allocation e w1 p True device_ptr device_id bytes) bytes device_ptr device_id)"

definition register_user_mirrored_allocation ::
  "('h, 's) env \<Rightarrow> 's heap \<Rightarrow> world \<Rightarrow> u64 \<Rightarrow> u64 \<Rightarrow> int \<Rightarrow> u64 \<Rightarrow> 's heap \<times> world \<times> (fault + 'h block)" where
  "register_user_mirrored_allocation e h w ptr device_ptr device_id bytes =
     keep_user_allocation e h
       (make_device_user_allocation e w ptr False device_ptr device_id bytes) bytes device_ptr device_id"

definition destroy_user_allocation :: "world \<Rightarrow> user_allocation \<Rightarrow> world" where
  "destroy_user_allocation w ua =
     (let w1 = (case ua_device_region ua of None \<Rightarrow> w | Some dr \<Rightarrow> Deregister dr # w)
      in ua_free (Deregister (ua_region ua) # w1) (ua_ptr ua) (ua_delete ua))"

section \<open>Release\<close>

text \<open>
  \<open>block_t::release\<close> and what it calls are \<open>noexcept\<close>: an exception ends the program.
\<close>

definition noexcept_result :: "fault + 'a \<Rightarrow> fault + 'a" where
  "noexcept_result r =
     (case r of
        Inl (Runtime_Error _) \<Rightarrow> Inl Terminated
      | Inl Invalid_Argument \<Rightarrow> Inl Terminated
      | Inl Out_Of_Range \<Rightarrow> Inl Terminated
      | _ \<Rightarrow> r)"

text \<open>All segments that exist, of whatever pool.\<close>

definition all_segments :: "'s pool list \<Rightarrow> (nat \<times> 's segment) list" where
  "all_segments ps = concat (map p_segments ps)"

definition release_from_segment :: "('h, 's) env \<Rightarrow> 's heap \<Rightarrow> world \<Rightarrow> 'h block \<Rightarrow> nat \<Rightarrow> ('s, unit) heap_result" where
  "release_from_segment e h w b this =
     (case map_of (all_segments (h_pools h)) this of
        None \<Rightarrow> Some (h, w, Inl (Undefined Dangling_Deref))
      | Some seg \<Rightarrow>
          map_option (\<lambda>(h', w', r). (h', w', noexcept_result r))
            (in_store h (with_pool (s_pool seg) (\<lambda>p w. pool_free e p w b) (h_pools h) w)))"

definition release_user_allocation :: "'s heap \<Rightarrow> world \<Rightarrow> nat \<Rightarrow> ('s, unit) heap_result" where
  "release_user_allocation h w this =
     (case map_of (h_users h) this of
        None \<Rightarrow> Some (h, w, Inl (Undefined Dangling_Deref))
      | Some ua \<Rightarrow>
          Some (h\<lparr>h_users := filter (\<lambda>u. fst u \<noteq> this) (h_users h)\<rparr>, destroy_user_allocation w ua, Inr ()))"

definition release :: "('h, 's) env \<Rightarrow> 's heap \<Rightarrow> world \<Rightarrow> 'h block \<Rightarrow> ('s, unit) heap_result" where
  "release e h w b =
     (case m_segment b of
        Some this \<Rightarrow> release_from_segment e h w b this
      | None \<Rightarrow>
          (case m_user_allocation b of
             Some this \<Rightarrow> release_user_allocation h w this
           | None \<Rightarrow> Some (h, w, Inr ())))"

text \<open>A fixed-size heap frees a block in the same way.\<close>

definition fixed_free :: "('h, 's) env \<Rightarrow> 's heap \<Rightarrow> world \<Rightarrow> 'h block \<Rightarrow> ('s, unit) heap_result" where
  "fixed_free e h w b = release e h w b"

definition heap_free :: "('h, 's) env \<Rightarrow> 's heap \<Rightarrow> world \<Rightarrow> 'h block \<Rightarrow> ('s, unit) heap_result" where
  "heap_free e h w b = release e h w b"

end
