(* ===== verification/Heap_Invariant.thy ===== *)
theory Heap_Invariant
  imports Heap
begin

text \<open>
  The invariant of the heap, \<open>include/hwmalloc/heap.hpp\<close>: every slot holds the fixed-size heap of its
  class, and the store of pools is as the pools left it. The constructor establishes it, and
  allocation and release keep it.
\<close>

section \<open>The segments of all pools together\<close>

lemma sum_list_replicate_empty [simp]: "sum_list (replicate n {#}) = {#}"
  by (induction n) simp_all

lemma sum_list_update_mset:
  "k < length Us \<Longrightarrow> sum_list (Us[k := X]) + Us ! k = sum_list Us + (X :: 'a multiset)"
  by (induction Us arbitrary: k) (auto simp: nth_Cons add_ac split: nat.split)

lemma mset_all_segments: "mset (all_segments ps) = sum_list (map pool_segments ps)"
  by (simp add: all_segments_def mset_concat comp_def)

lemma backings_of_union [simp]: "backings_of e (M + N) = backings_of e M + backings_of e N"
  by (simp add: backings_of_def)

lemma blocks_of_union [simp]: "blocks_of e (M + N) = blocks_of e M + blocks_of e N"
  by (simp add: blocks_of_def)

lemma store_backings_segments: "store_backings e ps = backings_of e (mset (all_segments ps))"
  by (induction ps) (simp_all add: store_backings_def pool_backings_def all_segments_def)

lemma all_segments_ids: "map fst (all_segments ps) = concat (map seg_ids ps)"
  unfolding seg_ids_def [abs_def] by (simp add: all_segments_def map_concat comp_def)

lemma store_segment:
  assumes "store_inv e G ps w Us" and "(i, seg) \<in> set (all_segments ps)"
  obtains k where "k < length ps" and "(i, seg) \<in> set (p_segments (ps ! k))" and "s_pool seg = k"
    and "pool_segment_ok e (ps ! k) i seg"
proof -
  obtain p where p: "p \<in> set ps" "(i, seg) \<in> set (p_segments p)"
    using assms(2) by (auto simp: all_segments_def)
  then obtain k where k: "k < length ps" "(i, seg) \<in> set (p_segments (ps ! k))" by (metis in_set_conv_nth)
  then have "pool_ok e (ps ! k) w (Us ! k)" "p_self (ps ! k) = k" using assms(1) by (simp_all add: store_inv_def)
  then have "pool_segment_ok e (ps ! k) i seg" "s_pool seg = k" using k(2) by (auto simp: pool_ok_def pool_segment_ok_def)
  then show ?thesis using that k by blast
qed

lemma store_lookup:
  assumes "store_inv e G ps w Us" and "k < length ps" and "(i, seg) \<in> set (p_segments (ps ! k))"
  shows "map_of (all_segments ps) i = Some seg"
proof -
  have "distinct (map fst (all_segments ps))" using assms(1) by (simp add: store_inv_def all_segments_ids)
  moreover have "(i, seg) \<in> set (all_segments ps)" using assms(2,3) by (auto simp: all_segments_def)
  ultimately show ?thesis by simp
qed

lemma store_blocks:
  assumes "store_inv e G ps w Us"
  shows "sum_list Us \<subseteq># blocks_of e (mset (all_segments ps))"
proof -
  have l: "length Us = length ps" and "\<forall>k < length ps. Us ! k \<subseteq># blocks_of e (pool_segments (ps ! k))"
    using assms by (auto simp: store_inv_def pool_ok_def) (metis mset_subset_eq_add_right)
  then show ?thesis
  proof (induction Us ps rule: list_induct2)
    case Nil
    then show ?case by simp
  next
    case (Cons U Us p ps)
    then have "U \<subseteq># blocks_of e (pool_segments p)" "sum_list Us \<subseteq># blocks_of e (mset (all_segments ps))" by force+
    then show ?case by (simp add: all_segments_def subset_mset.add_mono)
  qed
qed

text \<open>A block that a user holds knows its segment, and the segment its pool.\<close>

lemma store_held_at:
  assumes st: "store_inv e G ps w Us" and k: "k < length ps" and b: "b \<in># Us ! k"
  obtains i seg where "m_segment b = Some i" and "map_of (all_segments ps) i = Some seg" and "s_pool seg = k"
    and "b \<in> set (seg_blocks e i seg)" and "pool_segment_ok e (ps ! k) i seg" and "(i, seg) \<in> set (all_segments ps)"
proof -
  have p: "pool_ok e (ps ! k) w (Us ! k)" using st k by (simp add: store_inv_def)
  obtain i seg where i: "m_segment b = Some i" "(i, seg) \<in> set (p_segments (ps ! k))" "b \<in> set (seg_blocks e i seg)"
    using block_in_pool [OF p, of b] b by (metis union_iff)
  have a: "(i, seg) \<in> set (all_segments ps)" using k i(2) by (auto simp: all_segments_def)
  have "pool_segment_ok e (ps ! k) i seg" using p i(2) by (simp add: pool_ok_def)
  moreover from this have "s_pool seg = k" using st k by (simp add: pool_segment_ok_def store_inv_def)
  ultimately show ?thesis using that i store_lookup [OF st k i(2)] a by blast
qed

lemma store_held:
  assumes st: "store_inv e G ps w Us" and b: "b \<in># sum_list Us"
  obtains k i seg where "k < length ps" and "b \<in># Us ! k" and "m_segment b = Some i"
    and "map_of (all_segments ps) i = Some seg" and "s_pool seg = k" and "b \<in> set (seg_blocks e i seg)"
    and "pool_segment_ok e (ps ! k) i seg" and "(i, seg) \<in> set (all_segments ps)"
proof -
  have "\<exists>U \<in> set Us. b \<in># U" using b by (induction Us) auto
  then obtain k where k: "k < length Us" "b \<in># Us ! k" by (metis in_set_conv_nth)
  then have k': "k < length ps" using st by (simp add: store_inv_def)
  from store_held_at [OF st k' k(2)] show ?thesis using that k' k(2) by metis
qed

section \<open>The invariant\<close>

text \<open>
  What the heap relies on: nodes and devices are known, the number of devices does not change, and
  the sizes of the memory pages and of the tables are representable.
\<close>

definition heap_env :: "('h, 's) env \<Rightarrow> nat \<Rightarrow> bool" where
  "heap_env e nd \<longleftrightarrow> env_ok e \<and> nodes_ok (ev_numa e) \<and> (\<forall>w. num_devices e w = Inr nd) \<and>
     unat (page_size (ev_numa e)) \<le> 2 ^ 63 \<and> num_nodes e * nd < 2 ^ 64"

lemma heap_envD:
  assumes "heap_env e nd"
  shows "env_ok e" and "nodes_ok (ev_numa e)" and "num_devices e w = Inr nd"
    and "bs \<noteq> 0 \<Longrightarrow> bs \<le> ss \<Longrightarrow> unat ss \<le> 2 ^ 31 \<Longrightarrow> sizes_ok e bs ss"
  using assms by (simp_all add: heap_env_def sizes_ok_def)

definition fixed_at :: "('h, 's) env \<Rightarrow> nat \<Rightarrow> 's pool list \<Rightarrow> nat \<Rightarrow> fixed_size_heap \<Rightarrow> bool" where
  "fixed_at e nd ps n f \<longleftrightarrow> fixed_ok e ps f \<and> unat (f_block_size f) = n \<and> f_num_devices f = nd
     \<and> unat (f_segment_size f) \<le> 2 ^ 31"

definition slot_at ::
  "('h, 's) env \<Rightarrow> nat \<Rightarrow> 's pool list \<Rightarrow> fixed_size_heap option list \<Rightarrow> nat \<Rightarrow> nat \<Rightarrow> bool" where
  "slot_at e nd ps hs i n \<longleftrightarrow> i < length hs \<and> (\<exists>f. hs ! i = Some f \<and> fixed_at e nd ps n f)"

definition heap_shape :: "('h, 's) env \<Rightarrow> nat \<Rightarrow> 's heap \<Rightarrow> bool" where
  "heap_shape e nd h \<longleftrightarrow>
     (\<exists>t s l. config_exponents (h_config h) t s l \<and> l \<le> 30) \<and>
     unat (h_max_size h) = 2 * unat (m_large_limit (h_config h)) \<and>
     length (h_tiny_heaps h) = tiny_classes (h_config h) \<and>
     (\<forall>i < tiny_classes (h_config h). slot_at e nd (h_pools h) (h_tiny_heaps h) i (tiny_width (h_config h) i)) \<and>
     length (h_heaps h) = bucket_classes (h_config h) \<and>
     (\<forall>i < bucket_classes (h_config h). slot_at e nd (h_pools h) (h_heaps h) i (bucket_width (h_config h) i)) \<and>
     (\<forall>s f. (s, f) \<in> set (h_huge_heaps h) \<longrightarrow> fixed_at e nd (h_pools h) (unat s) f)"

text \<open>\<open>U\<close> gives the blocks of segments that users hold, of whatever size.\<close>

definition heap_inv ::
  "('h, 's) env \<Rightarrow> nat \<Rightarrow> backing multiset \<Rightarrow> 's heap \<Rightarrow> world \<Rightarrow> 'h block multiset \<Rightarrow> bool" where
  "heap_inv e nd G h w U \<longleftrightarrow> heap_shape e nd h \<and> (\<exists>Us. store_inv e G (h_pools h) w Us \<and> U = sum_list Us)"

lemma fixed_at_append: "fixed_at e nd ps n f \<Longrightarrow> fixed_at e nd (ps @ qs) n f"
  by (simp add: fixed_at_def fixed_ok_append)

lemma fixed_at_update: "fixed_at e nd ps n f \<Longrightarrow> same_pool p (ps ! k) \<Longrightarrow> fixed_at e nd (ps[k := p]) n f"
  by (simp add: fixed_at_def fixed_ok_update)

lemma slot_at_append: "slot_at e nd ps hs i n \<Longrightarrow> slot_at e nd (ps @ qs) hs i n"
  using fixed_at_append unfolding slot_at_def by blast

lemma slot_at_update: "slot_at e nd ps hs i n \<Longrightarrow> same_pool p (ps ! k) \<Longrightarrow> slot_at e nd (ps[k := p]) hs i n"
  using fixed_at_update unfolding slot_at_def by blast

lemma heap_shape_append: "heap_shape e nd h \<Longrightarrow> heap_shape e nd (h\<lparr>h_pools := h_pools h @ qs\<rparr>)"
  unfolding heap_shape_def by (auto intro: slot_at_append fixed_at_append)

lemma heap_shape_update:
  "heap_shape e nd h \<Longrightarrow> same_pool p (h_pools h ! k) \<Longrightarrow> heap_shape e nd (h\<lparr>h_pools := (h_pools h)[k := p]\<rparr>)"
  unfolding heap_shape_def by (auto intro: slot_at_update fixed_at_update)

section \<open>The constructor\<close>

lemma make_fixed_at:
  assumes env: "heap_env e nd" and "bs \<noteq> 0" "bs \<le> ss" "unat ss \<le> 2 ^ 31" and st: "store_inv e G ps w Us"
  obtains qs f where "make_fixed_size_heap e w ps bs ss nf nr = Inr (ps @ qs, f)"
    and "store_inv e G (ps @ qs) w (Us @ replicate (length qs) {#})"
    and "fixed_at e nd (ps @ qs) (unat bs) f"
proof -
  note ev = heap_envD [OF env]
  show ?thesis
    using make_fixed_size_heap_ok [OF ev(1,2) ev(4) [OF assms(2-4)] st ev(3)] that assms(4)
    by (auto simp: fixed_at_def)
qed

lemma build_heaps_ok:
  assumes env: "heap_env e nd"
    and "\<forall>(i, bs, ss) \<in> set slots. i < length hs \<and> bs \<noteq> 0 \<and> bs \<le> ss \<and> unat ss \<le> 2 ^ 31"
    and "distinct (map fst slots)" and "store_inv e G ps w Us"
  shows "\<exists>qs hs'. build_heaps e w c slots ps hs = Inr (ps @ qs, hs')
    \<and> store_inv e G (ps @ qs) w (Us @ replicate (length qs) {#}) \<and> length hs' = length hs
    \<and> (\<forall>i n. i \<notin> fst ` set slots \<and> slot_at e nd ps hs i n \<or> (\<exists>bs ss. (i, bs, ss) \<in> set slots \<and> n = unat bs)
         \<longrightarrow> slot_at e nd (ps @ qs) hs' i n)"
  using assms(2-)
proof (induction slots arbitrary: ps hs Us)
  case Nil
  then show ?case by (intro exI [of _ "[]"] exI [of _ hs]) simp
next
  case (Cons slot slots)
  obtain i bs ss where s: "slot = (i, bs, ss)" by (cases slot)
  have i: "i < length hs" "bs \<noteq> 0" "bs \<le> ss" "unat ss \<le> 2 ^ 31" using Cons.prems(1) s by simp_all
  obtain qs f where f: "make_fixed_size_heap e w ps bs ss (m_never_free c) (m_num_reserve_segments c) = Inr (ps @ qs, f)"
    "store_inv e G (ps @ qs) w (Us @ replicate (length qs) {#})" "fixed_at e nd (ps @ qs) (unat bs) f"
    using make_fixed_at [OF env i(2-4) Cons.prems(3)] .
  let ?hs = "hs[i := Some f]"
  have "\<forall>(i, bs, ss) \<in> set slots. i < length ?hs \<and> bs \<noteq> 0 \<and> bs \<le> ss \<and> unat ss \<le> 2 ^ 31"
    "distinct (map fst slots)" using Cons.prems(1,2) by auto
  from Cons.IH [OF this f(2)] obtain rs hs' where r:
    "build_heaps e w c slots (ps @ qs) ?hs = Inr ((ps @ qs) @ rs, hs')"
    "store_inv e G ((ps @ qs) @ rs) w ((Us @ replicate (length qs) {#}) @ replicate (length rs) {#})"
    "length hs' = length ?hs"
    and r4: "\<forall>j n. j \<notin> fst ` set slots \<and> slot_at e nd (ps @ qs) ?hs j n
        \<or> (\<exists>bs ss. (j, bs, ss) \<in> set slots \<and> n = unat bs) \<longrightarrow> slot_at e nd ((ps @ qs) @ rs) hs' j n"
    by (elim exE conjE)
  have old: "slot_at e nd ((ps @ qs) @ rs) hs' j n"
    if "j \<notin> fst ` set slots" "slot_at e nd (ps @ qs) ?hs j n" for j n
    using r4 that by blast
  have new: "slot_at e nd ((ps @ qs) @ rs) hs' j (unat bs')" if "(j, bs', ss') \<in> set slots" for j bs' ss'
    using r4 that by blast
  have "slot_at e nd (ps @ qs) ?hs j n" if "j \<noteq> i" "slot_at e nd ps hs j n" for j n
    using slot_at_append [OF that(2)] that(1) by (simp add: slot_at_def)
  moreover have "slot_at e nd (ps @ qs) ?hs i (unat bs)" using f(3) i(1) by (simp add: slot_at_def)
  moreover have "i \<notin> fst ` set slots" using Cons.prems(2) s by simp
  ultimately have "\<forall>j n. j \<notin> fst ` set (slot # slots) \<and> slot_at e nd ps hs j n
      \<or> (\<exists>bs ss. (j, bs, ss) \<in> set (slot # slots) \<and> n = unat bs) \<longrightarrow> slot_at e nd ((ps @ qs) @ rs) hs' j n"
    using old new s by auto
  then show ?case
    using r(1-3) f(1) s vector_put_def [of hs i f] i(1)
    by (intro exI [of _ "qs @ rs"] exI [of _ hs']) (simp add: replicate_add)
qed

text \<open>The sizes of the slots, class by class.\<close>

lemma push_bit_exp:
  "unat (a :: u64) = 2 ^ k \<Longrightarrow> k + j \<le> 31 \<Longrightarrow> unat (push_bit j a) = 2 ^ (k + j)"
proof -
  assume a: "unat a = 2 ^ k" and le: "k + j \<le> 31"
  have "(2::nat) ^ (k + j) \<le> 2 ^ 31" using le by (intro power_increasing) simp_all
  then have "unat a * 2 ^ j < 2 ^ 64" by (simp add: a power_add)
  then show ?thesis by (simp add: unat_push_bit a power_add)
qed

lemma slot_size_ok:
  assumes "unat (bs :: u64) = 2 ^ k" and "k \<le> j" and "2 ^ j \<le> unat ss" and "unat ss \<le> 2 ^ 31"
  shows "bs \<noteq> 0 \<and> bs \<le> ss \<and> unat ss \<le> 2 ^ 31"
proof -
  have "(2::nat) ^ k \<le> 2 ^ j" using assms(2) by (intro power_increasing) simp_all
  then have "unat bs \<le> unat ss" using assms(1,3) by linarith
  moreover have "bs \<noteq> 0" using assms(1) by auto
  ultimately show ?thesis using assms(4) by (simp add: word_le_unat)
qed

lemma tiny_slots_ok:
  assumes "config_exponents c t s l"
  shows "\<forall>(i, bs, ss) \<in> set (tiny_slots c (tiny_classes c)).
      i < tiny_classes c \<and> unat bs = tiny_width c i \<and> bs \<noteq> 0 \<and> bs \<le> ss \<and> unat ss \<le> 2 ^ 31"
    and "fst ` set (tiny_slots c (tiny_classes c)) = {0 ..< tiny_classes c}"
    and "distinct (map fst (tiny_slots c (tiny_classes c)))"
proof -
  have c: "unat (m_tiny_limit c) = 2 ^ t" "t \<le> 31" "m_tiny_limit c \<le> m_tiny_segment_size c"
    "unat (m_tiny_segment_size c) \<le> 2 ^ 31"
    using assms by (auto simp: config_exponents_def)
  have n: "tiny_classes c = 2 ^ t div 8" by (simp add: tiny_classes_def unat_div_word c)
  have t: "(2::nat) ^ t \<le> 2 ^ 31" using c(2) by (intro power_increasing) simp_all
  have "unat (8 * of_nat (i + 1) :: u64) = 8 * (i + 1) \<and> 8 * (i + 1) \<le> unat (m_tiny_segment_size c)"
    if i: "i < tiny_classes c" for i
  proof -
    have "(i + 1) * 8 \<le> 2 ^ t div 8 * 8" using i n by (intro mult_le_mono1) simp
    also have "\<dots> \<le> 2 ^ t" by simp
    finally have le: "8 * (i + 1) \<le> 2 ^ t" by simp
    then have small: "8 * (i + 1) < 2 ^ 64" using t by simp
    then have "unat (of_nat (8 * (i + 1)) :: u64) = 8 * (i + 1)" by (intro unat_of_nat_small) simp
    then show ?thesis using le c(1,3) by (simp add: word_le_unat)
  qed
  then show "\<forall>(i, bs, ss) \<in> set (tiny_slots c (tiny_classes c)).
      i < tiny_classes c \<and> unat bs = tiny_width c i \<and> bs \<noteq> 0 \<and> bs \<le> ss \<and> unat ss \<le> 2 ^ 31"
    using c(4) by (auto simp: tiny_slots_def tiny_width_def word_le_unat unat_eq_0 [symmetric] simp del: unat_eq_0 unat_eq_zero)
  show "fst ` set (tiny_slots c (tiny_classes c)) = {0 ..< tiny_classes c}"
    by (simp add: tiny_slots_def image_image)
  show "distinct (map fst (tiny_slots c (tiny_classes c)))"
    by (simp add: tiny_slots_def comp_def)
qed

definition bucket_slots :: "heap_config \<Rightarrow> slot list" where
  "bucket_slots c = small_slots c @ large_slots c @ huge_slots c (bucket_classes c)"

lemma bucket_slots_ok:
  assumes cfg: "config_exponents c t s l" and l: "l \<le> 30"
  shows "\<forall>(i, bs, ss) \<in> set (bucket_slots c).
      i < bucket_classes c \<and> unat bs = bucket_width c i \<and> bs \<noteq> 0 \<and> bs \<le> ss \<and> unat ss \<le> 2 ^ 31"
    and "fst ` set (bucket_slots c) = {0 ..< bucket_classes c}"
    and "distinct (map fst (bucket_slots c))"
proof -
  have c: "t < s" "s < l" "unat (m_tiny_limit c) = 2 ^ t" "unat (m_small_limit c) = 2 ^ s"
    "unat (m_large_limit c) = 2 ^ l" "unat (m_num_small_heaps c) = s - t" "unat (m_num_large_heaps c) = l - s"
    "m_small_limit c \<le> m_small_segment_size c" "m_large_limit c \<le> m_large_segment_size c"
    "unat (m_small_segment_size c) \<le> 2 ^ 31" "unat (m_large_segment_size c) \<le> 2 ^ 31"
    using cfg by (simp_all add: config_exponents_def)
  note width = bucket_width_exp [OF cfg]
  have n: "bucket_classes c = l - t + 1" by (rule bucket_classes_exp [OF cfg])
  have small: "unat (push_bit (i + 1) (m_tiny_limit c)) = 2 ^ (t + i + 1)" if "i < s - t" for i
    using push_bit_exp [OF c(3), of "i + 1"] that c(1,2) l by (simp add: add.assoc)
  have large: "unat (push_bit (i + 1) (m_small_limit c)) = 2 ^ (s + i + 1)" if "i < l - s" for i
    using push_bit_exp [OF c(4), of "i + 1"] that c(1,2) l by (simp add: add.assoc)
  have huge: "unat (push_bit 1 (m_large_limit c)) = 2 ^ (l + 1)"
    using push_bit_exp [OF c(5), of 1] l by simp
  have "unat (m_num_small_heaps c + m_num_large_heaps c) = l - t"
    using c l by (subst unat_add_no_wrap) simp_all
  moreover have "unat (of_nat (bucket_classes c) :: u64) = l - t + 1"
    unfolding n using l by (intro unat_of_nat_small) simp
  ultimately have "unat (of_nat (bucket_classes c) - (m_num_small_heaps c + m_num_large_heaps c)) = 1"
    by (subst unat_sub) (simp_all add: word_le_unat)
  then have hs: "huge_slots c (bucket_classes c) = [(l - t, push_bit 1 (m_large_limit c), push_bit 1 (m_large_limit c))]"
    using c by (simp add: huge_slots_def)
  have ok1: "bs \<noteq> 0 \<and> bs \<le> ss \<and> unat ss \<le> 2 ^ 31" if "bs = push_bit (i + 1) (m_tiny_limit c)"
    "i < s - t" "ss = m_small_segment_size c" for bs ss i
    using slot_size_ok [of bs "t + i + 1" s ss] small that c by (simp add: word_le_unat)
  have ok2: "bs \<noteq> 0 \<and> bs \<le> ss \<and> unat ss \<le> 2 ^ 31" if "bs = push_bit (i + 1) (m_small_limit c)"
    "i < l - s" "ss = m_large_segment_size c" for bs ss i
    using slot_size_ok [of bs "s + i + 1" l ss] large that c by (simp add: word_le_unat)
  have "(2::nat) ^ (l + 1) \<le> 2 ^ 31" using l by (intro power_increasing) simp_all
  then have ok3: "push_bit 1 (m_large_limit c) \<noteq> 0 \<and> unat (push_bit 1 (m_large_limit c)) \<le> 2 ^ 31"
    using slot_size_ok [of "push_bit 1 (m_large_limit c)" "l + 1" "l + 1" "push_bit 1 (m_large_limit c)"] huge by simp
  have "\<forall>(i, bs, ss) \<in> set (small_slots c).
      i < l - t + 1 \<and> unat bs = 2 ^ (t + i + 1) \<and> bs \<noteq> 0 \<and> bs \<le> ss \<and> unat ss \<le> 2 ^ 31"
    using c(1,2) small ok1 by (auto simp: small_slots_def c(6))
  moreover have "j < l - t + 1 \<and> unat bs = 2 ^ (t + j + 1) \<and> bs \<noteq> 0 \<and> bs \<le> ss \<and> unat ss \<le> 2 ^ 31"
    if j: "(j, bs, ss) \<in> set (large_slots c)" for j bs ss
  proof -
    obtain i where i: "i < l - s" "j = i + (s - t)" "bs = push_bit (i + 1) (m_small_limit c)"
      "ss = m_large_segment_size c"
      using j unfolding large_slots_def c(6,7) by auto
    have "t + j + 1 = s + i + 1" "j < l - t + 1" using i(1,2) c(1,2) by simp_all
    moreover from this(1) have "unat bs = 2 ^ (t + j + 1)" using large [OF i(1)] i(3) by (simp only:)
    ultimately show ?thesis using ok2 [OF i(3,1,4)] by blast
  qed
  moreover have "\<forall>(i, bs, ss) \<in> set (huge_slots c (bucket_classes c)).
      i < l - t + 1 \<and> unat bs = 2 ^ (t + i + 1) \<and> bs \<noteq> 0 \<and> bs \<le> ss \<and> unat ss \<le> 2 ^ 31"
    using c(1,2) huge ok3 by (simp add: hs)
  ultimately show "\<forall>(i, bs, ss) \<in> set (bucket_slots c).
      i < bucket_classes c \<and> unat bs = bucket_width c i \<and> bs \<noteq> 0 \<and> bs \<le> ss \<and> unat ss \<le> 2 ^ 31"
    unfolding bucket_slots_def set_append n width by blast
  have "map fst (large_slots c) = map (\<lambda>i. i + (s - t)) [0 ..< l - s]"
    by (simp add: large_slots_def c(6,7) comp_def)
  then have "map fst (large_slots c) = [s - t ..< l - s + (s - t)]" unfolding map_add_upt .
  then have "map fst (bucket_slots c) = [0 ..< s - t] @ [s - t ..< l - t] @ [l - t]"
    using c(1,2) by (simp add: bucket_slots_def small_slots_def hs c(6,7) comp_def)
  also have "\<dots> = [0 ..< s - t] @ [s - t ..< l - t + 1]" using c(1,2) by simp
  also have "\<dots> = [0 ..< l - t + 1]" using c(1,2) upt_add_eq_append [of 0 "s - t" "l - s + 1"] by simp
  finally have m: "map fst (bucket_slots c) = [0 ..< bucket_classes c]" using n by simp
  have "fst ` set (bucket_slots c) = set (map fst (bucket_slots c))" by simp
  then show "fst ` set (bucket_slots c) = {0 ..< bucket_classes c}" unfolding m by simp
  show "distinct (map fst (bucket_slots c))" unfolding m by simp
qed

lemma store_inv_new: "mem_inv G w \<Longrightarrow> store_inv e G [] w []"
  by (simp add: store_inv_def store_backings_def)

lemma max_size_ok:
  assumes "config_exponents c t s l" and "l \<le> 30"
  obtains m where "round_to_pow_of_2 (m_large_limit c * 2) = Inr m" and "max m (m_large_limit c) = m"
    and "unat m = 2 * unat (m_large_limit c)" and "unat (bucket_index m (m_bucket_shift c) + 1) = bucket_classes c"
proof -
  have c: "unat (m_large_limit c) = 2 ^ l" "unat (m_tiny_limit c) = 2 ^ t" "t < l"
    using assms(1) by (simp_all add: config_exponents_def)
  have "(2::nat) ^ l \<le> 2 ^ 30" using assms(2) by (intro power_increasing) simp_all
  then have m: "unat (m_large_limit c * 2) = 2 ^ (l + 1)" using c(1) by (subst unat_mult_no_wrap) simp_all
  then have r: "round_to_pow_of_2 (m_large_limit c * 2) = Inr (m_large_limit c * 2)"
    by (rule round_pow2) (use assms(2) in simp_all)
  have mx: "max (m_large_limit c * 2) (m_large_limit c) = m_large_limit c * 2"
    using m c(1) by (simp add: max_def word_le_unat)
  have "(2::nat) ^ t < 2 ^ (l + 1)" using c(3) by (intro power_strict_increasing) simp_all
  then have sv: "bucket_serves c (m_large_limit c * 2)"
    using assms(1) m c by (auto simp: bucket_serves_def word_less_unat)
  let ?b = "bucket_index (m_large_limit c * 2) (m_bucket_shift c)"
  have lt: "unat ?b < l - t + 1"
    using bucket.class_exists [OF sv] by (simp add: bucket_class_def bucket_classes_exp [OF assms(1)])
  moreover have "(2::nat) ^ (l + 1) \<le> 2 ^ (t + unat ?b + 1)"
    using bucket.class_fits [OF sv] m by (simp add: bucket_class_def bucket_width_exp [OF assms(1)])
  then have "l \<le> t + unat ?b" by simp
  ultimately have "unat ?b = l - t" by simp
  moreover from this have "unat (?b + 1) = unat ?b + 1" using assms(2) by (subst unat_add_no_wrap) simp_all
  ultimately have "unat (?b + 1) = bucket_classes c" by (simp add: bucket_classes_exp [OF assms(1)])
  then show ?thesis using that [OF r mx] m c(1) by simp
qed

lemma make_heap_ok:
  assumes env: "heap_env e nd" and cfg: "config_exponents c t s l" and l: "l \<le> 30" and mem: "mem_inv G w"
  shows "\<exists>h. make_heap e w c = Inr h \<and> heap_inv e nd G h w {#} \<and> h_config h = c \<and> h_users h = []"
proof -
  obtain m where m: "round_to_pow_of_2 (m_large_limit c * 2) = Inr m" "max m (m_large_limit c) = m"
    "unat m = 2 * unat (m_large_limit c)" "unat (bucket_index m (m_bucket_shift c) + 1) = bucket_classes c"
    using max_size_ok [OF cfg l] .
  let ?nt = "tiny_classes c" and ?nb = "bucket_classes c"
  let ?T = "tiny_slots c ?nt" and ?B = "bucket_slots c"
  note T = tiny_slots_ok [OF cfg] and B = bucket_slots_ok [OF cfg l]
  have "\<forall>(i, bs, ss) \<in> set ?T. i < length (replicate ?nt None) \<and> bs \<noteq> 0 \<and> bs \<le> ss \<and> unat ss \<le> 2 ^ 31"
    using T(1) by auto
  from build_heaps_ok [OF env this T(3) store_inv_new [OF mem], of c] obtain ps tiny where t:
    "build_heaps e w c ?T [] (replicate ?nt None) = Inr (ps, tiny)"
    "store_inv e G ps w (replicate (length ps) {#})" "length tiny = ?nt"
    "\<And>i bs ss. (i, bs, ss) \<in> set ?T \<Longrightarrow> slot_at e nd ps tiny i (unat bs)"
    by auto blast
  have "\<forall>(i, bs, ss) \<in> set ?B. i < length (replicate ?nb None) \<and> bs \<noteq> 0 \<and> bs \<le> ss \<and> unat ss \<le> 2 ^ 31"
    using B(1) by auto
  from build_heaps_ok [OF env this B(3) t(2), of c] obtain qs hs where b:
    "build_heaps e w c ?B ps (replicate ?nb None) = Inr (ps @ qs, hs)"
    "store_inv e G (ps @ qs) w (replicate (length ps) {#} @ replicate (length qs) {#})" "length hs = ?nb"
    "\<And>i bs ss. (i, bs, ss) \<in> set ?B \<Longrightarrow> slot_at e nd (ps @ qs) hs i (unat bs)"
    by auto blast
  let ?h = "\<lparr>h_config = c, h_max_size = m, h_tiny_heaps = tiny, h_heaps = hs, h_huge_heaps = [],
             h_pools = ps @ qs, h_users = []\<rparr>"
  have mk: "make_heap e w c = Inr ?h"
    using t(1) b(1) unfolding make_heap_def m(1) bindE.simps Let_def m(2,4) tiny_classes_def [symmetric]
      bucket_slots_def by simp
  have "slot_at e nd (ps @ qs) tiny i (tiny_width c i)" if i: "i < ?nt" for i
  proof -
    obtain bs ss where s: "(i, bs, ss) \<in> set ?T" using i T(2) by (metis (no_types, opaque_lifting) atLeastLessThan_iff
      image_iff prod.collapse zero_le)
    then show ?thesis using slot_at_append [OF t(4) [OF s]] T(1) by auto
  qed
  moreover have "slot_at e nd (ps @ qs) hs i (bucket_width c i)" if i: "i < ?nb" for i
  proof -
    obtain bs ss where s: "(i, bs, ss) \<in> set ?B" using i B(2) by (metis (no_types, opaque_lifting) atLeastLessThan_iff
      image_iff prod.collapse zero_le)
    then show ?thesis using b(4) [OF s] B(1) by auto
  qed
  ultimately have "heap_shape e nd ?h" using cfg l m(3) t(3) b(3) by (auto simp: heap_shape_def)
  then show ?thesis using mk b(2) by (auto simp: heap_inv_def intro!: exI [of _ "replicate (length ps) {#} @ replicate (length qs) {#}"])
qed

section \<open>Allocation\<close>

text \<open>The size of the blocks that serve a request, and the requests that have a class.\<close>

definition class_size :: "'s heap \<Rightarrow> u64 \<Rightarrow> nat" where
  "class_size h n =
     (if n \<le> m_tiny_limit (h_config h) then tiny_width (h_config h) (tiny_class (h_config h) n)
      else if n \<le> h_max_size h then bucket_width (h_config h) (bucket_class (h_config h) n)
      else unat (projr (round_to_pow_of_2 n)))"

definition heap_serves :: "'s heap \<Rightarrow> u64 \<Rightarrow> bool" where
  "heap_serves h n \<longleftrightarrow> n \<noteq> 0 \<and> unat n \<le> 2 ^ 31 \<and>
     (n \<le> m_tiny_limit (h_config h) \<longrightarrow> m_tiny_increment \<le> m_tiny_limit (h_config h))"

lemma heap_serves_cases:
  assumes "heap_shape e nd h" and "heap_serves h n"
  obtains "n \<le> m_tiny_limit (h_config h)" and "tiny_serves (h_config h) n"
  | "\<not> n \<le> m_tiny_limit (h_config h)" and "n \<le> h_max_size h" and "bucket_serves (h_config h) n"
  | m where "\<not> n \<le> m_tiny_limit (h_config h)" and "\<not> n \<le> h_max_size h" and "round_to_pow_of_2 n = Inr m"
      and "unat n \<le> unat m" and "unat m < 2 * unat n" and "unat m \<le> 2 ^ 31"
proof -
  let ?c = "h_config h"
  obtain t s l where cfg: "config_exponents ?c t s l" using assms(1) unfolding heap_shape_def by blast
  have mx: "unat (h_max_size h) = 2 * unat (m_large_limit ?c)" using assms(1) unfolding heap_shape_def by blast
  have n: "n \<noteq> 0" "unat n \<le> 2 ^ 31" using assms(2) unfolding heap_serves_def by blast+
  have tl: "unat (m_tiny_limit ?c) = 2 ^ t" using cfg by (simp add: config_exponents_def)
  show ?thesis
  proof (cases "n \<le> m_tiny_limit ?c")
    case True
    have "8 \<le> (2::nat) ^ t" using assms(2) True tl by (simp add: heap_serves_def word_le_unat)
    then have "(2::nat) ^ 3 \<le> 2 ^ t" by simp
    then have "3 \<le> t" by (simp only: power_increasing_iff one_less_numeral_iff semiring_norm)
    then have "tiny_serves ?c n" using cfg True n(1) by (auto simp: tiny_serves_def)
    with that(1) True show ?thesis by blast
  next
    case False
    show ?thesis
    proof (cases "n \<le> h_max_size h")
      case True
      have "bucket_serves ?c n" using cfg True False mx by (auto simp: bucket_serves_def word_le_unat word_less_unat)
      with that(2) True False show ?thesis by blast
    next
      case big: False
      obtain k m where m: "round_to_pow_of_2 n = Inr m" "unat m = 2 ^ k" "1 \<le> k" "k \<le> 31" "unat n \<le> 2 ^ k"
        "2 ^ (k - 1) < unat n \<or> k = 1"
        using round_exponent [OF n] .
      have "(2::nat) ^ 1 \<le> 2 ^ t" using cfg by (intro power_increasing) (simp_all add: config_exponents_def)
      then have "2 < unat n" using False tl by (simp add: word_le_unat)
      then have "2 ^ (k - 1) < unat n" using m(6) by auto
      moreover have "(2::nat) ^ k = 2 * 2 ^ (k - 1)" using m(3) by (simp flip: power_Suc)
      moreover have "(2::nat) ^ k \<le> 2 ^ 31" using m(4) by (intro power_increasing) simp_all
      ultimately show ?thesis using that(3) [OF False big m(1)] m(2,5) by simp
    qed
  qed
qed

lemma class_size_bounds:
  assumes "heap_shape e nd h" and "heap_serves h n"
  shows "unat n \<le> class_size h n" and "class_size h n < 2 * unat n + 8"
proof -
  let ?c = "h_config h"
  have "unat n \<le> class_size h n \<and> class_size h n < 2 * unat n + 8"
    using assms
  proof (cases rule: heap_serves_cases)
    case 1
    have "tiny_width ?c (tiny_class ?c n) < unat n + 8"
    proof (cases "tiny_class ?c n = 0")
      case True
      have "n \<noteq> 0" using assms(2) by (simp add: heap_serves_def)
      then have "0 < unat n" by (simp add: unat_gt_0)
      then show ?thesis using True by (simp add: tiny_width_def)
    next
      case False
      then show ?thesis using tiny.class_tight [OF 1(2)] by (simp add: tiny_width_def)
    qed
    then show ?thesis using tiny.class_fits [OF 1(2)] 1(1) by (simp add: class_size_def)
  next
    case 2
    have "bucket_width ?c (bucket_class ?c n) < 2 * unat n"
    proof (cases "bucket_class ?c n = 0")
      case True
      then show ?thesis using 2(1) by (simp add: bucket_width_def word_le_unat)
    next
      case False
      then obtain i where i: "bucket_class ?c n = Suc i" by (cases "bucket_class ?c n") simp_all
      then show ?thesis using bucket.class_tight [OF 2(3)] by (simp add: bucket_width_def)
    qed
    then show ?thesis using bucket.class_fits [OF 2(3)] 2(1,2) by (simp add: class_size_def)
  next
    case (3 m)
    then show ?thesis by (simp add: class_size_def)
  qed
  then show "unat n \<le> class_size h n" "class_size h n < 2 * unat n + 8" by blast+
qed

text \<open>The segment of a block, and the size of the blocks in it. Operations on other blocks keep both.\<close>

definition block_segment :: "'s heap \<Rightarrow> 'h block \<Rightarrow> 's segment option" where
  "block_segment h b = Option.bind (m_segment b) (map_of (all_segments (h_pools h)))"

definition block_extent :: "'s heap \<Rightarrow> 'h block \<Rightarrow> nat" where
  "block_extent h b = (case block_segment h b of None \<Rightarrow> 0 | Some seg \<Rightarrow> unat (s_block_size seg))"

definition same_extents :: "'h block multiset \<Rightarrow> 's heap \<Rightarrow> 's heap \<Rightarrow> bool" where
  "same_extents U h' h \<longleftrightarrow> (\<forall>c. c \<in># U \<longrightarrow> block_extent h' c = block_extent h c)"

lemma same_extents_refl [simp]: "same_extents U h h"
  by (simp add: same_extents_def)

lemma same_extents_trans: "same_extents U h2 h1 \<Longrightarrow> same_extents U h1 h \<Longrightarrow> same_extents U h2 h"
  by (simp add: same_extents_def)

lemma extent_at:
  assumes "store_inv e G (h_pools h) w Us" and "k < length (h_pools h)" and "c \<in># Us ! k"
  shows "block_extent h c = unat (p_block_size (h_pools h ! k))"
proof -
  obtain i seg where s: "m_segment c = Some i" "map_of (all_segments (h_pools h)) i = Some seg"
    "pool_segment_ok e (h_pools h ! k) i seg"
    using store_held_at [OF assms] by metis
  then have "s_block_size seg = p_block_size (h_pools h ! k)" by (simp add: pool_segment_ok_def)
  then show ?thesis using s(1,2) by (simp add: block_extent_def block_segment_def)
qed

lemma same_extentsI:
  assumes st: "store_inv e G (h_pools h) w Us" and st': "store_inv e G (h_pools h') w' Us'"
    and keep: "\<And>k c. k < length (h_pools h) \<Longrightarrow> c \<in># Us ! k \<Longrightarrow> c \<in># U \<Longrightarrow> k < length (h_pools h') \<and> c \<in># Us' ! k
      \<and> p_block_size (h_pools h' ! k) = p_block_size (h_pools h ! k)"
    and sub: "U \<subseteq># sum_list Us"
  shows "same_extents U h' h"
  unfolding same_extents_def
proof (intro allI impI)
  fix c
  assume c: "c \<in># U"
  then have "c \<in># sum_list Us" using sub by (rule mset_subset_eqD [rotated])
  from store_held [OF st this] obtain k where k: "k < length (h_pools h)" "c \<in># Us ! k" by metis
  from keep [OF this c] extent_at [OF st this] extent_at [OF st', of k c]
  show "block_extent h' c = block_extent h c" by simp
qed

text \<open>
  The fixed-size heap that is found or made is part of the heap afterwards, and for a request with a
  class one is found, with blocks of the size of the class.
\<close>

lemma vector_deref_slot:
  assumes "\<forall>i < length hs. slot_at e nd ps hs i (width i)" and "vector_deref hs j = Inr f"
  shows "j < length hs \<and> fixed_at e nd ps (width j) f"
  using assms by (force simp: vector_deref_def slot_at_def split: if_splits option.splits)

lemma vector_deref_at:
  assumes "slot_at e nd ps hs i n"
  obtains f where "vector_deref hs i = Inr f" and "fixed_at e nd ps n f"
  using assms by (auto simp: vector_deref_def slot_at_def)

lemma huge_slot_ok:
  assumes env: "heap_env e nd" and shape: "heap_shape e nd h" and st: "store_inv e G (h_pools h) w Us"
    and m: "round_to_pow_of_2 n = Inr m"
    and make: "make_fixed_size_heap e w (h_pools h) m m nf nr = r"
  obtains qs f where "r = Inr (h_pools h @ qs, f)"
    and "store_inv e G (h_pools h @ qs) w (Us @ replicate (length qs) {#})"
    and "heap_shape e nd (h\<lparr>h_huge_heaps := (m, f) # h_huge_heaps h, h_pools := h_pools h @ qs\<rparr>)"
    and "fixed_at e nd (h_pools h @ qs) (unat m) f"
proof -
  obtain k where k: "unat m = 2 ^ k" "k \<le> 31" using m by (rule round_InrE)
  have "(2::nat) ^ k \<le> 2 ^ 31" using k(2) by (intro power_increasing) simp_all
  then have "unat m \<le> 2 ^ 31" "m \<noteq> 0" using k(1) by auto
  then obtain qs f where q: "make_fixed_size_heap e w (h_pools h) m m nf nr = Inr (h_pools h @ qs, f)"
    "store_inv e G (h_pools h @ qs) w (Us @ replicate (length qs) {#})" "fixed_at e nd (h_pools h @ qs) (unat m) f"
    using make_fixed_at [OF env _ _ _ st] by blast
  have "heap_shape e nd (h\<lparr>h_huge_heaps := (m, f) # h_huge_heaps h, h_pools := h_pools h @ qs\<rparr>)"
    using heap_shape_append [OF shape, of qs] q(3) by (simp add: heap_shape_def)
  then show ?thesis using that q make by blast
qed

lemma size_class_ok:
  assumes env: "heap_env e nd" and inv: "heap_inv e nd G h w U" and r: "size_class e h w n = Inr (h', f)"
  shows "heap_inv e nd G h' w U" and "fixed_at e nd (h_pools h') (unat (f_block_size f)) f"
    and "h_config h' = h_config h" and "h_users h' = h_users h" and "same_extents U h' h"
proof -
  obtain Us where shape: "heap_shape e nd h" and st: "store_inv e G (h_pools h) w Us" and U: "U = sum_list Us"
    using inv by (auto simp: heap_inv_def)
  let ?c = "h_config h"
  have tiny: "\<forall>i < length (h_tiny_heaps h). slot_at e nd (h_pools h) (h_tiny_heaps h) i (tiny_width ?c i)"
    and buckets: "\<forall>i < length (h_heaps h). slot_at e nd (h_pools h) (h_heaps h) i (bucket_width ?c i)"
    and huge: "\<forall>s f. (s, f) \<in> set (h_huge_heaps h) \<longrightarrow> fixed_at e nd (h_pools h) (unat s) f"
    using shape by (simp_all add: heap_shape_def)
  have same: "h' = h \<Longrightarrow> fixed_at e nd (h_pools h) k f \<Longrightarrow> heap_inv e nd G h' w U
      \<and> fixed_at e nd (h_pools h') (unat (f_block_size f)) f \<and> h_config h' = ?c \<and> h_users h' = h_users h \<and> same_extents U h' h" for k
    using inv by (simp add: fixed_at_def)
  have "heap_inv e nd G h' w U \<and> fixed_at e nd (h_pools h') (unat (f_block_size f)) f
      \<and> h_config h' = ?c \<and> h_users h' = h_users h \<and> same_extents U h' h"
  proof (cases "n \<le> m_tiny_limit ?c")
    case True
    define j where "j = unat (tiny_bucket_index n m_tiny_increment m_tiny_increment_shift)"
    have "bindE (vector_deref (h_tiny_heaps h) j) (\<lambda>f. Inr (h, f)) = Inr (h', f)"
      using r True unfolding size_class_def j_def by (simp only: if_True)
    then have "vector_deref (h_tiny_heaps h) j = Inr f" "h' = h"
      by (cases "vector_deref (h_tiny_heaps h) j"; simp)+
    from vector_deref_slot [OF tiny this(1)] this(2) have "h' = h" "fixed_at e nd (h_pools h) (tiny_width ?c j) f" by simp_all
    from same [OF this] show ?thesis .
  next
    case False
    show ?thesis
    proof (cases "n \<le> h_max_size h")
      case True
      define j where "j = unat (bucket_index n (m_bucket_shift ?c))"
      have "bindE (vector_deref (h_heaps h) j) (\<lambda>f. Inr (h, f)) = Inr (h', f)"
        using r True False unfolding size_class_def j_def by (simp only: if_True if_False)
      then have "vector_deref (h_heaps h) j = Inr f" "h' = h"
        by (cases "vector_deref (h_heaps h) j"; simp)+
      from vector_deref_slot [OF buckets this(1)] this(2) have "h' = h" "fixed_at e nd (h_pools h) (bucket_width ?c j) f" by simp_all
      from same [OF this] show ?thesis .
    next
      case big: False
      obtain m where m: "round_to_pow_of_2 n = Inr m"
        using False big r by (cases "round_to_pow_of_2 n") (simp_all add: size_class_def)
      show ?thesis
      proof (cases "map_of (h_huge_heaps h) m")
        case (Some g)
        have "(m, g) \<in> set (h_huge_heaps h)" using Some by (rule map_of_SomeD)
        then have "fixed_at e nd (h_pools h) (unat m) g" by (rule huge [rule_format])
        moreover have "h' = h" "f = g" using False big r m Some by (simp_all add: size_class_def)
        ultimately have "h' = h" "fixed_at e nd (h_pools h) (unat m) f" by simp_all
        from same [OF this] show ?thesis .
      next
        case None
        obtain qs g where g: "make_fixed_size_heap e w (h_pools h) m m (m_never_free ?c) (m_num_reserve_segments ?c)
            = Inr (h_pools h @ qs, g)" "store_inv e G (h_pools h @ qs) w (Us @ replicate (length qs) {#})"
          "heap_shape e nd (h\<lparr>h_huge_heaps := (m, g) # h_huge_heaps h, h_pools := h_pools h @ qs\<rparr>)"
          "fixed_at e nd (h_pools h @ qs) (unat m) g"
          using huge_slot_ok [OF env shape st m refl] .
        then have h': "h' = h\<lparr>h_huge_heaps := (m, g) # h_huge_heaps h, h_pools := h_pools h @ qs\<rparr>" "f = g"
          using False big r m None by (auto simp: size_class_def)
        have "U = sum_list (Us @ replicate (length qs) {#})" using U by simp
        then have "heap_inv e nd G h' w U" using g(2,3) unfolding heap_inv_def h' by auto
        moreover have "same_extents U h' h"
          using st g(2) U by (intro same_extentsI [where Us = Us and Us' = "Us @ replicate (length qs) {#}"])
            (auto simp: h' nth_append store_inv_def)
        ultimately show ?thesis using g(4) by (simp add: h' fixed_at_def)
      qed
    qed
  qed
  then show "heap_inv e nd G h' w U" "fixed_at e nd (h_pools h') (unat (f_block_size f)) f"
    "h_config h' = h_config h" "h_users h' = h_users h" "same_extents U h' h" by blast+
qed

lemma size_class_serves:
  assumes env: "heap_env e nd" and inv: "heap_inv e nd G h w U" and n: "heap_serves h n"
  obtains h' f where "size_class e h w n = Inr (h', f)" and "unat (f_block_size f) = class_size h n"
proof -
  obtain Us where shape: "heap_shape e nd h" and st: "store_inv e G (h_pools h) w Us"
    using inv by (auto simp: heap_inv_def)
  let ?c = "h_config h"
  have "\<exists>h' f. size_class e h w n = Inr (h', f) \<and> unat (f_block_size f) = class_size h n"
    using shape n
  proof (cases rule: heap_serves_cases)
    case 1
    have "slot_at e nd (h_pools h) (h_tiny_heaps h) (tiny_class ?c n) (tiny_width ?c (tiny_class ?c n))"
      using shape tiny.class_exists [OF 1(2)] by (simp add: heap_shape_def)
    then obtain f where "vector_deref (h_tiny_heaps h) (tiny_class ?c n) = Inr f"
      "fixed_at e nd (h_pools h) (tiny_width ?c (tiny_class ?c n)) f" by (rule vector_deref_at)
    then show ?thesis using 1(1) by (simp add: size_class_def class_size_def tiny_class_def fixed_at_def)
  next
    case 2
    have "slot_at e nd (h_pools h) (h_heaps h) (bucket_class ?c n) (bucket_width ?c (bucket_class ?c n))"
      using shape bucket.class_exists [OF 2(3)] by (simp add: heap_shape_def)
    then obtain f where "vector_deref (h_heaps h) (bucket_class ?c n) = Inr f"
      "fixed_at e nd (h_pools h) (bucket_width ?c (bucket_class ?c n)) f" by (rule vector_deref_at)
    then show ?thesis using 2(1,2) by (simp add: size_class_def class_size_def bucket_class_def fixed_at_def)
  next
    case (3 m)
    have huge: "(s, f) \<in> set (h_huge_heaps h) \<Longrightarrow> fixed_at e nd (h_pools h) (unat s) f" for s f
      using shape by (simp add: heap_shape_def)
    show ?thesis
    proof (cases "map_of (h_huge_heaps h) m")
      case (Some f)
      then show ?thesis using 3(1-3) huge [OF map_of_SomeD [OF Some]]
        by (simp add: size_class_def class_size_def fixed_at_def)
    next
      case None
      obtain qs f where "make_fixed_size_heap e w (h_pools h) m m (m_never_free ?c) (m_num_reserve_segments ?c)
          = Inr (h_pools h @ qs, f)" "fixed_at e nd (h_pools h @ qs) (unat m) f"
        using huge_slot_ok [OF env shape st 3(3) refl] by metis
      then show ?thesis using 3(1-3) None by (simp add: size_class_def class_size_def fixed_at_def)
    qed
  qed
  then show ?thesis using that by blast
qed

text \<open>
  A pool of the heap hands out a block, or throws and leaves the history of memory without a fault.
  \<open>P\<close> says what the segment of the block is like.
\<close>

definition heap_gave ::
  "('h, 's) env \<Rightarrow> nat \<Rightarrow> backing multiset \<Rightarrow> 'h block multiset \<Rightarrow> ('s segment \<Rightarrow> bool) \<Rightarrow> 's heap
     \<Rightarrow> ('s, 'h block) heap_result \<Rightarrow> bool" where
  "heap_gave e nd G U P h res \<longleftrightarrow>
     (case res of
        None \<Rightarrow> False
      | Some (h', w', Inl f) \<Rightarrow> live_ok w' \<and> trace_ok w'
      | Some (h', w', Inr b) \<Rightarrow> heap_inv e nd G h' w' (add_mset b U) \<and> h_config h' = h_config h \<and>
          h_users h' = h_users h \<and> same_extents U h' h \<and>
          (\<exists>i seg. m_segment b = Some i \<and> block_segment h' b = Some seg \<and> b \<in> set (seg_blocks e i seg) \<and> P seg))"

lemma heap_gave_mono:
  "heap_gave e nd G U P h res \<Longrightarrow> (\<And>seg. P seg \<Longrightarrow> Q seg) \<Longrightarrow> h_config h = h_config h0 \<Longrightarrow>
     h_users h = h_users h0 \<Longrightarrow> same_extents U h h0 \<Longrightarrow> heap_gave e nd G U Q h0 res"
  by (fastforce simp: heap_gave_def intro: same_extents_trans split: option.splits sum.splits prod.splits)

lemma in_store_allocate_ok:
  assumes env: "heap_env e nd" and inv: "heap_inv e nd G h w U" and k: "k < length (h_pools h)"
  shows "heap_gave e nd G U (\<lambda>seg. \<exists>i. pool_segment_ok e (h_pools h ! k) i seg) h
    (in_store h (with_pool k (pool_allocate e) (h_pools h) w))"
proof -
  obtain Us where shape: "heap_shape e nd h" and st: "store_inv e G (h_pools h) w Us" and U: "U = sum_list Us"
    using inv by (auto simp: heap_inv_def)
  show ?thesis
  proof (cases rule: store_allocate_ok [OF heap_envD(1) [OF env] st k])
    case (1 p w' b)
    let ?ps = "(h_pools h)[k := p]" and ?Us = "Us[k := add_mset b (Us ! k)]"
    have l: "k < length Us" using st k by (simp add: store_inv_def)
    have "sum_list ?Us = add_mset b U"
      using sum_list_update_mset [OF l, of "add_mset b (Us ! k)"] U by simp
    then have "heap_inv e nd G (h\<lparr>h_pools := ?ps\<rparr>) w' (add_mset b U)"
      using heap_shape_update [OF shape 1(3)] 1(2) by (auto simp: heap_inv_def intro!: exI [of _ ?Us])
    moreover have "k < length ?ps" "b \<in># ?Us ! k" using k l by simp_all
    with store_held_at [OF 1(2)] obtain i seg where s: "m_segment b = Some i" "map_of (all_segments ?ps) i = Some seg"
      "b \<in> set (seg_blocks e i seg)" "pool_segment_ok e (?ps ! k) i seg" by metis
    from s(4) have "pool_segment_ok e (h_pools h ! k) i seg"
      unfolding nth_list_update_eq [OF k] pool_segment_ok_same [OF 1(3)] .
    moreover have "same_extents U (h\<lparr>h_pools := ?ps\<rparr>) h"
    proof (rule same_extentsI [OF st])
      show "store_inv e G (h_pools (h\<lparr>h_pools := ?ps\<rparr>)) w' ?Us" using 1(2) by simp
      show "j < length (h_pools (h\<lparr>h_pools := ?ps\<rparr>)) \<and> c \<in># ?Us ! j
          \<and> p_block_size (h_pools (h\<lparr>h_pools := ?ps\<rparr>) ! j) = p_block_size (h_pools h ! j)"
        if "j < length (h_pools h)" "c \<in># Us ! j" for j c
        using that k l same_poolD(2) [OF 1(3)] by (cases "j = k") simp_all
      show "U \<subseteq># sum_list Us" by (simp add: U)
    qed
    ultimately show ?thesis
      using 1(1) s by (auto simp: heap_gave_def in_store_def block_segment_def)
  next
    case (2 p w' f)
    then show ?thesis by (simp add: heap_gave_def in_store_def)
  qed
qed

lemma heap_gave_fault:
  assumes "heap_inv e nd G h w U"
  shows "heap_gave e nd G U P h (Some (h, w, Inl f))"
  using assms store_inv_clean by (force simp: heap_gave_def heap_inv_def)

lemma pool_fits_segment:
  assumes "pool_fits f node p" and "pool_segment_ok e p i seg"
  shows "s_block_size seg = f_block_size f" and "a_node (s_allocation seg) = node"
  using assms by (simp_all add: pool_fits_def pool_segment_ok_def)

lemma heap_allocate_ok:
  assumes env: "heap_env e nd" and inv: "heap_inv e nd G h w U"
  shows "heap_gave e nd G U
    (\<lambda>seg. (\<exists>h1 f. size_class e h w n = Inr (h1, f) \<and> s_block_size seg = f_block_size f)
      \<and> a_node (s_allocation seg) = served_node (ev_numa e) w node \<and> s_device_region seg = None)
    h (heap_allocate e h w n node)"
proof (cases "size_class e h w n")
  case (Inl f)
  then show ?thesis using heap_gave_fault [OF inv] by (simp add: heap_allocate_def)
next
  case (Inr x)
  obtain h1 f where x: "x = (h1, f)" by (cases x)
  note sc = size_class_ok [OF env inv Inr [unfolded x]]
  have "fixed_ok e (h_pools h1) f" using sc(2) by (simp add: fixed_at_def)
  from fixed_allocate_pool [OF heap_envD(2) [OF env] this, of w node] obtain k where k:
    "fixed_allocate e f (h_pools h1) w node = with_pool k (pool_allocate e) (h_pools h1) w"
    "k < length (h_pools h1)" "pool_fits f (served_node (ev_numa e) w node) (h_pools h1 ! k)"
    "\<not> p_allocate_on_device (h_pools h1 ! k)" .
  have P: "(\<exists>h1 f. size_class e h w n = Inr (h1, f) \<and> s_block_size seg = f_block_size f)
      \<and> a_node (s_allocation seg) = served_node (ev_numa e) w node \<and> s_device_region seg = None"
    if seg: "\<exists>i. pool_segment_ok e (h_pools h1 ! k) i seg" for seg
  proof -
    obtain i where i: "pool_segment_ok e (h_pools h1 ! k) i seg" using seg ..
    then have "s_device_region seg = None"
      using k(4) by (simp add: pool_segment_ok_def allocates_on_device_def)
    then show ?thesis using pool_fits_segment [OF k(3) i] Inr x by simp
  qed
  have "heap_allocate e h w n node = in_store h1 (with_pool k (pool_allocate e) (h_pools h1) w)"
    using Inr x k(1) by (simp add: heap_allocate_def)
  then show ?thesis using heap_gave_mono [OF in_store_allocate_ok [OF env sc(1) k(2)] P sc(3-5)] by (simp only:)
qed

lemma heap_allocate_device_ok:
  assumes env: "heap_env e nd" and inv: "heap_inv e nd G h w U" and d: "0 \<le> d" "d < int nd"
  shows "heap_gave e nd G U
    (\<lambda>seg. (\<exists>h1 f. size_class e h w n = Inr (h1, f) \<and> s_block_size seg = f_block_size f)
      \<and> a_node (s_allocation seg) = served_node (ev_numa e) w node
      \<and> (ev_enable_device e \<longrightarrow> s_device_region seg \<noteq> None \<and> s_device_id seg = d))
    h (heap_allocate_device e h w n node d)"
proof (cases "size_class e h w n")
  case (Inl f)
  then show ?thesis using heap_gave_fault [OF inv] by (simp add: heap_allocate_device_def)
next
  case (Inr x)
  obtain h1 f where x: "x = (h1, f)" by (cases x)
  note sc = size_class_ok [OF env inv Inr [unfolded x]]
  have f: "fixed_ok e (h_pools h1) f" "f_num_devices f = nd" using sc(2) by (simp_all add: fixed_at_def)
  have dd: "0 \<le> d" "d < int (f_num_devices f)" "num_nodes e * f_num_devices f < 2 ^ 64"
    using d f(2) env by (simp_all add: heap_env_def)
  from fixed_allocate_device_pool [OF heap_envD(2) [OF env] f(1) dd, of w node] obtain k where k:
    "fixed_allocate_device e f (h_pools h1) w node d = with_pool k (pool_allocate e) (h_pools h1) w"
    "k < length (h_pools h1)" "pool_fits f (served_node (ev_numa e) w node) (h_pools h1 ! k)"
    "p_allocate_on_device (h_pools h1 ! k)" "p_device_id (h_pools h1 ! k) = d" .
  have P: "(\<exists>h1 f. size_class e h w n = Inr (h1, f) \<and> s_block_size seg = f_block_size f)
      \<and> a_node (s_allocation seg) = served_node (ev_numa e) w node
      \<and> (ev_enable_device e \<longrightarrow> s_device_region seg \<noteq> None \<and> s_device_id seg = d)"
    if seg: "\<exists>i. pool_segment_ok e (h_pools h1 ! k) i seg" for seg
  proof -
    obtain i where i: "pool_segment_ok e (h_pools h1 ! k) i seg" using seg ..
    then have "ev_enable_device e \<longrightarrow> s_device_region seg \<noteq> None \<and> s_device_id seg = d"
      using k(4,5) by (simp add: pool_segment_ok_def allocates_on_device_def)
    then show ?thesis using pool_fits_segment [OF k(3) i] Inr x by simp
  qed
  have "heap_allocate_device e h w n node d = in_store h1 (with_pool k (pool_allocate e) (h_pools h1) w)"
    using Inr x k(1) by (simp add: heap_allocate_device_def)
  then show ?thesis using heap_gave_mono [OF in_store_allocate_ok [OF env sc(1) k(2)] P sc(3-5)] by (simp only:)
qed

section \<open>Release\<close>

lemma release_held_ok:
  assumes env: "heap_env e nd" and inv: "heap_inv e nd G h w (add_mset b U)"
  shows "\<exists>h' w' r. heap_free e h w b = Some (h', w', r) \<and> heap_inv e nd G h' w' U
    \<and> h_config h' = h_config h \<and> h_users h' = h_users h \<and> same_extents U h' h
    \<and> (r = Inr () \<or> (\<exists>seg. block_segment h b = Some seg \<and> s_device_region seg \<noteq> None))"
proof -
  obtain Us where shape: "heap_shape e nd h" and st: "store_inv e G (h_pools h) w Us" and U: "add_mset b U = sum_list Us"
    using inv by (auto simp: heap_inv_def)
  have "b \<in># sum_list Us" by (simp flip: U)
  from store_held [OF st this] obtain k i seg where s: "k < length (h_pools h)" "b \<in># Us ! k" "m_segment b = Some i"
    "map_of (all_segments (h_pools h)) i = Some seg" "s_pool seg = k" "pool_segment_ok e (h_pools h ! k) i seg"
    by metis
  obtain V where V: "Us ! k = add_mset b V" using s(2) by (metis multi_member_split)
  from store_free_ok [OF heap_envD(1) [OF env] st s(1) V] obtain p w' r where fr:
    "with_pool k (\<lambda>p w. pool_free e p w b) (h_pools h) w = Some ((h_pools h)[k := p], w', r)"
    "store_inv e G ((h_pools h)[k := p]) w' (Us[k := V])" "same_pool p (h_pools h ! k)"
    "r \<noteq> Inr () \<Longrightarrow> allocates_on_device e (h_pools h ! k)" by metis
  have l: "k < length Us" using st s(1) by (simp add: store_inv_def)
  have "add_mset b (sum_list (Us[k := V])) = add_mset b U"
    using sum_list_update_mset [OF l, of V] U V by simp
  then have "sum_list (Us[k := V]) = U" by simp
  then have i: "heap_inv e nd G (h\<lparr>h_pools := (h_pools h)[k := p]\<rparr>) w' U"
    using heap_shape_update [OF shape fr(3)] fr(2) by (auto simp: heap_inv_def intro!: exI [of _ "Us[k := V]"])
  have "heap_free e h w b = Some (h\<lparr>h_pools := (h_pools h)[k := p]\<rparr>, w', noexcept_result r)"
    using s(3-5) fr(1) by (simp add: heap_free_def release_def release_from_segment_def in_store_def)
  moreover have "noexcept_result r = Inr () \<or> (\<exists>seg. block_segment h b = Some seg \<and> s_device_region seg \<noteq> None)"
  proof (cases "r = Inr ()")
    case True
    then show ?thesis by (simp add: noexcept_result_def)
  next
    case False
    then have "s_device_region seg \<noteq> None" using fr(4) s(6) by (simp add: pool_segment_ok_def)
    then show ?thesis using s(3,4) by (auto simp: block_segment_def)
  qed
  moreover have "same_extents U h (h\<lparr>h_pools := (h_pools h)[k := p]\<rparr>)"
  proof (rule same_extentsI [OF _ st])
    show "store_inv e G (h_pools (h\<lparr>h_pools := (h_pools h)[k := p]\<rparr>)) w' (Us[k := V])" using fr(2) by simp
    show "j < length (h_pools h) \<and> c \<in># Us ! j
        \<and> p_block_size (h_pools h ! j) = p_block_size (h_pools (h\<lparr>h_pools := (h_pools h)[k := p]\<rparr>) ! j)"
      if "j < length (h_pools (h\<lparr>h_pools := (h_pools h)[k := p]\<rparr>))" "c \<in># Us[k := V] ! j" for j c
      using that l V same_poolD(2) [OF fr(3)] by (cases "j = k") simp_all
    show "U \<subseteq># sum_list (Us[k := V])" using \<open>sum_list (Us[k := V]) = U\<close> by simp
  qed
  then have "same_extents U (h\<lparr>h_pools := (h_pools h)[k := p]\<rparr>) h" by (simp add: same_extents_def)
  ultimately show ?thesis using i by simp
qed

end
