(* ===== verification/Heap_Properties.thy ===== *)
theory Heap_Properties
  imports Pool_Properties Heap_Invariant
begin

text \<open>
  The heap meets the contract of a block source, as a pool does, with requests of every size and
  node; what that means for its users, and how allocation ends where no size class serves a request.
\<close>

section \<open>What a user holds\<close>

definition heap_apart :: "'s heap \<Rightarrow> 'h block \<Rightarrow> 'h block \<Rightarrow> bool" where
  "heap_apart h b c \<longleftrightarrow> apart (m_ptr b) (block_extent h b) (m_ptr c) (block_extent h c)"

lemma heap_blocks:
  assumes "heap_inv e nd G h w U"
  shows "U \<subseteq># blocks_of e (mset (all_segments (h_pools h)))"
    and "mem_inv (backings_of e (mset (all_segments (h_pools h))) + G) w"
    and "\<And>i s. (i, s) \<in> set (all_segments (h_pools h)) \<Longrightarrow> segment_ok e s \<and> seg_owned e s"
    and "\<And>i s b. (i, s) \<in> set (all_segments (h_pools h)) \<Longrightarrow> b \<in> set (seg_blocks e i s)
      \<Longrightarrow> block_segment h b = Some s"
proof -
  obtain Us where st: "store_inv e G (h_pools h) w Us" and U: "U = sum_list Us"
    using assms by (auto simp: heap_inv_def)
  show "U \<subseteq># blocks_of e (mset (all_segments (h_pools h)))" using store_blocks [OF st] U by simp
  show "mem_inv (backings_of e (mset (all_segments (h_pools h))) + G) w"
    using st by (simp add: store_inv_def store_backings_segments)
  show "segment_ok e s \<and> seg_owned e s" if "(i, s) \<in> set (all_segments (h_pools h))" for i s
    using store_segment [OF st that] by (metis pool_segment_ok_def)
  have "distinct (map fst (all_segments (h_pools h)))" using st by (simp add: store_inv_def all_segments_ids)
  then show "block_segment h b = Some s"
    if "(i, s) \<in> set (all_segments (h_pools h))" "b \<in> set (seg_blocks e i s)" for i s b
    using that(1) seg_blocks_segment [OF that(2)] by (simp add: block_segment_def)
qed

lemma heap_held:
  assumes inv: "heap_inv e nd G h w U" and b: "b \<in># U"
  shows "backed w (m_ptr b) (block_extent h b)"
proof -
  note hb = heap_blocks [OF inv]
  have "b \<in># blocks_of e (mset (all_segments (h_pools h)))" using hb(1) b by (rule mset_subset_eqD)
  then obtain i s S where S: "mset (all_segments (h_pools h)) = add_mset (i, s) S" and bs: "b \<in> set (seg_blocks e i s)"
    using blocks_of_elem by blast
  have "(i, s) \<in># mset (all_segments (h_pools h))" using S by simp
  then have i: "(i, s) \<in> set (all_segments (h_pools h))" by simp
  have "block_extent h b = unat (s_block_size s)" using hb(4) [OF i bs] by (simp add: block_extent_def)
  then show ?thesis using block_backed [OF hb(2) _ _ _ bs] i hb(3) [OF i] by simp
qed

lemma heap_held_apart:
  assumes inv: "heap_inv e nd G h w U" and two: "{#b, c#} \<subseteq># U"
  shows "heap_apart h b c"
proof -
  note hb = heap_blocks [OF inv]
  have t: "{#b, c#} \<subseteq># blocks_of e (mset (all_segments (h_pools h)))"
    using two hb(1) by (rule subset_mset.order_trans)
  have ok: "\<forall>i s. (i, s) \<in># mset (all_segments (h_pools h)) \<longrightarrow> segment_ok e s" using hb(3) by simp
  obtain i s j t where st: "(i, s) \<in># mset (all_segments (h_pools h))" "b \<in> set (seg_blocks e i s)"
    "(j, t) \<in># mset (all_segments (h_pools h))" "c \<in> set (seg_blocks e j t)"
    "apart (m_ptr b) (unat (s_block_size s)) (m_ptr c) (unat (s_block_size t))"
    using blocks_apart [OF hb(2) ok t] .
  have "block_segment h b = Some s" "block_segment h c = Some t"
    using hb(4) [OF _ st(2)] hb(4) [OF _ st(4)] st(1,3) by simp_all
  then show ?thesis using st(5) by (simp add: heap_apart_def block_extent_def)
qed

lemma heap_inv_clean: "heap_inv e nd G h w U \<Longrightarrow> live_ok w \<and> trace_ok w"
  using store_inv_clean unfolding heap_inv_def by blast

section \<open>The heap as a block source\<close>

definition heap_get ::
  "('h, 's) env \<Rightarrow> u64 \<times> u64 \<Rightarrow> 's heap \<times> world \<Rightarrow> (('s heap \<times> world) \<times> (fault + 'h block)) option" where
  "heap_get e c s = map_option (\<lambda>(h, w, r). ((h, w), r)) (heap_allocate e (fst s) (snd s) (fst c) (snd c))"

definition heap_put ::
  "('h, 's) env \<Rightarrow> 'h block \<Rightarrow> 's heap \<times> world \<Rightarrow> (('s heap \<times> world) \<times> (fault + unit)) option" where
  "heap_put e b s = map_option (\<lambda>(h, w, r). ((h, w), r)) (heap_free e (fst s) (snd s) b)"

definition heap_good ::
  "('h, 's) env \<Rightarrow> nat \<Rightarrow> backing multiset \<Rightarrow> 's heap \<times> world \<Rightarrow> 'h block multiset \<Rightarrow> bool" where
  "heap_good e nd G s U \<longleftrightarrow> heap_env e nd \<and> heap_inv e nd G (fst s) (snd s) U"

definition heap_clean :: "'s heap \<times> world \<Rightarrow> bool" where
  "heap_clean s \<longleftrightarrow> live_ok (snd s) \<and> trace_ok (snd s)"

lemma heap_allocate_cases:
  assumes "heap_env e nd" and "heap_inv e nd G h w U"
  obtains h' w' b where "heap_allocate e h w n node = Some (h', w', Inr b)"
    and "heap_inv e nd G h' w' (add_mset b U)" and "h_config h' = h_config h" and "h_users h' = h_users h"
    and "same_extents U h' h"
  | h' w' f where "heap_allocate e h w n node = Some (h', w', Inl f)" and "live_ok w'" and "trace_ok w'"
  using heap_allocate_ok [OF assms, of n node]
  by (auto simp: heap_gave_def split: option.splits prod.splits sum.splits)

interpretation heap: block_source "heap_get e" "heap_put e" "heap_good e nd G" heap_clean "\<lambda>s. heap_apart (fst s)"
  for e :: "('h, 's) env" and nd and G
proof (unfold_locales, goal_cases)
  case (1 s U c)
  then have "heap_env e nd" "heap_inv e nd G (fst s) (snd s) U" by (simp_all add: heap_good_def)
  then show ?case by (cases rule: heap_allocate_cases [of e nd G "fst s" "snd s" U "fst c" "snd c"]) (auto simp: heap_get_def)
next
  case (2 s U c s' b)
  then have "heap_env e nd" "heap_inv e nd G (fst s) (snd s) U" by (simp_all add: heap_good_def)
  then show ?case using 2
    by (cases rule: heap_allocate_cases [of e nd G "fst s" "snd s" U "fst c" "snd c"])
      (auto simp: heap_get_def heap_good_def)
next
  case (3 s U c s' f)
  then have "heap_env e nd" "heap_inv e nd G (fst s) (snd s) U" by (simp_all add: heap_good_def)
  then show ?case using 3(2)
    by (cases rule: heap_allocate_cases [of e nd G "fst s" "snd s" U "fst c" "snd c"])
      (auto simp: heap_get_def heap_clean_def)
next
  case (4 s b U)
  then show ?case using release_held_ok [of e nd G "fst s" "snd s" b U] by (auto simp: heap_good_def heap_put_def)
next
  case (5 s b U s' u)
  then show ?case using release_held_ok [of e nd G "fst s" "snd s" b U] by (auto simp: heap_good_def heap_put_def)
next
  case (6 s b U s' f)
  then show ?case using release_held_ok [of e nd G "fst s" "snd s" b U] heap_inv_clean
    by (fastforce simp: heap_good_def heap_put_def heap_clean_def)
next
  case (7 s U)
  then show ?case using heap_inv_clean [of e nd G "fst s" "snd s" U] by (simp add: heap_good_def heap_clean_def)
next
  case (8 s U b b')
  then show ?case using heap_held_apart by (auto simp: heap_good_def)
qed

section \<open>An example heap\<close>

text \<open>The heap of the example environment with the default configuration.\<close>

definition example_config :: heap_config where
  "example_config = \<lparr> m_never_free = False, m_num_reserve_segments = 16, m_tiny_limit = 128,
     m_small_limit = 4096, m_large_limit = 2097152, m_bucket_shift = 7,
     m_tiny_segment_size = 65536, m_small_segment_size = 65536,
     m_large_segment_size = 2097152, m_num_tiny_heaps = 16, m_num_small_heaps = 5,
     m_num_large_heaps = 9 \<rparr>"

lemma example_config_exponents: "config_exponents example_config 7 12 21"
  by (simp add: config_exponents_def example_config_def)

lemma bump_local_node: "local_node bump_env w = Inr 0"
  by (simp add: local_node_def libnuma_local_node_def bump_env_def bump_os_def libnuma_make_numa_tools_def
      libnuma_discover_nodes_def task_nodes_two_cpus Let_def) (simp add: two_cpus_def)

lemma example_heap_env: "heap_env example_env 0"
proof -
  have "node_map_count (make_node_map [0]) 0 = 1"
    by (simp add: make_node_map_def node_map_count_def upper_bound_key_def node_map_size_def Let_def)
  then have "nodes_ok bump_env"
    by (auto simp: nodes_ok_def bump_local_nodes bump_local_node intro!: exI [of _ "[0]"])
  moreover have "ev_numa example_env = bump_env" by (simp add: example_env_def)
  ultimately have "nodes_ok (ev_numa example_env)" by simp
  then show ?thesis
    by (simp add: heap_env_def example_env_ok example_page_size num_devices_def)
       (simp add: example_env_def)
qed

lemma example_heap:
  obtains h where "make_heap example_env [] example_config = Inr h"
    and "heap_inv example_env 0 {#} h [] {#}" and "h_config h = example_config" and "h_users h = []"
  using make_heap_ok [OF example_heap_env example_config_exponents _ mem_inv_empty] by auto

lemma example_serves: "h_config h = example_config \<Longrightarrow> n \<noteq> 0 \<Longrightarrow> n \<le> 2147483648 \<Longrightarrow> heap_serves h n"
  by (simp add: heap_serves_def example_config_def word_le_unat)

lemma example_granted:
  assumes "s \<noteq> 0" and "unat s \<le> 2 ^ 31"
  shows "memory_granted example_env s 0 []"
proof -
  have n: "can_allocate_on bump_env 0"
    by (simp add: can_allocate_on_def bump_local_nodes make_node_map_def node_map_count_def
        upper_bound_key_def node_map_size_def Let_def)
  have ps: "page_size bump_env = 4096" by (simp add: page_size_def bump_env_def bump_os_def)
  have f: "ne_backend bump_env = Libnuma True"
    "os_numa_alloc_onnode (ne_os bump_env) v k m = bump v (unat k)" for v k m
    by (simp_all add: bump_env_def bump_os_def)
  let ?np = "num_pages bump_env s"
  have "unat (s + 4096) = unat s + 4096" using assms(2) by (subst unat_add_no_wrap) simp_all
  from this have "s + 4096 \<noteq> 0" by (metis add_is_0 unat_0 zero_neq_numeral)
  from unat_minus_one_pos [OF this] have "unat (s + 4096 - 1) = unat s + 4095"
    unfolding \<open>unat (s + 4096) = unat s + 4096\<close> by linarith
  then have np: "unat ?np = (unat s + 4095) div 4096" unfolding num_pages_def ps unat_div_word by simp
  have "0 < unat s" using assms(1) by (simp add: unat_gt_0)
  then have "0 < unat ?np" unfolding np by (simp add: div_greater_zero_iff)
  then have nz: "?np \<noteq> 0" by (auto simp: unat_gt_0)
  have le: "unat ?np * 4096 \<le> unat s + 4095" unfolding np by simp
  then have "unat (?np * 4096) = unat ?np * 4096" using assms(2) by (subst unat_mult_no_wrap) simp_all
  then have "4096 + 16 + unat (?np * 4096) < 2 ^ 64" using le assms(2) by simp
  then have b: "bump [] (unat (?np * 4096)) = 4112" by (simp add: bump_def top_address_def)
  have "numa_allocate bump_env [] ?np 0 =
      ([Alloc Numa_Memory 4112 (unat (?np * 4096))],
       Inr \<lparr>a_ptr = 4112, a_size = ?np * 4096, a_node = 0, a_use_numa_free = True\<rparr>)"
    using n nz b ps f by (simp add: numa_allocate_def libnuma_allocate_def libnuma_allocate_onnode_def Let_def)
  then show ?thesis by (simp add: memory_granted_def example_env_def example_transport_def a_valid_def)
qed

lemma example_served_node: "served_node (ev_numa example_env) w 0 = 0"
proof -
  have "ev_numa example_env = bump_env" by (simp add: example_env_def)
  then show ?thesis by (simp add: served_node_def bump_local_node)
qed

section \<open>Properties\<close>

lemma heap_given:
  assumes "heap_env e nd" and "heap_inv e nd G h w U" and "heap_serves h n"
    and al: "heap_allocate e h w n node = Some (h', w', Inr b)"
  shows "heap_inv e nd G h' w' (add_mset b U)" and "block_extent h' b = class_size h n"
    and "map_option (\<lambda>s. a_node (s_allocation s)) (block_segment h' b) = Some (served_node (ev_numa e) w node)"
    and "same_extents U h' h"
proof -
  obtain h1 f where f: "size_class e h w n = Inr (h1, f)" "unat (f_block_size f) = class_size h n"
    using size_class_serves [OF assms(1-3)] .
  obtain seg where *: "heap_inv e nd G h' w' (add_mset b U)" "block_segment h' b = Some seg"
    "s_block_size seg = f_block_size f" "a_node (s_allocation seg) = served_node (ev_numa e) w node" "same_extents U h' h"
    using heap_allocate_ok [OF assms(1,2), of n node] al f(1) by (auto simp: heap_gave_def)
  show "heap_inv e nd G h' w' (add_mset b U)" "same_extents U h' h" by (rule *)+
  show "block_extent h' b = class_size h n" using *(2,3) f(2) by (simp add: block_extent_def)
  show "map_option (\<lambda>s. a_node (s_allocation s)) (block_segment h' b) = Some (served_node (ev_numa e) w node)"
    using *(2,4) by simp
qed

text \<open>
  C1: allocation from the heap returns for every size from 1 byte to 2 GiB (below the tiny limit only
  if that limit leaves a tiny class). The block it hands out is at least as large as asked and less
  than twice as large, up to 8 bytes of rounding; it lies in live, registered memory of the node
  that serves the request, overlaps no block of any size that is still held, and the held blocks
  keep their sizes. Otherwise allocation throws and the history of memory has no fault in it.
\<close>

theorem heap_allocate_fits:
  assumes "heap_env e nd" and "heap_inv e nd G h w U" and "heap_serves h n"
  shows "\<exists>h' w' r. heap_allocate e h w n node = Some (h', w', r) \<and> trace_ok w' \<and>
    (case r of
       Inr b \<Rightarrow> heap_inv e nd G h' w' (add_mset b U)
         \<and> unat n \<le> block_extent h' b \<and> block_extent h' b < 2 * unat n + 8
         \<and> backed w' (m_ptr b) (block_extent h' b)
         \<and> map_option (\<lambda>s. a_node (s_allocation s)) (block_segment h' b) = Some (served_node (ev_numa e) w node)
         \<and> (\<forall>c \<in># U. heap_apart h' b c) \<and> same_extents U h' h
     | Inl _ \<Rightarrow> True)"
proof -
  have "heap_shape e nd h" using assms(2) by (simp add: heap_inv_def)
  note bounds = class_size_bounds [OF this assms(3)]
  show ?thesis
  proof (cases rule: heap_allocate_cases [OF assms(1,2), of n node])
    case (1 h' w' b)
    note given = heap_given [OF assms 1(1)]
    have "heap_apart h' b c" if "c \<in># U" for c using heap_held_apart [OF given(1), of b c] that by simp
    then show ?thesis
      using 1(1) given bounds heap_held [OF given(1), of b] heap_inv_clean [OF given(1)] by simp
  next
    case (2 h' w' f)
    then show ?thesis by simp
  qed
qed

lemma heap_allocate_fits_witness:
  "\<exists>h. make_heap example_env [] example_config = Inr h \<and>
    (\<exists>h' w' r. heap_allocate example_env h [] 100 0 = Some (h', w', r) \<and> trace_ok w' \<and>
      (case r of
         Inr b \<Rightarrow> heap_inv example_env 0 {#} h' w' {#b#}
           \<and> unat (100 :: u64) \<le> block_extent h' b \<and> block_extent h' b < 2 * unat (100 :: u64) + 8
           \<and> backed w' (m_ptr b) (block_extent h' b)
           \<and> map_option (\<lambda>s. a_node (s_allocation s)) (block_segment h' b)
               = Some (served_node (ev_numa example_env) [] 0)
           \<and> (\<forall>c \<in># ({#} :: u64 block multiset). heap_apart h' b c) \<and> same_extents ({#} :: u64 block multiset) h' h
       | Inl _ \<Rightarrow> True))"
proof -
  obtain h where h: "make_heap example_env [] example_config = Inr h" "heap_inv example_env 0 {#} h [] {#}"
    "h_config h = example_config" by (rule example_heap)
  have "heap_serves h 100" using h(3) by (rule example_serves) simp_all
  note fits = heap_allocate_fits [OF example_heap_env h(2) this, of 0]
  show ?thesis by (rule exI [of _ h]) (rule conjI [OF h(1) fits])
qed

text \<open>
  C12: a block can be freed through the pointers it carries, whatever pool it came from: the call
  returns without an exception if the block is not mirrored on a device, and every other held block
  keeps its size and its memory.
\<close>

theorem heap_free_takes_back:
  assumes "heap_env e nd" and "heap_inv e nd G h w (add_mset b U)"
    and "map_option s_device_region (block_segment h b) = Some None"
  shows "\<exists>h' w'. heap_free e h w b = Some (h', w', Inr ()) \<and> heap_inv e nd G h' w' U \<and> trace_ok w'
    \<and> (\<forall>c \<in># U. block_extent h' c = block_extent h c \<and> backed w' (m_ptr c) (block_extent h c))"
proof -
  obtain h' w' r where fr: "heap_free e h w b = Some (h', w', r)" and inv: "heap_inv e nd G h' w' U"
    and same: "same_extents U h' h"
    and r: "r = Inr () \<or> (\<exists>seg. block_segment h b = Some seg \<and> s_device_region seg \<noteq> None)"
    using release_held_ok [OF assms(1,2)] by blast
  have "r = Inr ()" using r assms(3) by auto
  moreover have "block_extent h' c = block_extent h c \<and> backed w' (m_ptr c) (block_extent h c)" if "c \<in># U" for c
    using heap_held [OF inv that] same that by (simp add: same_extents_def)
  ultimately show ?thesis using fr inv heap_inv_clean [OF inv] by simp
qed

lemma heap_gives:
  assumes "heap_env e nd" and "heap_inv e nd G h w U" and "heap_serves h n"
    and "\<forall>s. s \<noteq> 0 \<longrightarrow> unat s \<le> 2 ^ 31 \<longrightarrow> memory_granted e s (served_node (ev_numa e) w node) w"
  shows "\<exists>h' w' b. heap_allocate e h w n node = Some (h', w', Inr b)"
proof -
  obtain h1 f where f: "size_class e h w n = Inr (h1, f)" using size_class_serves [OF assms(1-3)] .
  note sc = size_class_ok [OF assms(1,2) f]
  have fx: "fixed_ok e (h_pools h1) f" "unat (f_segment_size f) \<le> 2 ^ 31"
    using sc(2) by (simp_all add: fixed_at_def)
  from fixed_allocate_pool [OF heap_envD(2) [OF assms(1)] fx(1), of w node] obtain k where k:
    "fixed_allocate e f (h_pools h1) w node = with_pool k (pool_allocate e) (h_pools h1) w"
    "k < length (h_pools h1)" "pool_fits f (served_node (ev_numa e) w node) (h_pools h1 ! k)"
    "\<not> p_allocate_on_device (h_pools h1 ! k)" .
  let ?p = "h_pools h1 ! k"
  obtain Us where st: "store_inv e G (h_pools h1) w Us" using sc(1) by (auto simp: heap_inv_def)
  have "pool_config_ok e ?p" using store_inv_pool(1) [OF st k(2)] by (simp add: pool_inv_def pool_ok_def)
  then have "p_segment_size ?p \<noteq> 0" by (auto simp: pool_config_ok_def)
  then have "memory_granted e (p_segment_size ?p) (p_numa_node ?p) w"
    using assms(4) fx(2) k(3) by (simp add: pool_fits_def)
  moreover have "\<not> allocates_on_device e ?p" using k(4) by (simp add: allocates_on_device_def)
  ultimately obtain p' w' b where al: "pool_allocate e ?p w = Some (p', w', Inr b)"
    using pool_gives [OF heap_envD(1) [OF assms(1)] store_inv_pool(1,2) [OF st k(2)]] by blast
  show ?thesis using f k(1,2) al by (simp add: heap_allocate_def in_store_def with_pool_def)
qed



lemma example_heap_held:
  obtains h0 h w b where "make_heap example_env [] example_config = Inr h0"
    and "heap_allocate example_env h0 [] 100 0 = Some (h, w, Inr b)"
    and "heap_inv example_env 0 {#} h w {#b#}"
    and "map_option s_device_region (block_segment h b) = Some None"
proof -
  obtain h0 where h0: "make_heap example_env [] example_config = Inr h0" "heap_inv example_env 0 {#} h0 [] {#}"
    "h_config h0 = example_config" by (rule example_heap)
  have "heap_serves h0 100" using h0(3) by (rule example_serves) simp_all
  then obtain h w b where al: "heap_allocate example_env h0 [] 100 0 = Some (h, w, Inr b)"
    using heap_gives [OF example_heap_env h0(2), of 100 0] example_granted by (auto simp: example_served_node)
  then have "heap_inv example_env 0 {#} h w {#b#}" "map_option s_device_region (block_segment h b) = Some None"
    using heap_allocate_ok [OF example_heap_env h0(2), of 100 0] by (auto simp: heap_gave_def)
  then show ?thesis using that h0(1) al by blast
qed

lemma heap_free_takes_back_witness:
  "\<exists>h w b. (\<exists>h0. make_heap example_env [] example_config = Inr h0
      \<and> heap_allocate example_env h0 [] 100 0 = Some (h, w, Inr b))
    \<and> (\<exists>h' w'. heap_free example_env h w b = Some (h', w', Inr ()) \<and> heap_inv example_env 0 {#} h' w' {#}
      \<and> trace_ok w' \<and> (\<forall>c \<in># ({#} :: u64 block multiset).
          block_extent h' c = block_extent h c \<and> backed w' (m_ptr c) (block_extent h c)))"
proof -
  obtain h0 h w b where h: "make_heap example_env [] example_config = Inr h0"
    "heap_allocate example_env h0 [] 100 0 = Some (h, w, Inr b)" "heap_inv example_env 0 {#} h w {#b#}"
    "map_option s_device_region (block_segment h b) = Some None"
    by (rule example_heap_held)
  note freed = heap_free_takes_back [OF example_heap_env h(3,4)]
  show ?thesis using h(1,2) freed by blast
qed



lemma size_class_zero:
  assumes "heap_inv e nd G h w U"
  shows "size_class e h w 0 = Inl (Undefined Index_Out_Of_Range)"
proof -
  have l: "length (h_tiny_heaps h) = tiny_classes (h_config h)"
    using assms by (simp add: heap_inv_def heap_shape_def)
  have "unat (m_tiny_limit (h_config h)) < 2 ^ 64" using unat_less_2p [of "m_tiny_limit (h_config h)"] by simp
  then have "tiny_classes (h_config h) < 2 ^ 61" by (simp add: tiny_classes_def unat_div_word div_less_iff_less_mult)
  moreover have "tiny_bucket_index 0 m_tiny_increment m_tiny_increment_shift = - 1"
    by (simp add: tiny_bucket_index_def m_tiny_increment_shift_def)
  moreover have "unat (- 1 :: u64) = 2 ^ 64 - 1" by (simp add: unsigned_minus_1_eq_mask mask_eq_exp_minus_1)
  ultimately have "vector_deref (h_tiny_heaps h) (unat (tiny_bucket_index 0 m_tiny_increment m_tiny_increment_shift))
      = Inl (Undefined Index_Out_Of_Range)"
    unfolding vector_deref_def l by simp
  then show ?thesis by (simp add: size_class_def)
qed

lemma size_class_too_large:
  assumes "heap_inv e nd G h w U" and "2147483648 < n"
  shows "size_class e h w n = Inl (Undefined Shift_Too_Far)"
proof -
  obtain t s l where c: "config_exponents (h_config h) t s l" "l \<le> 30"
    and m: "unat (h_max_size h) = 2 * unat (m_large_limit (h_config h))"
    using assms(1) by (auto simp: heap_inv_def heap_shape_def)
  have "(2::nat) ^ k \<le> 2 ^ 30" if "k \<le> 30" for k using that by (intro power_increasing) simp_all
  moreover have "t \<le> 30" using c by (simp add: config_exponents_def)
  ultimately have "(2::nat) ^ l \<le> 2 ^ 30" "(2::nat) ^ t \<le> 2 ^ 30" using c(2) by blast+
  then have "unat (h_max_size h) \<le> 2 ^ 31" "unat (m_tiny_limit (h_config h)) \<le> 2 ^ 31"
    using c(1) m by (simp_all add: config_exponents_def)
  moreover have "2 ^ 31 < unat n" using assms(2) by (simp add: word_less_unat)
  ultimately show ?thesis
    by (simp add: size_class_def round_to_pow_of_2_alt word_nat)
qed

lemma size_class_no_tiny:
  assumes "heap_inv e nd G h w U" and "m_tiny_limit (h_config h) < m_tiny_increment"
    and "n \<le> m_tiny_limit (h_config h)"
  shows "size_class e h w n = Inl (Undefined Index_Out_Of_Range)"
proof -
  have "length (h_tiny_heaps h) = tiny_classes (h_config h)"
    using assms(1) by (simp add: heap_inv_def heap_shape_def)
  moreover have "tiny_classes (h_config h) = 0"
    using assms(2) by (simp add: tiny_classes_def unat_div_word word_less_unat)
  ultimately show ?thesis
    using assms(3) by (simp add: size_class_def vector_deref_def)
qed

text \<open>
  C9: A request is defined exactly for 1 byte to 2 GiB, and up to the tiny limit only where there
  are tiny heaps: it is then served by blocks that are large enough. A request for no bytes wraps
  around and reads the table of tiny heaps out of range, as does a small one when a tiny limit of 2
  or 4 left that table empty; one of more than 2 GiB shifts by too much.
\<close>

theorem heap_allocate_defined:
  assumes "heap_env e nd" and "heap_inv e nd G h w U"
  shows "if n \<noteq> 0 \<and> n \<le> 2147483648 \<and> (n \<le> m_tiny_limit (h_config h) \<longrightarrow> m_tiny_increment \<le> m_tiny_limit (h_config h))
    then \<exists>h' f. size_class e h w n = Inr (h', f) \<and> n \<le> f_block_size f
    else heap_allocate e h w n node
      = Some (h, w, Inl (Undefined (if 2147483648 < n then Shift_Too_Far else Index_Out_Of_Range)))"
proof (cases "n \<noteq> 0 \<and> n \<le> 2147483648 \<and> (n \<le> m_tiny_limit (h_config h) \<longrightarrow> m_tiny_increment \<le> m_tiny_limit (h_config h))")
  case True
  then have n: "heap_serves h n" by (simp add: heap_serves_def word_le_nat_alt)
  obtain h' f where f: "size_class e h w n = Inr (h', f)" "unat (f_block_size f) = class_size h n"
    by (rule size_class_serves [OF assms n])
  have "heap_shape e nd h" using assms(2) by (simp add: heap_inv_def)
  then have "n \<le> f_block_size f"
    using class_size_bounds [OF _ n] f(2) by (simp add: word_le_nat_alt)
  then show ?thesis using True f(1) by auto
next
  case False
  then consider "n = 0" | "2147483648 < n" | "n \<le> 2147483648" "n \<le> m_tiny_limit (h_config h)" "m_tiny_limit (h_config h) < m_tiny_increment"
    by fastforce
  then show ?thesis
  proof cases
    case 1
    then show ?thesis using False size_class_zero [OF assms(2)] by (simp add: heap_allocate_def)
  next
    case 2
    then show ?thesis using False size_class_too_large [OF assms(2)] by (simp add: heap_allocate_def)
  next
    case 3
    then show ?thesis using False size_class_no_tiny [OF assms(2) 3(3,2)] by (simp add: heap_allocate_def)
  qed
qed

lemma heap_allocate_defined_witness:
  "\<exists>h. make_heap example_env [] example_config = Inr h
    \<and> heap_allocate example_env h [] 0 0 = Some (h, [], Inl (Undefined Index_Out_Of_Range))
    \<and> heap_allocate example_env h [] 2147483649 0 = Some (h, [], Inl (Undefined Shift_Too_Far))
    \<and> (\<exists>h' f. size_class example_env h [] 100 = Inr (h', f) \<and> 100 \<le> f_block_size f)"
proof -
  obtain h where h: "make_heap example_env [] example_config = Inr h" "heap_inv example_env 0 {#} h [] {#}"
    "h_config h = example_config"
    by (rule example_heap)
  note d = heap_allocate_defined [OF example_heap_env h(2)]
  show ?thesis using d [of 0 0] d [of 2147483649 0] d [of 100 0] h(1,3)
    by (simp add: example_config_def m_tiny_increment_def)
qed

text \<open>
  A tiny limit of 2 or 4, which the configuration accepts, leaves no tiny heap at all, so that
  every request up to the limit reads the empty table.
\<close>

theorem heap_small_tiny_limit_undefined:
  assumes "heap_inv e nd G h w U" and "m_tiny_limit (h_config h) < m_tiny_increment"
    and "n \<le> m_tiny_limit (h_config h)"
  shows "heap_allocate e h w n node = Some (h, w, Inl (Undefined Index_Out_Of_Range))"
  using size_class_no_tiny [OF assms] by (simp add: heap_allocate_def)

lemma heap_small_tiny_limit_undefined_witness:
  "\<exists>c h. make_heap_config False 1 3 64 1024 4096 4096 4096 = Inr c \<and> make_heap example_env [] c = Inr h
    \<and> heap_allocate example_env h [] 1 0 = Some (h, [], Inl (Undefined Index_Out_Of_Range))"
proof -
  define c where "c = \<lparr> m_never_free = False, m_num_reserve_segments = 1, m_tiny_limit = 4,
    m_small_limit = 64, m_large_limit = 1024, m_bucket_shift = 2, m_tiny_segment_size = 4096,
    m_small_segment_size = 4096, m_large_segment_size = 4096, m_num_tiny_heaps = 0,
    m_num_small_heaps = 4, m_num_large_heaps = 4 \<rparr>"
  have mk: "make_heap_config False 1 3 64 1024 4096 4096 4096 = Inr c" unfolding c_def by code_simp
  have "config_exponents c 2 6 10" by (simp add: config_exponents_def c_def)
  from make_heap_ok [OF example_heap_env this _ mem_inv_empty] obtain h where h:
    "make_heap example_env [] c = Inr h" "heap_inv example_env 0 {#} h [] {#}" "h_config h = c" by auto
  have "m_tiny_limit (h_config h) < m_tiny_increment" "1 \<le> m_tiny_limit (h_config h)"
    unfolding h(3) by (simp_all add: c_def)
  from heap_small_tiny_limit_undefined [OF h(2) this] mk h(1) show ?thesis by blast
qed

text \<open>
  A large limit of 2 GiB, which the configuration accepts too, is undefined when the heap is
  made: twice the limit is rounded.
\<close>

theorem make_heap_large_limit_undefined:
  assumes "unat (m_large_limit c) = 2 ^ 31"
  shows "make_heap e w c = Inl (Undefined Shift_Too_Far)"
proof -
  have "unat (m_large_limit c * 2) = 2 ^ 32" using assms by (subst unat_mult_no_wrap) simp_all
  then have "round_to_pow_of_2 (m_large_limit c * 2) = Inl (Undefined Shift_Too_Far)"
    by (simp add: round_to_pow_of_2_alt)
  then show ?thesis by (simp add: make_heap_def)
qed

lemma make_heap_large_limit_undefined_witness:
  "make_heap example_env [] (example_config\<lparr>m_large_limit := 2147483648\<rparr>) = Inl (Undefined Shift_Too_Far)"
  by (rule make_heap_large_limit_undefined) simp

end
