(* ===== verification/Allocator_Spec.thy ===== *)
theory Allocator_Spec
  imports Heap_Properties
begin

text \<open>
  What an allocator promises, without pools, segments or stacks: a state is the collection of the
  pieces of memory handed out, taking one adds a piece apart from the others and at least as large
  as asked for, giving it back removes it. Pools and heaps implement this.
\<close>

section \<open>The abstract allocator\<close>

type_synonym piece = "u64 \<times> nat"

inductive allocator_step :: "nat option \<Rightarrow> piece multiset \<Rightarrow> piece multiset \<Rightarrow> bool" where
  take_piece: "p \<noteq> 0 \<Longrightarrow> n \<le> m \<Longrightarrow> \<forall>(q, k) \<in># A. apart p m q k \<Longrightarrow>
    allocator_step (Some n) A (add_mset (p, m) A)"
| give_piece: "allocator_step None (add_mset x A) A"

inductive_cases take_pieceE: "allocator_step (Some n) A B"

text \<open>The pieces of every state that can be reached are apart from each other.\<close>

definition pieces_apart :: "piece multiset \<Rightarrow> bool" where
  "pieces_apart A \<longleftrightarrow> (\<forall>p n q m. {#(p, n), (q, m)#} \<subseteq># A \<longrightarrow> apart p n q m)"

lemma pieces_apart_step:
  assumes "allocator_step l A B" and "pieces_apart A"
  shows "pieces_apart B"
  using assms
proof (induction rule: allocator_step.induct)
  case (take_piece p n m A)
  have "apart a i b j" if "{#(a, i), (b, j)#} \<subseteq># add_mset (p, m) A" for a i b j
  proof (cases "(a, i) = (p, m)")
    case True
    then have "(b, j) \<in># A" using that by (simp add: insert_subset_eq_iff)
    then show ?thesis using take_piece(3) True by auto
  next
    case False
    show ?thesis
    proof (cases "(b, j) = (p, m)")
      case True
      then have "(a, i) \<in># A" using that False by (auto simp: insert_subset_eq_iff)
      then show ?thesis using take_piece(3) True apart_sym by fastforce
    next
      case other: False
      have "{#(a, i), (b, j)#} \<subseteq># A"
        using that False other by (auto simp: insert_subset_eq_iff)
      then show ?thesis using take_piece(4) by (auto simp: pieces_apart_def)
    qed
  qed
  then show ?case by (simp add: pieces_apart_def)
next
  case (give_piece x A)
  have "{#y, z#} \<subseteq># add_mset x A" if "{#y, z#} \<subseteq># A" for y z
    using that by (rule subset_mset.order_trans) simp
  then show ?case using give_piece unfolding pieces_apart_def by blast
qed

section \<open>Sources of blocks that refine an abstract allocator\<close>

inductive path :: "('l \<Rightarrow> 'a \<Rightarrow> 'a \<Rightarrow> bool) \<Rightarrow> 'l list \<Rightarrow> 'a \<Rightarrow> 'a \<Rightarrow> bool"
  for step :: "'l \<Rightarrow> 'a \<Rightarrow> 'a \<Rightarrow> bool" where
  path_nil: "path step [] a a"
| path_cons: "step l a b \<Longrightarrow> path step ls b c \<Longrightarrow> path step (l # ls) a c"

lemma path_invariant: "path step ls a b \<Longrightarrow> P a \<Longrightarrow> (\<And>l a b. step l a b \<Longrightarrow> P a \<Longrightarrow> P b) \<Longrightarrow> P b"
  by (induction rule: path.induct) blast+

fun takes :: "'c request list \<Rightarrow> 'c list" where
  "takes [] = []"
| "takes (Take c # rs) = c # takes rs"
| "takes (Give n # rs) = takes rs"

fun somes :: "'c option list \<Rightarrow> 'c list" where
  "somes [] = []"
| "somes (Some c # ls) = c # somes ls"
| "somes (None # ls) = somes ls"

locale refined_source = block_source get put inv clean disjoint
  for get :: "'c \<Rightarrow> 'st \<Rightarrow> ('st \<times> (fault + 'b)) option"
    and put :: "'b \<Rightarrow> 'st \<Rightarrow> ('st \<times> (fault + unit)) option"
    and inv :: "'st \<Rightarrow> 'b multiset \<Rightarrow> bool"
    and clean :: "'st \<Rightarrow> bool"
    and disjoint :: "'st \<Rightarrow> 'b \<Rightarrow> 'b \<Rightarrow> bool" +
  fixes abs :: "'st \<Rightarrow> 'b multiset \<Rightarrow> 'a"
    and step :: "'l option \<Rightarrow> 'a \<Rightarrow> 'a \<Rightarrow> bool"
    and label :: "'c \<Rightarrow> 'l"
  assumes get_refines: "inv s U \<Longrightarrow> get c s = Some (s', Inr b) \<Longrightarrow>
      step (Some (label c)) (abs s U) (abs s' (add_mset b U))"
    and put_refines: "inv s (add_mset b U) \<Longrightarrow> put b s = Some (s', Inr u) \<Longrightarrow>
      step None (abs s (add_mset b U)) (abs s' U)"
begin

lemma run_refines:
  assumes "inv s (mset held)" and "run get put rs s held = Some (s', held', None)"
  shows "\<exists>ls. path step ls (abs s (mset held)) (abs s' (mset held')) \<and> somes ls = map label (takes rs)"
  using assms
proof (induction rs arbitrary: s held)
  case Nil
  then show ?case by (auto intro!: exI [of _ "[]"] path_nil)
next
  case (Cons r rs)
  show ?case
  proof (cases r)
    case (Take c)
    then obtain s1 b where g: "get c s = Some (s1, Inr b)" "run get put rs s1 (b # held) = Some (s', held', None)"
      using Cons.prems(2) by (auto split: option.splits prod.splits sum.splits)
    have "inv s1 (mset (b # held))" using get_block [OF Cons.prems(1) g(1)] by simp
    from Cons.IH [OF this g(2)] obtain ls where
      "path step ls (abs s1 (mset (b # held))) (abs s' (mset held'))" "somes ls = map label (takes rs)" by blast
    then show ?thesis
      using path_cons [of step, OF get_refines [OF Cons.prems(1) g(1)]] Take
      by (intro exI [of _ "Some (label c) # ls"]) simp
  next
    case (Give n)
    show ?thesis
    proof (cases "n < length held")
      case True
      let ?h = "take n held @ drop (Suc n) held"
      have i: "inv s (add_mset (held ! n) (mset ?h))" using Cons.prems(1) give_split [OF True] by simp
      obtain s1 u where p: "put (held ! n) s = Some (s1, Inr u)" "run get put rs s1 ?h = Some (s', held', None)"
        using Cons.prems(2) Give True by (auto split: option.splits prod.splits sum.splits)
      have "inv s1 (mset ?h)" using put_block [OF i p(1)] .
      from Cons.IH [OF this p(2)] obtain ls where
        "path step ls (abs s1 (mset ?h)) (abs s' (mset held'))" "somes ls = map label (takes rs)" by blast
      then show ?thesis
        using path_cons [of step, OF put_refines [OF i p(1)]] Give give_split [OF True]
        by (intro exI [of _ "None # ls"]) simp
    next
      case False
      then show ?thesis using Cons Give by simp
    qed
  qed
qed

end

section \<open>Pools and heaps refine the allocator\<close>

definition pool_pieces :: "'s pool \<times> world \<Rightarrow> 'h block multiset \<Rightarrow> piece multiset" where
  "pool_pieces s U = image_mset (\<lambda>b. (m_ptr b, unat (p_block_size (fst s)))) U"

definition heap_pieces :: "'s heap \<times> world \<Rightarrow> 'h block multiset \<Rightarrow> piece multiset" where
  "heap_pieces s U = image_mset (\<lambda>b. (m_ptr b, block_extent (fst s) b)) U"

lemma held_pair: "c \<in># U \<Longrightarrow> {#b, c#} \<subseteq># add_mset b U"
  by simp

interpretation pool: refined_source "pool_get e" "pool_put e" "pool_good e G n" pool_clean
    "\<lambda>_. block_apart n" pool_pieces allocator_step "\<lambda>_. unat n"
  for e :: "('h, 's) env" and G and n
proof (unfold_locales, goal_cases)
  case (1 s U c s' b)
  have good: "pool_good e G n s' (add_mset b U)" using pool.get_block 1 by blast
  then have inv: "pool_inv e G (fst s') (snd s') (add_mset b U)" and n: "p_block_size (fst s') = n"
    by (simp_all add: pool_good_def)
  have n0: "p_block_size (fst s) = n" using 1(1) by (simp add: pool_good_def)
  have "m_ptr b \<noteq> 0" using held_backed [OF inv, of b] by (simp add: backed_def)
  moreover have "apart (m_ptr b) (unat n) (m_ptr c) (unat n)" if "c \<in># U" for c
    using held_apart [OF inv held_pair [OF that]] n by (simp add: block_apart_def)
  ultimately show ?case by (auto simp: pool_pieces_def n n0 intro!: take_piece)
next
  case (2 s b U s' u)
  then have "pool_good e G n s' U" using pool.put_block by blast
  then have "p_block_size (fst s') = n" "p_block_size (fst s) = n" using 2(1) by (simp_all add: pool_good_def)
  then show ?case by (simp add: pool_pieces_def give_piece)
qed

lemma heap_allocate_served:
  assumes "heap_inv e nd G h w U" and "heap_allocate e h w n node = Some (h', w', Inr b)"
  shows "heap_serves h n"
proof (rule ccontr)
  assume "\<not> heap_serves h n"
  then consider "n = 0" | "2147483648 < n"
    | "n \<le> m_tiny_limit (h_config h)" "m_tiny_limit (h_config h) < m_tiny_increment"
    by (auto simp: heap_serves_def word_less_unat word_le_unat)
  then show False
    using size_class_zero [OF assms(1)] size_class_too_large [OF assms(1)] size_class_no_tiny [OF assms(1)] assms(2)
    by cases (simp_all add: heap_allocate_def)
qed

lemma heap_pieces_same: "same_extents U h' h \<Longrightarrow> heap_pieces (h', w') U = heap_pieces (h, w) U"
  by (auto simp: heap_pieces_def same_extents_def intro!: image_mset_cong)

interpretation heap: refined_source "heap_get e" "heap_put e" "heap_good e nd G" heap_clean
    "\<lambda>s. heap_apart (fst s)" heap_pieces allocator_step "\<lambda>c. unat (fst c)"
  for e :: "('h, 's) env" and nd and G
proof (unfold_locales, goal_cases)
  case (1 s U c s' b)
  then have env: "heap_env e nd" and inv: "heap_inv e nd G (fst s) (snd s) U" by (simp_all add: heap_good_def)
  obtain h' w' where al: "heap_allocate e (fst s) (snd s) (fst c) (snd c) = Some (h', w', Inr b)" and s': "s' = (h', w')"
    using 1(2) by (auto simp: heap_get_def)
  note sv = heap_allocate_served [OF inv al]
  have shape: "heap_shape e nd (fst s)" using inv by (simp add: heap_inv_def)
  have fits: "heap_inv e nd G h' w' (add_mset b U)" "unat (fst c) \<le> block_extent h' b" "same_extents U h' (fst s)"
    using heap_given [OF env inv sv al] class_size_bounds(1) [OF shape sv] by simp_all
  have "m_ptr b \<noteq> 0" using heap_held [OF fits(1), of b] by (simp add: backed_def)
  moreover have "apart (m_ptr b) (block_extent h' b) (m_ptr c) (block_extent h' c)" if "c \<in># U" for c
    using heap_held_apart [OF fits(1) held_pair [OF that]] by (simp add: heap_apart_def)
  ultimately have "allocator_step (Some (unat (fst c))) (heap_pieces s' U) (heap_pieces s' (add_mset b U))"
    using fits(2) by (auto simp: heap_pieces_def s' intro!: take_piece)
  then show ?case using heap_pieces_same [OF fits(3), of w' "snd s"] by (simp add: s')
next
  case (2 s b U s' u)
  then obtain h' w' where fr: "heap_free e (fst s) (snd s) b = Some (h', w', Inr u)" and s': "s' = (h', w')"
    and env: "heap_env e nd" "heap_inv e nd G (fst s) (snd s) (add_mset b U)"
    by (auto simp: heap_put_def heap_good_def)
  then have "same_extents U h' (fst s)" using release_held_ok [OF env] by auto
  from heap_pieces_same [OF this, of w' "snd s"] show ?case by (simp add: s' give_piece) (simp add: heap_pieces_def give_piece)
qed

section \<open>Properties\<close>

text \<open>
  C3: the heap refines the abstract allocator: every sequence of requests to a new heap that ends
  without an exception is a sequence of steps of the allocator, one taking step for each request and
  of the size asked for, from nothing handed out to the pieces of the blocks held at the end. So
  these are apart from each other.
\<close>

theorem heap_refines_allocator:
  assumes "heap_env e nd" and "config_exponents c t s l" and "l \<le> 30"
    and "make_heap e [] c = Inr h"
    and "run (heap_get e) (heap_put e) requests (h, []) [] = Some ((h', w'), held, None)"
  shows "\<exists>ls. path allocator_step ls {#} (heap_pieces (h', w') (mset held))
      \<and> somes ls = map (\<lambda>c. unat (fst c)) (takes requests)
    \<and> pieces_apart (heap_pieces (h', w') (mset held))"
proof -
  have "heap_inv e nd {#} h [] {#}" using make_heap_ok [OF assms(1-3) mem_inv_empty] assms(4) by auto
  then have good: "heap_good e nd {#} (h, []) (mset [])" using assms(1) by (simp add: heap_good_def)
  have empty: "heap_pieces (h, []) (mset []) = {#}" by (simp add: heap_pieces_def)
  obtain ls where ls: "path allocator_step ls {#} (heap_pieces (h', w') (mset held))"
    "somes ls = map (\<lambda>c. unat (fst c)) (takes requests)"
    using heap.run_refines [OF good assms(5)] unfolding empty by blast
  have "pieces_apart (heap_pieces (h', w') (mset held))"
    using ls(1) by (rule path_invariant) (simp add: pieces_apart_def, rule pieces_apart_step)
  then show ?thesis using ls by blast
qed

lemma heap_refines_allocator_witness:
  "\<exists>h h' w' held ls. make_heap example_env [] example_config = Inr h
    \<and> run (heap_get example_env) (heap_put example_env) [Take (100, 0)] (h, []) [] = Some ((h', w'), held, None)
    \<and> path allocator_step ls {#} (heap_pieces (h', w') (mset held)) \<and> somes ls = [100]
    \<and> pieces_apart (heap_pieces (h', w') (mset held))"
proof -
  obtain h0 h w b where h: "make_heap example_env [] example_config = Inr h0"
    "heap_allocate example_env h0 [] 100 0 = Some (h, w, Inr b)"
    by (rule example_heap_held)
  have r: "run (heap_get example_env) (heap_put example_env) [Take (100, 0)] (h0, []) [] = Some ((h, w), [b], None)"
    using h(2) by (simp add: heap_get_def)
  from heap_refines_allocator [OF example_heap_env example_config_exponents _ h(1) r]
  show ?thesis using h(1) r by fastforce
qed

text \<open>
  C24: a new pool refines the abstract allocator in the same way, with pieces of its block size.
\<close>

theorem pool_refines_allocator:
  assumes "env_ok e" and "make_pool e self block_size segment_size node never_free reserve = Inr p"
    and "block_size \<le> segment_size" and "unat segment_size + unat (page_size (ev_numa e)) \<le> 2 ^ 64"
    and "run (pool_get e) (pool_put e) requests (p, []) [] = Some ((p', w'), held, None)"
  shows "\<exists>ls. path allocator_step ls {#} (pool_pieces (p', w') (mset held))
      \<and> somes ls = map (\<lambda>_. unat block_size) (takes requests)"
proof -
  have "p_block_size p = block_size" using assms(2) by (auto simp: make_pool_def split: if_splits)
  then have new: "pool_good e {#} block_size (p, []) (mset [])"
    using make_pool_ok [OF assms(1,2) mem_inv_empty assms(3,4)] assms(1) by (simp add: pool_good_def)
  have empty: "pool_pieces (p, []) (mset []) = {#}" by (simp add: pool_pieces_def)
  show ?thesis using pool.run_refines [OF new assms(5)] unfolding empty .
qed

lemma pool_refines_allocator_witness:
  "\<exists>p w b ls. run (pool_get example_env) (pool_put example_env) [Take ()] (example_pool, []) []
      = Some ((p, w), [b], None)
    \<and> path allocator_step ls {#} (pool_pieces (p, w) (mset [b])) \<and> somes ls = [2048]"
proof -
  obtain p w b where h: "pool_allocate example_env example_pool [] = Some (p, w, Inr b)" by (rule example_held)
  have r: "run (pool_get example_env) (pool_put example_env) [Take ()] (example_pool, []) [] = Some ((p, w), [b], None)"
    using h by (simp add: pool_get_def)
  from pool_refines_allocator [OF example_env_ok make_example_pool(1) _ _ r]
  show ?thesis using r by (fastforce simp: example_page_size)
qed

end
