(* ===== verification/Heap_Instance.thy ===== *)
theory Heap_Instance
  imports Heap_Properties
begin

text \<open>
  The heap's single instance, and the nodes it is built for: NUMA discovery provides what the heap
  relies on.
\<close>

section \<open>One instance\<close>

text \<open>
  Once \<open>get_instance\<close> has returned a heap, every later call returns this heap and reads neither
  the environment nor the default configuration again. A call that throws leaves no instance behind,
  so that the next one tries again; the configuration, once read, is kept either way.
\<close>

theorem get_instance_single:
  "case get_instance e w getenv config None of
     (config', inst, Inr h) \<Rightarrow> inst = Some h \<and> config' = Some (h_config h)
       \<and> (\<forall>w' getenv' c'. get_instance e w' getenv' c' inst = (c', inst, Inr h))
   | (config', inst, Inl f) \<Rightarrow> inst = None \<and> (config = None \<or> config' = config)"
proof (cases "get_default_heap_config getenv config")
  case (Pair config' r)
  have kept: "config = None \<or> config' = config"
    using Pair by (cases config) (auto simp: get_default_heap_config_def)
  have set: "config' = Some c" if "r = Inr c" for c
    using Pair that by (auto simp: get_default_heap_config_def split: option.splits sum.splits)
  show ?thesis
  proof (cases r)
    case (Inl f)
    then show ?thesis using Pair kept by (simp add: get_instance_def)
  next
    case (Inr c)
    show ?thesis
    proof (cases "make_heap e w c")
      case (Inl f)
      then show ?thesis using Pair Inr kept by (simp add: get_instance_def)
    next
      case (Inr h)
      then have "h_config h = c" by (auto simp: make_heap_def bindE_eq_Inr Let_def)
      then show ?thesis using Pair \<open>r = Inr c\<close> Inr set by (simp add: get_instance_def)
    qed
  qed
qed

section \<open>The nodes of the heap\<close>

text \<open>
  C36: discovery through libnuma provides what the heap relies on, when the calling thread runs on a
  processor of its own task and no processor has the id of the largest word: the local nodes are
  ordered and complete, and the thread's own node is one of them. The stub provides it always.
\<close>

theorem discovery_provides_nodes:
  assumes "case ne_backend e of
      Stub \<Rightarrow> ne_tools e = stub_make_numa_tools
    | Libnuma _ \<Rightarrow> (\<exists>ln. ne_tools e = libnuma_make_numa_tools ln \<and> ln_available ln
        \<and> - 1 \<notin> set (task_nodes ln) \<and> ln_get_nprocs ln < 2 ^ 64
        \<and> (\<forall>w. os_sched_getcpu (ne_os e) w < ln_get_nprocs ln \<and> ln_task_cpu ln (os_sched_getcpu (ne_os e) w)))"
  shows "nodes_ok e"
proof (cases "ne_backend e")
  case Stub
  then have "local_nodes e = make_node_map [0]"
    using assms by (simp add: local_nodes_def stub_make_numa_tools_def stub_discover_nodes_def)
  moreover have "node_map_count (make_node_map [0]) 0 = 1"
    by (simp add: make_node_map_def node_map_count_def upper_bound_key_def node_map_size_def Let_def)
  ultimately show ?thesis
    using Stub by (auto simp: nodes_ok_def local_node_def stub_local_node_def intro!: exI [of _ "[0]"])
next
  case (Libnuma b)
  then obtain ln where ln: "ne_tools e = libnuma_make_numa_tools ln" "ln_available ln"
    "- 1 \<notin> set (task_nodes ln)" "ln_get_nprocs ln < 2 ^ 64"
    "\<And>w. os_sched_getcpu (ne_os e) w < ln_get_nprocs ln \<and> ln_task_cpu ln (os_sched_getcpu (ne_os e) w)"
    using assms by auto
  let ?l = "remdups_adj (sort (task_nodes ln))"
  have "length (task_nodes ln) \<le> ln_get_nprocs ln"
    unfolding task_nodes_def using length_filter_le [of "ln_task_cpu ln" "[0 ..< ln_get_nprocs ln]"] by simp
  moreover have "length ?l \<le> length (sort (task_nodes ln))" by (rule remdups_adj_length)
  ultimately have len: "length ?l < 2 ^ 64" using ln(4) by simp
  have top: "\<forall>k \<in> set ?l. k \<noteq> - 1" using ln(3) by auto
  have nodes: "local_nodes e = make_node_map ?l"
    using ln(1,2) by (simp add: local_nodes_def libnuma_make_numa_tools_def libnuma_discover_nodes_def Let_def)
  have map: "m_cpu_to_node (ne_tools e) = map (ln_node_of_cpu ln) [0 ..< ln_get_nprocs ln]"
    using ln(1,2) by (simp add: libnuma_make_numa_tools_def libnuma_discover_nodes_def Let_def)
  have "\<exists>k. local_node e w = Inr k \<and> node_map_count (local_nodes e) k = 1" for w
  proof -
    let ?k = "ln_node_of_cpu ln (os_sched_getcpu (ne_os e) w)"
    have "local_node e w = Inr ?k"
      using Libnuma ln(5) [of w] by (simp add: local_node_def libnuma_local_node_def map)
    moreover have "?k \<in> set ?l" using ln(5) [of w] by (auto simp: task_nodes_def)
    then have "node_map_find (make_node_map ?l) ?k < node_map_size (make_node_map ?l)"
      using node_map_find_present [OF _ top len] by (simp add: make_node_map_size)
    then have "node_map_count (make_node_map ?l) ?k = 1" by (subst node_map_count_find) simp_all
    ultimately show ?thesis using nodes by simp
  qed
  then show ?thesis using nodes top len by (auto simp: nodes_ok_def list_all_iff intro!: exI [of _ ?l])
qed

lemma discovery_provides_nodes_witness: "nodes_ok bump_env"
proof (rule discovery_provides_nodes)
  have "- 1 \<notin> set (task_nodes two_cpus)" by (simp add: task_nodes_two_cpus)
  moreover have "ln_available two_cpus" "ln_get_nprocs two_cpus = 2" "ln_task_cpu two_cpus c" for c
    by (simp_all add: two_cpus_def)
  moreover have "ne_backend bump_env = Libnuma True" "ne_tools bump_env = libnuma_make_numa_tools two_cpus"
    "os_sched_getcpu (ne_os bump_env) w = 0" for w
    by (simp_all add: bump_env_def bump_os_def)
  ultimately show "case ne_backend bump_env of
      Stub \<Rightarrow> ne_tools bump_env = stub_make_numa_tools
    | Libnuma _ \<Rightarrow> (\<exists>ln. ne_tools bump_env = libnuma_make_numa_tools ln \<and> ln_available ln
        \<and> - 1 \<notin> set (task_nodes ln) \<and> ln_get_nprocs ln < 2 ^ 64
        \<and> (\<forall>w. os_sched_getcpu (ne_os bump_env) w < ln_get_nprocs ln
             \<and> ln_task_cpu ln (os_sched_getcpu (ne_os bump_env) w)))"
    by (auto intro!: exI [of _ two_cpus])
qed

end
