(* ===== verification/User_Allocation.thy ===== *)
theory User_Allocation
  imports Heap_Properties
begin

text \<open>
  Registration and release of memory of the user's own, \<open>include/hwmalloc/detail/user_allocation.hpp\<close>:
  what a failure on the way undoes, and that a release undoes everything.
\<close>

section \<open>Moving the host memory\<close>

text \<open>
  \<open>host_allocation\<close> is moved by its constructor and its assignment: the pointer goes over, and the
  object it came from owns nothing. The members are the pointer and whether to free it.
\<close>

type_synonym host_allocation = "u64 \<times> bool"

definition move_host_allocation :: "host_allocation \<Rightarrow> host_allocation \<times> host_allocation" where
  "move_host_allocation other = ((fst other, snd other), (0, snd other))"

definition move_assign_host_allocation ::
  "world \<Rightarrow> host_allocation \<Rightarrow> host_allocation \<Rightarrow> world \<times> host_allocation \<times> host_allocation" where
  "move_assign_host_allocation w this other =
     (ua_free w (fst this) (snd this), (fst other, snd other), (0, snd other))"

text \<open>Whoever is destroyed, and in whatever order, the memory is freed once.\<close>

lemma moved_freed_once:
  assumes "move_host_allocation other = (this, other')"
  shows "ua_free (ua_free w (fst other') (snd other')) (fst this) (snd this) = ua_free w (fst other) (snd other)"
    and "ua_free (ua_free w (fst this) (snd this)) (fst other') (snd other') = ua_free w (fst other) (snd other)"
  using assms by (auto simp: move_host_allocation_def ua_free_def)

lemma move_assigned_freed_once:
  assumes "move_assign_host_allocation w this other = (w', this', other')"
  shows "ua_free (ua_free w' (fst other') (snd other')) (fst this') (snd this')
    = ua_free (ua_free w (fst this) (snd this)) (fst other) (snd other)"
  using assms by (auto simp: move_assign_host_allocation_def ua_free_def)

section \<open>The heap while other memory changes\<close>

lemma heap_inv_mem: "heap_inv e nd G h w U \<Longrightarrow> mem_inv (store_backings e (h_pools h) + G) w"
  by (auto simp: heap_inv_def store_inv_def)

lemma heap_inv_world:
  assumes "heap_inv e nd G h w U" and "length w \<le> length w'"
    and "mem_inv (store_backings e (h_pools h) + G') w'"
  shows "heap_inv e nd G' (h\<lparr>h_users := us\<rparr>) w' U"
proof -
  obtain Us where st: "store_inv e G (h_pools h) w Us" and U: "U = sum_list Us" and shape: "heap_shape e nd h"
    using assms(1) by (auto simp: heap_inv_def)
  have "store_inv e G' (h_pools h) w' Us"
    using st assms(3) pool_ok_length [OF _ assms(2)] unfolding store_inv_def by blast
  moreover have "heap_shape e nd (h\<lparr>h_users := us\<rparr>)" using shape by (simp add: heap_shape_def)
  ultimately show ?thesis using U by (auto simp: heap_inv_def)
qed

lemma heap_inv_world_same:
  "heap_inv e nd G h w U \<Longrightarrow> length w \<le> length w' \<Longrightarrow> mem_inv (store_backings e (h_pools h) + G') w'
     \<Longrightarrow> heap_inv e nd G' h w' U"
  using heap_inv_world [of e nd G h w U w' G' "h_users h"] by simp

section \<open>Making and destroying a user allocation\<close>

text \<open>The memory behind a user allocation: its host memory, of kind \<open>k\<close>, and its device memory.\<close>

definition ua_backings :: "('h, 's) env \<Rightarrow> memory_kind \<Rightarrow> nat \<Rightarrow> u64 \<Rightarrow> user_allocation \<Rightarrow> backing multiset" where
  "ua_backings e k n device_ptr ua =
     add_mset (k, ua_ptr ua, n, ua_region ua)
       (case ua_device_region ua of None \<Rightarrow> {#} | Some dr \<Rightarrow> {#(device_kind (ev_device e), device_ptr, n, dr)#})"

text \<open>What is left of the world when the host memory, if it is to be deleted, has been given back.\<close>

definition undone :: "world \<Rightarrow> world \<Rightarrow> u64 \<Rightarrow> bool \<Rightarrow> bool" where
  "undone w' w p delete \<longleftrightarrow> regs w' = regs w \<and> length w \<le> length w' \<and>
     live w' = (if delete then live (Dealloc Std_Memory p # w) else live w)"

lemma ua_free_ok:
  assumes "mem_inv B w" and "bare w k p n" and "delete \<longrightarrow> k = Std_Memory" and "p \<noteq> 0"
  shows "mem_inv B (ua_free w p delete)" and "undone (ua_free w p delete) w p delete"
  using assms mem_inv_free_bare [of B w Std_Memory p n] by (auto simp: ua_free_def undone_def)

lemma bare_nonzero: "live_ok w \<Longrightarrow> bare w k p n \<Longrightarrow> p \<noteq> 0"
  using live_ok_bound(1) unfolding bare_def by blast

lemma make_user_allocation_cases:
  assumes inv: "mem_inv B w" and bare: "bare w k p (unat bytes)" and k: "k \<noteq> Gpu_Memory" and b: "bytes \<noteq> 0"
    and del: "delete \<longrightarrow> k = Std_Memory" and eq: "make_user_allocation e w p delete bytes = (w', res)"
  obtains f where "res = Inl f" and "mem_inv B w'" and "undone w' w p delete"
  | r where "res = Inr \<lparr>ua_ptr = p, ua_delete = delete, ua_region = r, ua_device_region = None\<rparr>"
      and "w' = Register r # w" and "region_inside r k p (unat bytes)"
      and "mem_inv (add_mset (k, p, unat bytes, r) B) w'" and "rg_ptr r = p" and "rg_size r = bytes"
proof -
  have pos: "0 < unat bytes" using b by (simp add: unat_gt_0)
  obtain w1 res1 where e1: "register_memory (ev_context e) w p bytes = (w1, res1)"
    by (cases "register_memory (ev_context e) w p bytes")
  from inv bare k pos e1 show ?thesis
  proof (cases rule: register_memory_cases)
    case (1 f)
    then have m: "mem_inv B w1" "bare w1 k p (unat bytes)"
      using mem_inv_quiet [OF inv] bare_quiet [OF bare] by blast+
    have "undone (ua_free w1 p delete) w p delete"
      using ua_free_ok(2) [OF m del bare_nonzero [OF mem_inv_live_ok [OF m(1)] m(2)]] 1(2)
      by (auto simp: undone_def quiet_def)
    then show ?thesis
      using that(1) 1(1) eq e1 ua_free_ok(1) [OF m del bare_nonzero [OF mem_inv_live_ok [OF m(1)] m(2)]]
      by (auto simp: make_user_allocation_def)
  next
    case (2 r)
    then show ?thesis using that(2) [of r] eq e1 by (auto simp: make_user_allocation_def)
  qed
qed

lemma make_device_user_allocation_cases:
  assumes inv: "mem_inv B w" and bare: "bare w k p (unat bytes)" and k: "k \<noteq> Gpu_Memory" and b: "bytes \<noteq> 0"
    and del: "delete \<longrightarrow> k = Std_Memory"
    and dbare: "bare w (device_kind (ev_device e)) dp (unat bytes)"
    and ne: "(k, p) \<noteq> (device_kind (ev_device e), dp)"
    and eq: "make_device_user_allocation e w p delete dp d bytes = (w', res)"
  obtains f where "res = Inl f" and "mem_inv B w'" and "undone w' w p delete"
  | r dr where "res = Inr \<lparr>ua_ptr = p, ua_delete = delete, ua_region = r, ua_device_region = Some dr\<rparr>"
      and "w' = Register dr # Register r # w" and "rg_ptr r = p" and "rg_size r = bytes"
      and "rg_ptr dr = dp" and "rg_size dr = bytes"
      and "mem_inv (add_mset (device_kind (ev_device e), dp, unat bytes, dr) (add_mset (k, p, unat bytes, r) B)) w'"
proof -
  let ?k = "device_kind (ev_device e)"
  have pos: "0 < unat bytes" using b by (simp add: unat_gt_0)
  obtain w1 res1 where e1: "make_user_allocation e w p delete bytes = (w1, res1)"
    by (cases "make_user_allocation e w p delete bytes")
  from inv bare k b del e1 show ?thesis
  proof (cases rule: make_user_allocation_cases)
    case (1 f)
    then show ?thesis using that(1) eq e1 by (auto simp: make_device_user_allocation_def)
  next
    case (2 r)
    obtain w2 res2 where e2: "register_device_memory (ev_context e) (?k = Gpu_Memory) w1 d dp bytes = (w2, res2)"
      by (cases "register_device_memory (ev_context e) (?k = Gpu_Memory) w1 d dp bytes")
    have "(k, p, unat bytes) \<noteq> (?k, dp, unat bytes)" using ne by auto
    then have "bare w1 ?k dp (unat bytes)"
      unfolding 2(2) by (rule bare_Register [OF mem_inv_live_ok [OF inv] bare dbare _ 2(3)])
    from 2(4) this pos e2 show ?thesis
    proof (cases rule: register_device_memory_cases)
      case (1 f)
      then have m: "mem_inv (add_mset (k, p, unat bytes, r) B) w2" using mem_inv_quiet [OF 2(4)] by blast
      note d = bare_Deregister [OF m]
      have p0: "p \<noteq> 0" by (rule bare_nonzero [OF mem_inv_live_ok [OF inv] bare])
      note f = ua_free_ok [OF d del p0]
      have "w' = ua_free (Deregister r # w2) p delete" "res = Inl f"
        using eq e1 e2 2(1) 1(1) by (simp_all add: make_device_user_allocation_def)
      moreover have "undone (ua_free (Deregister r # w2) p delete) w p delete"
        using f(2) 1(2) 2(2) by (auto simp: undone_def quiet_def)
      ultimately show ?thesis using that(1) f(1) by simp
    next
      case (2 dr)
      then show ?thesis
        using that(2) [of r dr] eq e1 e2 \<open>res1 = _\<close> \<open>w1 = _\<close> \<open>rg_ptr r = p\<close> \<open>rg_size r = bytes\<close>
        by (simp add: make_device_user_allocation_def)
    qed
  qed
qed

text \<open>Destruction undoes the registrations, and gives back host memory that is the library's.\<close>

lemma destroy_user_allocation_ok:
  assumes inv: "mem_inv (ua_backings e k n dp ua + B) w" and del: "ua_delete ua \<longrightarrow> k = Std_Memory"
  shows "mem_inv B (destroy_user_allocation w ua)"
    and "live (destroy_user_allocation w ua) = (if ua_delete ua then live (Dealloc Std_Memory (ua_ptr ua) # w) else live w)"
    and "length w \<le> length (destroy_user_allocation w ua)"
    and "regs (destroy_user_allocation w ua) = remove1 (ua_region ua)
      (case ua_device_region ua of None \<Rightarrow> regs w | Some dr \<Rightarrow> remove1 dr (regs w))"
proof -
  define w1 where "w1 = (case ua_device_region ua of None \<Rightarrow> w | Some dr \<Rightarrow> Deregister dr # w)"
  have m1: "mem_inv (add_mset (k, ua_ptr ua, n, ua_region ua) B) w1"
  proof (cases "ua_device_region ua")
    case None
    then show ?thesis using inv by (simp add: w1_def ua_backings_def)
  next
    case (Some dr)
    have "mem_inv (add_mset (device_kind (ev_device e), dp, n, dr) (add_mset (k, ua_ptr ua, n, ua_region ua) B)) w"
      using inv Some by (simp add: ua_backings_def add_mset_commute)
    then show ?thesis using bare_Deregister(1) Some by (simp add: w1_def)
  qed
  have l1: "live w1 = live w" "length w \<le> length w1"
    "regs w1 = (case ua_device_region ua of None \<Rightarrow> regs w | Some dr \<Rightarrow> remove1 dr (regs w))"
    by (auto simp: w1_def split: option.split)
  note d = bare_Deregister [OF m1]
  have p0: "ua_ptr ua \<noteq> 0" using bare_nonzero [OF mem_inv_live_ok [OF d(1)] d(2)] .
  note f = ua_free_ok [OF d del p0]
  have eq: "destroy_user_allocation w ua = ua_free (Deregister (ua_region ua) # w1) (ua_ptr ua) (ua_delete ua)"
    by (simp add: destroy_user_allocation_def w1_def Let_def)
  show "mem_inv B (destroy_user_allocation w ua)" unfolding eq by (rule f(1))
  show "live (destroy_user_allocation w ua) = (if ua_delete ua then live (Dealloc Std_Memory (ua_ptr ua) # w) else live w)"
    "length w \<le> length (destroy_user_allocation w ua)"
    "regs (destroy_user_allocation w ua) = remove1 (ua_region ua)
      (case ua_device_region ua of None \<Rightarrow> regs w | Some dr \<Rightarrow> remove1 dr (regs w))"
    using f(2) l1 unfolding eq undone_def by simp_all
qed

section \<open>The heap's user allocations\<close>

text \<open>The identities of user allocations are older than the present.\<close>

definition users_old :: "'s heap \<Rightarrow> world \<Rightarrow> bool" where
  "users_old h w \<longleftrightarrow> list_all (\<lambda>u. fst u < length w) (h_users h)"

lemma users_old_filter:
  "users_old h w \<Longrightarrow> length w \<le> n \<Longrightarrow> filter (\<lambda>u. fst u \<noteq> n) (h_users h) = h_users h"
  by (auto simp: users_old_def list_all_iff filter_id_conv)

text \<open>A user allocation that was kept is found again through the block, and destroyed with it.\<close>

lemma free_kept:
  assumes "users_old h w" and "length w \<le> length w1"
    and "keep_user_allocation e h (w1, Inr ua) bytes dp d = (h', w', Inr b)"
  shows "heap_free e h' v b = Some (h, destroy_user_allocation v ua, Inr ())"
    and "h' = h\<lparr>h_users := (length w1, ua) # h_users h\<rparr>" and "w' = New_Object (length w1) # w1"
    and "b = user_block e (length w1) ua bytes dp d"
  using assms users_old_filter [of h w "length w1"]
  by (auto simp: keep_user_allocation_def heap_free_def release_def release_user_allocation_def user_block_def)

lemma keep_fault: "keep_user_allocation e h (w1, Inl f) bytes dp d = (h, w1, Inl f)"
  by (simp add: keep_user_allocation_def)

text \<open>
  C29: registering memory of the user's own either throws and leaves heap, memory and registrations
  as they were, or returns a block for exactly this memory. The block has the handle of the new
  registration and is not mirrored on a device. Freeing it ends the registration, leaves the memory to the user,
  and restores the heap.
\<close>

theorem register_user_allocation_roundtrip:
  assumes "heap_inv e nd G h w U" and "users_old h w"
    and "bare w k ptr (unat bytes)" and "k \<noteq> Gpu_Memory" and "bytes \<noteq> 0"
  shows "case register_user_allocation e h w ptr bytes of
      (h', w', Inl f) \<Rightarrow> h' = h \<and> heap_inv e nd G h w' U \<and> live w' = live w \<and> regs w' = regs w
    | (h', w', Inr b) \<Rightarrow> m_ptr b = ptr \<and> \<not> on_device e b
        \<and> (\<exists>r. rg_ptr r = ptr \<and> rg_size r = bytes \<and> regs w' = r # regs w \<and> live w' = live w
             \<and> m_handle b = cx_get_handle (ev_context e) r 0 bytes
             \<and> heap_inv e nd (add_mset (k, ptr, unat bytes, r) G) h' w' U)
        \<and> (\<exists>w''. heap_free e h' w' b = Some (h, w'', Inr ()) \<and> heap_inv e nd G h w'' U
             \<and> live w'' = live w \<and> regs w'' = regs w)"
proof -
  note mem = heap_inv_mem [OF assms(1)]
  obtain w1 res where mk: "make_user_allocation e w ptr False bytes = (w1, res)"
    by (cases "make_user_allocation e w ptr False bytes")
  have reg: "register_user_allocation e h w ptr bytes = keep_user_allocation e h (w1, res) bytes 0 0"
    using mk by (simp add: register_user_allocation_def)
  have del: "False \<longrightarrow> k = Std_Memory" by simp
  from mem assms(3-5) del mk show ?thesis
  proof (cases rule: make_user_allocation_cases)
    case (1 f)
    then have "heap_inv e nd G h w1 U" using heap_inv_world_same [OF assms(1)] by (simp add: undone_def)
    then show ?thesis using reg 1 by (simp add: keep_fault undone_def)
  next
    case (2 r)
    let ?ua = "\<lparr>ua_ptr = ptr, ua_delete = False, ua_region = r, ua_device_region = None\<rparr>"
    obtain h' w' b where kept: "keep_user_allocation e h (w1, Inr ?ua) bytes 0 0 = (h', w', Inr b)"
      by (simp add: keep_user_allocation_def)
    have l: "length w \<le> length w1" using 2(2) by simp
    note fk = free_kept [OF assms(2) l kept]
    have mem': "mem_inv (ua_backings e k (unat bytes) 0 ?ua + (store_backings e (h_pools h) + G)) w'"
      using mem_inv_quiet [OF 2(4), of w'] fk(3) by (simp add: ua_backings_def)
    note de = destroy_user_allocation_ok [OF mem']
    have "heap_inv e nd G h (destroy_user_allocation w' ?ua) U"
      using heap_inv_world_same [OF assms(1) _ de(1)] de(3) fk(3) 2(2) by simp
    moreover have "heap_inv e nd (add_mset (k, ptr, unat bytes, r) G) h' w' U"
      using heap_inv_world [OF assms(1), of w' "add_mset (k, ptr, unat bytes, r) G"] mem' fk(2,3) 2(2)
      by (simp add: ua_backings_def)
    ultimately show ?thesis
      using reg 2(1,2,5,6) kept fk de(2,4) by (simp add: user_block_def on_device_def)
  qed
qed

text \<open>Memory a user of the example environment has obtained.\<close>

definition example_world :: world where
  "example_world = [Alloc Std_Memory 1048576 64]"

lemma example_world_bare: "bare example_world Std_Memory 1048576 64" "bare example_world Std_Memory 1048576 (unat (64 :: u64))"
  by (simp_all add: bare_def example_world_def)

lemma example_world_mem: "mem_inv {#} example_world"
  by (rule mem_inv_Alloc [OF mem_inv_empty, of Std_Memory 1048576 64]) (simp_all add: fresh_def example_world_def)

lemma example_user_heap:
  obtains h where "make_heap example_env example_world example_config = Inr h"
    and "heap_inv example_env 0 {#} h example_world {#}" and "users_old h example_world"
  using make_heap_ok [OF example_heap_env example_config_exponents _ example_world_mem]
  by (auto simp: users_old_def)

lemma register_user_allocation_roundtrip_witness:
  "\<exists>h. make_heap example_env example_world example_config = Inr h \<and>
    (case register_user_allocation example_env h example_world 1048576 64 of
      (h', w', Inl f) \<Rightarrow> h' = h \<and> heap_inv example_env 0 {#} h w' {#} \<and> live w' = live example_world
        \<and> regs w' = regs example_world
    | (h', w', Inr b) \<Rightarrow> m_ptr b = 1048576 \<and> \<not> on_device example_env b
        \<and> (\<exists>r. rg_ptr r = 1048576 \<and> rg_size r = 64 \<and> regs w' = r # regs example_world \<and> live w' = live example_world
             \<and> m_handle b = cx_get_handle (ev_context example_env) r 0 64
             \<and> heap_inv example_env 0 (add_mset (Std_Memory, 1048576, unat (64 :: u64), r) {#}) h' w' {#})
        \<and> (\<exists>w''. heap_free example_env h' w' b = Some (h, w'', Inr ()) \<and> heap_inv example_env 0 {#} h w'' {#}
             \<and> live w'' = live example_world \<and> regs w'' = regs example_world))"
proof -
  obtain h where h: "make_heap example_env example_world example_config = Inr h"
    "heap_inv example_env 0 {#} h example_world {#}" "users_old h example_world"
    by (rule example_user_heap)
  note rt = register_user_allocation_roundtrip [OF h(2,3) example_world_bare(2)]
  show ?thesis by (rule exI [of _ h], rule conjI [OF h(1)], rule rt) simp_all
qed

text \<open>
  Registering a pair of host and device memory of the user's own either throws, with whatever was
  registered on the way deregistered again, or returns a block that carries both pointers and the
  handles of both registrations. Freeing it ends both registrations and restores the heap.
\<close>

theorem register_user_mirrored_roundtrip:
  assumes "heap_inv e nd G h w U" and "users_old h w"
    and "bare w k ptr (unat bytes)" and "k \<noteq> Gpu_Memory" and "bytes \<noteq> 0"
    and "bare w (device_kind (ev_device e)) device_ptr (unat bytes)"
    and "(k, ptr) \<noteq> (device_kind (ev_device e), device_ptr)"
  shows "case register_user_mirrored_allocation e h w ptr device_ptr d bytes of
      (h', w', Inl f) \<Rightarrow> h' = h \<and> heap_inv e nd G h w' U \<and> live w' = live w \<and> regs w' = regs w
    | (h', w', Inr b) \<Rightarrow> m_ptr b = ptr \<and> m_device_ptr b = device_ptr \<and> m_device_id b = d
        \<and> (\<exists>r dr. regs w' = dr # r # regs w \<and> live w' = live w
             \<and> m_handle b = cx_get_handle (ev_context e) r 0 bytes
             \<and> m_device_handle b = cx_get_handle (ev_context e) dr 0 bytes)
        \<and> (\<exists>w''. heap_free e h' w' b = Some (h, w'', Inr ()) \<and> heap_inv e nd G h w'' U
             \<and> live w'' = live w \<and> regs w'' = regs w)"
proof -
  note mem = heap_inv_mem [OF assms(1)]
  obtain w1 res where mk: "make_device_user_allocation e w ptr False device_ptr d bytes = (w1, res)"
    by (cases "make_device_user_allocation e w ptr False device_ptr d bytes")
  have reg: "register_user_mirrored_allocation e h w ptr device_ptr d bytes
      = keep_user_allocation e h (w1, res) bytes device_ptr d"
    using mk by (simp add: register_user_mirrored_allocation_def)
  have del: "False \<longrightarrow> k = Std_Memory" by simp
  from mem assms(3-5) del assms(6,7) mk show ?thesis
  proof (cases rule: make_device_user_allocation_cases)
    case (1 f)
    then have "heap_inv e nd G h w1 U" using heap_inv_world_same [OF assms(1)] by (simp add: undone_def)
    then show ?thesis using reg 1 by (simp add: keep_fault undone_def)
  next
    case (2 r dr)
    let ?ua = "\<lparr>ua_ptr = ptr, ua_delete = False, ua_region = r, ua_device_region = Some dr\<rparr>"
    obtain h' w' b where kept: "keep_user_allocation e h (w1, Inr ?ua) bytes device_ptr d = (h', w', Inr b)"
      by (simp add: keep_user_allocation_def)
    have l: "length w \<le> length w1" using 2(2) by simp
    note fk = free_kept [OF assms(2) l kept]
    have mem': "mem_inv (ua_backings e k (unat bytes) device_ptr ?ua + (store_backings e (h_pools h) + G)) w'"
      using mem_inv_quiet [OF 2(7), of w'] fk(3) by (simp add: ua_backings_def add_mset_commute)
    note de = destroy_user_allocation_ok [OF mem']
    have "heap_inv e nd G h (destroy_user_allocation w' ?ua) U"
      using heap_inv_world_same [OF assms(1) _ de(1)] de(3) fk(3) 2(2) by simp
    then show ?thesis
      using reg 2(1,2) kept fk de(2,4) by (simp add: user_block_def)
  qed
qed

text \<open>A heap with one emulated device, whose memory is the host's.\<close>

definition example_device_world :: world where
  "example_device_world = Alloc Std_Memory 2097152 64 # example_world"

lemma example_device_heap_env: "heap_env example_device_env 1"
proof -
  have "nodes_ok (ev_numa example_env)" using example_heap_env by (simp add: heap_env_def)
  moreover have "ev_numa example_device_env = ev_numa example_env" by (simp add: example_device_env_def)
  moreover have "num_nodes example_env = 1"
    by (simp add: num_nodes_def example_env_def bump_local_nodes make_node_map_size)
  ultimately show ?thesis
    using example_page_size(1) example_device_env_ok by (simp add: heap_env_def num_devices_def num_nodes_def)
      (simp add: example_device_env_def get_num_devices_def emulate_get_num_devices_def)
qed

lemma example_device_world_mem: "mem_inv {#} example_device_world"
  by (rule mem_inv_Alloc [OF example_world_mem, of Std_Memory 2097152 64])
    (simp_all add: fresh_def example_world_def example_device_world_def apart_def)

lemma example_device_heap:
  obtains h where "make_heap example_device_env example_device_world example_config = Inr h"
    and "heap_inv example_device_env 1 {#} h example_device_world {#}" and "users_old h example_device_world"
  using make_heap_ok [OF example_device_heap_env example_config_exponents _ example_device_world_mem]
  by (auto simp: users_old_def)

lemma example_device_kind [simp]: "device_kind (ev_device example_device_env) = Std_Memory"
  by (simp add: device_kind_def example_device_env_def)

lemma register_user_mirrored_roundtrip_witness:
  "\<exists>h. make_heap example_device_env example_device_world example_config = Inr h \<and>
    (case register_user_mirrored_allocation example_device_env h example_device_world 1048576 2097152 0 64 of
      (h', w', Inl f) \<Rightarrow> h' = h \<and> heap_inv example_device_env 1 {#} h w' {#}
        \<and> live w' = live example_device_world \<and> regs w' = regs example_device_world
    | (h', w', Inr b) \<Rightarrow> m_ptr b = 1048576 \<and> m_device_ptr b = 2097152 \<and> m_device_id b = 0
        \<and> (\<exists>r dr. regs w' = dr # r # regs example_device_world \<and> live w' = live example_device_world
             \<and> m_handle b = cx_get_handle (ev_context example_device_env) r 0 64
             \<and> m_device_handle b = cx_get_handle (ev_context example_device_env) dr 0 64)
        \<and> (\<exists>w''. heap_free example_device_env h' w' b = Some (h, w'', Inr ())
             \<and> heap_inv example_device_env 1 {#} h w'' {#}
             \<and> live w'' = live example_device_world \<and> regs w'' = regs example_device_world))"
proof -
  obtain h where h: "make_heap example_device_env example_device_world example_config = Inr h"
    "heap_inv example_device_env 1 {#} h example_device_world {#}" "users_old h example_device_world"
    by (rule example_device_heap)
  have b: "bare example_device_world Std_Memory 1048576 (unat (64 :: u64))"
    "bare example_device_world (device_kind (ev_device example_device_env)) 2097152 (unat (64 :: u64))"
    by (simp_all add: bare_def example_device_world_def example_world_def)
  note rt = register_user_mirrored_roundtrip [OF h(2,3) b(1) _ _ b(2)]
  show ?thesis by (rule exI [of _ h], rule conjI [OF h(1)], rule rt) simp_all
qed

text \<open>
  C30: registering device memory alone makes a host mirror for it. Either the call throws and the
  mirror has been given back, or the block carries the mirror as host pointer, and freeing it gives
  the mirror back. In both cases live memory and registrations end as they were.
\<close>

theorem register_user_device_roundtrip:
  assumes "heap_env e nd" and "heap_inv e nd G h w U" and "users_old h w" and "bytes \<noteq> 0"
    and "os_malloc (ne_os (ev_numa e)) w bytes \<noteq> 0"
    and "bare w (device_kind (ev_device e)) device_ptr (unat bytes)"
  shows "case register_user_device_allocation e h w device_ptr d bytes of
      (h', w', Inl f) \<Rightarrow> h' = h \<and> heap_inv e nd G h w' U \<and> live w' = live w \<and> regs w' = regs w
    | (h', w', Inr b) \<Rightarrow> m_ptr b = os_malloc (ne_os (ev_numa e)) w bytes \<and> m_device_ptr b = device_ptr
        \<and> m_device_id b = d \<and> live w' = (Std_Memory, m_ptr b, unat bytes) # live w
        \<and> (\<exists>r dr. regs w' = dr # r # regs w \<and> rg_ptr r = m_ptr b \<and> rg_ptr dr = device_ptr)
        \<and> (\<exists>w''. heap_free e h' w' b = Some (h, w'', Inr ()) \<and> heap_inv e nd G h w'' U
             \<and> live w'' = live w \<and> regs w'' = regs w)"
proof -
  let ?os = "ne_os (ev_numa e)" and ?k = "device_kind (ev_device e)" and ?n = "unat bytes"
  let ?p = "os_malloc ?os w bytes"
  let ?w = "Alloc Std_Memory ?p ?n # w"
  have "os_ok ?os" using heap_envD(1) [OF assms(1)] by (simp add: env_ok_def numa_ok_def)
  then have fresh: "fresh w Std_Memory ?p ?n" using assms(5) by (simp add: os_ok_def)
  note mem0 = heap_inv_mem [OF assms(2)]
  have mem: "mem_inv (store_backings e (h_pools h) + G) ?w" and bare: "bare ?w Std_Memory ?p ?n"
    using mem_inv_fresh(1,2) [OF mem0 fresh, of ?w] by simp_all
  have dbare: "bare ?w ?k device_ptr ?n" and ne: "(?k, device_ptr, ?n) \<noteq> (Std_Memory, ?p, ?n)"
    using mem_inv_fresh(3) [OF mem0 fresh _ _ _ _ assms(6), of ?w] by simp_all
  have ne': "(Std_Memory, ?p) \<noteq> (?k, device_ptr)" using ne by auto
  have inv1: "heap_inv e nd G h ?w U" using heap_inv_world_same [OF assms(2) _ mem] by simp
  have old1: "users_old h ?w" using assms(3) by (auto simp: users_old_def list_all_iff)
  have undo: "live (Dealloc Std_Memory ?p # v) = live w" if "live v = live ?w" for v
    by (rule live_Dealloc_Alloc [OF fresh]) (simp add: that)
  obtain w1 res where mk: "make_device_user_allocation e ?w ?p True device_ptr d bytes = (w1, res)"
    by (cases "make_device_user_allocation e ?w ?p True device_ptr d bytes")
  have reg: "register_user_device_allocation e h w device_ptr d bytes
      = keep_user_allocation e h (w1, res) bytes device_ptr d"
    using mk assms(5) by (simp add: register_user_device_allocation_def malloc_mirror_def Let_def)
  have del: "True \<longrightarrow> Std_Memory = Std_Memory" and nk: "Std_Memory \<noteq> Gpu_Memory" by simp_all
  from mem bare nk assms(4) del dbare ne' mk show ?thesis
  proof (cases rule: make_device_user_allocation_cases)
    case (1 f)
    then have "heap_inv e nd G h w1 U" using heap_inv_world_same [OF inv1] by (simp add: undone_def)
    moreover have "live w1 = live w" using 1(3) undo [of ?w] by (simp add: undone_def)
    ultimately show ?thesis using reg 1 by (simp add: keep_fault undone_def)
  next
    case (2 r dr)
    let ?ua = "\<lparr>ua_ptr = ?p, ua_delete = True, ua_region = r, ua_device_region = Some dr\<rparr>"
    obtain h' w' b where kept: "keep_user_allocation e h (w1, Inr ?ua) bytes device_ptr d = (h', w', Inr b)"
      by (simp add: keep_user_allocation_def)
    have l: "length ?w \<le> length w1" using 2(2) by simp
    note fk = free_kept [OF old1 l kept]
    have mem': "mem_inv (ua_backings e Std_Memory ?n device_ptr ?ua + (store_backings e (h_pools h) + G)) w'"
      using mem_inv_quiet [OF 2(7), of w'] fk(3) by (simp add: ua_backings_def add_mset_commute)
    note de = destroy_user_allocation_ok [OF mem']
    have lw: "live w' = live ?w" using fk(3) 2(2) by simp
    have "heap_inv e nd G h (destroy_user_allocation w' ?ua) U"
      using heap_inv_world_same [OF inv1 _ de(1)] de(3) fk(3) 2(2) by simp
    moreover have "live (destroy_user_allocation w' ?ua) = live w" using de(2) undo [OF lw] by simp
    ultimately show ?thesis
      using reg 2(1-3,5) kept fk de(4) lw by (simp add: user_block_def)
  qed
qed

lemma register_user_device_roundtrip_witness:
  "\<exists>h. make_heap example_device_env example_world example_config = Inr h \<and>
    (case register_user_device_allocation example_device_env h example_world 1048576 0 64 of
      (h', w', Inl f) \<Rightarrow> h' = h \<and> heap_inv example_device_env 1 {#} h w' {#} \<and> live w' = live example_world
        \<and> regs w' = regs example_world
    | (h', w', Inr b) \<Rightarrow> m_ptr b = os_malloc (ne_os (ev_numa example_device_env)) example_world 64
        \<and> m_device_ptr b = 1048576
        \<and> m_device_id b = 0 \<and> live w' = (Std_Memory, m_ptr b, unat (64 :: u64)) # live example_world
        \<and> (\<exists>r dr. regs w' = dr # r # regs example_world \<and> rg_ptr r = m_ptr b \<and> rg_ptr dr = 1048576)
        \<and> (\<exists>w''. heap_free example_device_env h' w' b = Some (h, w'', Inr ())
             \<and> heap_inv example_device_env 1 {#} h w'' {#}
             \<and> live w'' = live example_world \<and> regs w'' = regs example_world))"
proof -
  obtain h where h: "make_heap example_device_env example_world example_config = Inr h"
    "heap_inv example_device_env 1 {#} h example_world {#}" "users_old h example_world"
    using make_heap_ok [OF example_device_heap_env example_config_exponents _ example_world_mem]
    by (auto simp: users_old_def)
  have "os_malloc (ne_os (ev_numa example_device_env)) example_world 64 \<noteq> 0"
    by (simp add: example_device_env_def example_env_def bump_env_def bump_os_def bump_def top_address_def example_world_def)
  moreover have "bare example_world (device_kind (ev_device example_device_env)) 1048576 (unat (64 :: u64))"
    by (simp add: bare_def example_world_def)
  ultimately have "os_malloc (ne_os (ev_numa example_device_env)) example_world 64 \<noteq> 0"
    "bare example_world (device_kind (ev_device example_device_env)) 1048576 (unat (64 :: u64))" by blast+
  note rt = register_user_device_roundtrip [OF example_device_heap_env h(2,3) _ this]
  show ?thesis by (rule exI [of _ h], rule conjI [OF h(1)], rule rt) simp
qed

text \<open>
  The mirror is not checked: when \<open>malloc\<close> fails and the transport takes a null pointer, the
  call succeeds, and the block it returns has a null pointer that is registered as host memory.
\<close>

theorem register_user_device_null:
  assumes "os_malloc (ne_os (ev_numa e)) w bytes = 0"
    and "cx_register (ev_context e) (Alloc_Failed Std_Memory (unat bytes) # w) 0 bytes = None"
    and "cx_register_device (ev_context e) = Some f" and "\<forall>v. f v d device_ptr bytes = None"
  shows "\<exists>h' w' b r. register_user_device_allocation e h w device_ptr d bytes = (h', w', Inr b)
    \<and> m_ptr b = 0 \<and> r \<in> set (regs w') \<and> rg_ptr r = 0 \<and> rg_size r = bytes \<and> \<not> rg_gpu r"
  using assms
  by (simp add: register_user_device_allocation_def malloc_mirror_def make_device_user_allocation_def
      make_user_allocation_def register_memory_def register_device_memory_def add_region_def Let_def
      keep_user_allocation_def user_block_def)
    (rule exI [of _ "\<lparr>rg_id = Suc (length w), rg_device = None, rg_gpu = False, rg_ptr = 0, rg_size = bytes\<rparr>"], simp)

definition starved_env :: "(u64, example_stack) env" where
  "starved_env = example_device_env
     \<lparr>ev_numa := bump_env\<lparr>ne_os := bump_os\<lparr>os_malloc := (\<lambda>_ _. 0)\<rparr>\<rparr>,
      ev_context := example_transport\<lparr>cx_register_device := Some (\<lambda>_ _ _ _. None)\<rparr>\<rparr>"

lemma register_user_device_null_witness:
  "\<forall>h :: example_stack heap. \<exists>h' w' b r. register_user_device_allocation starved_env h [] 1048576 0 64 = (h', w', Inr b)
    \<and> m_ptr b = 0 \<and> r \<in> set (regs w') \<and> rg_ptr r = 0 \<and> rg_size r = 64 \<and> \<not> rg_gpu r"
  by (rule allI, rule register_user_device_null [where f = "\<lambda>_ _ _ _. None"])
    (simp_all add: starved_env_def example_transport_def)

end
