(* ===== verification/Heap_Device.thy ===== *)
theory Heap_Device
  imports User_Allocation
begin

text \<open>
  Allocation with a mirror on a device: the two pointers of a block, and the device memory behind
  it.
\<close>

lemma device_block_in_segment:
  assumes "b \<in> set (seg_blocks e i seg)" and "s_device_region seg = Some dr"
  obtains j where "j < unat (s_num_blocks seg)"
    and "m_ptr b = a_ptr (s_allocation seg) + of_nat j * s_block_size seg"
    and "m_device_ptr b = s_device_allocation seg + of_nat j * s_block_size seg"
    and "m_device_id b = s_device_id seg"
    and "m_device_handle b = cx_get_handle (ev_context e) dr (of_nat j * s_block_size seg) (s_block_size seg)"
proof -
  obtain j where "j < unat (s_num_blocks seg)" "b = seg_block e i seg j" using in_seg_blocks [OF assms(1)] .
  then show ?thesis using that assms(2) by (simp add: seg_block_def device_block_def host_block_def)
qed

lemma device_backing:
  "s_device_region seg = Some dr \<Longrightarrow>
     (device_kind (ev_device e), s_device_allocation seg, unat (a_size (s_allocation seg)), dr) \<in># seg_backings e seg"
  by (simp add: seg_backings_def)

text \<open>The device memory of a block, within a live allocation on the device and its registration.\<close>

definition device_backed :: "('h, 's) env \<Rightarrow> world \<Rightarrow> u64 \<Rightarrow> nat \<Rightarrow> bool" where
  "device_backed e w p n \<longleftrightarrow>
     list_ex (\<lambda>(k, q, m). k = device_kind (ev_device e) \<and> unat q \<le> unat p \<and> unat p + n \<le> unat q + m) (live w) \<and>
     list_ex (\<lambda>r. rg_gpu r = (device_kind (ev_device e) = Gpu_Memory) \<and> unat (rg_ptr r) \<le> unat p
        \<and> unat p + n \<le> unat (rg_ptr r) + unat (rg_size r)) (regs w)"

lemma mirror_backed:
  assumes inv: "heap_inv e nd G h w U" and b: "(i, seg) \<in> set (all_segments (h_pools h))" "b \<in> set (seg_blocks e i seg)"
    and dr: "s_device_region seg = Some dr"
  shows "device_backed e w (m_device_ptr b) (unat (s_block_size seg))"
proof -
  let ?k = "device_kind (ev_device e)" and ?p = "s_device_allocation seg" and ?n = "a_size (s_allocation seg)"
  note hb = heap_blocks [OF inv]
  have ok: "segment_ok e seg" "seg_owned e seg" using hb(3) [OF b(1)] by simp_all
  obtain S where "mset (all_segments (h_pools h)) = add_mset (i, seg) S" using b(1) by (metis multi_member_split set_mset_mset)
  then have bk: "(?k, ?p, unat ?n, dr) \<in># backings_of e (mset (all_segments (h_pools h))) + G"
    using device_backing [OF dr, of e] by simp
  have l: "(?k, ?p, unat ?n) \<in> set (live w)" by (rule mem_inv_liveD [OF hb(2) bk])
  have r: "dr \<in> set (regs w)" "region_inside dr ?k ?p (unat ?n)"
    using mem_inv_regsD [OF hb(2) bk] mem_inv_insideD [OF hb(2) bk] .
  have bound: "unat ?p + unat ?n \<le> 2 ^ 64" using live_ok_bound(2) [OF mem_inv_live_ok [OF hb(2)] l] .
  obtain j where j: "j < unat (s_num_blocks seg)" "m_device_ptr b = ?p + of_nat j * s_block_size seg"
    using device_block_in_segment [OF b(2) dr] by metis
  have "j < unat (?n div s_block_size seg)" using j(1) ok(1) by (simp add: segment_ok_def)
  note off = block_offset [OF this bound]
  have m: "unat (m_device_ptr b) = unat ?p + j * unat (s_block_size seg)" using off(1) j(2) by simp
  have f: "rg_ptr dr = ?p" "rg_size dr = ?n" "rg_gpu dr = (?k = Gpu_Memory)"
    using ok(2) dr r(2) by (simp_all add: seg_owned_def region_inside_def)
  have "list_ex (\<lambda>(k, q, x). k = ?k \<and> unat q \<le> unat (m_device_ptr b)
      \<and> unat (m_device_ptr b) + unat (s_block_size seg) \<le> unat q + x) (live w)"
    unfolding list_ex_iff using off(2) m by (intro bexI [OF _ l]) simp
  moreover have "list_ex (\<lambda>r. rg_gpu r = (?k = Gpu_Memory) \<and> unat (rg_ptr r) \<le> unat (m_device_ptr b)
      \<and> unat (m_device_ptr b) + unat (s_block_size seg) \<le> unat (rg_ptr r) + unat (rg_size r)) (regs w)"
    unfolding list_ex_iff using off(2) m f by (intro bexI [OF _ r(1)]) simp
  ultimately show ?thesis by (simp add: device_backed_def)
qed

text \<open>
  C28: allocation for a device that exists returns. A block it hands out fits the request and carries
  the id of the device; its host and device pointers have the same offset in the two memories of
  its segment, and both lie in live memory that is registered.
\<close>

theorem heap_allocate_device_mirrors:
  assumes "heap_env e nd" and "ev_enable_device e" and "heap_inv e nd G h w U" and "heap_serves h n"
    and "0 \<le> d" and "d < int nd"
  shows "\<exists>h' w' r. heap_allocate_device e h w n node d = Some (h', w', r) \<and> trace_ok w' \<and>
    (case r of
       Inr b \<Rightarrow> heap_inv e nd G h' w' (add_mset b U) \<and> m_device_id b = d
         \<and> unat n \<le> block_extent h' b \<and> backed w' (m_ptr b) (block_extent h' b)
         \<and> device_backed e w' (m_device_ptr b) (block_extent h' b)
         \<and> map_option (\<lambda>s. m_ptr b - a_ptr (s_allocation s)) (block_segment h' b)
             = map_option (\<lambda>s. m_device_ptr b - s_device_allocation s) (block_segment h' b)
     | Inl _ \<Rightarrow> True)"
proof -
  obtain h1 f where f: "size_class e h w n = Inr (h1, f)" "unat (f_block_size f) = class_size h n"
    using size_class_serves [OF assms(1,3,4)] .
  have "heap_shape e nd h" using assms(3) by (simp add: heap_inv_def)
  note bounds = class_size_bounds [OF this assms(4)]
  note gave = heap_allocate_device_ok [OF assms(1,3,5,6), of n node]
  obtain h' w' r where al: "heap_allocate_device e h w n node d = Some (h', w', r)"
    using gave by (cases "heap_allocate_device e h w n node d") (auto simp: heap_gave_def)
  show ?thesis
  proof (cases r)
    case (Inl g)
    then show ?thesis using gave al by (simp add: heap_gave_def)
  next
    case (Inr b)
    obtain i seg dr where inv: "heap_inv e nd G h' w' (add_mset b U)" and seg: "m_segment b = Some i"
      "block_segment h' b = Some seg" "b \<in> set (seg_blocks e i seg)"
      "s_block_size seg = f_block_size f" "s_device_region seg = Some dr" "s_device_id seg = d"
      using gave al Inr f(1) assms(2) by (auto simp: heap_gave_def)
    have "(i, seg) \<in> set (all_segments (h_pools h'))"
      using seg(1,2) map_of_SomeD by (fastforce simp: block_segment_def)
    from mirror_backed [OF inv this seg(3,5)]
    have dev: "device_backed e w' (m_device_ptr b) (class_size h n)" using seg(4) f(2) by simp
    have ext: "block_extent h' b = class_size h n" using seg(2,4) f(2) by (simp add: block_extent_def)
    obtain j where "m_ptr b = a_ptr (s_allocation seg) + of_nat j * s_block_size seg"
      "m_device_ptr b = s_device_allocation seg + of_nat j * s_block_size seg" "m_device_id b = d"
      using device_block_in_segment [OF seg(3,5)] seg(6) by metis
    then show ?thesis
      using al Inr inv seg(2) bounds dev heap_held [OF inv, of b] heap_inv_clean [OF inv] by (simp add: ext)
  qed
qed

lemma heap_allocate_device_mirrors_witness:
  "\<exists>h. make_heap example_device_env example_world example_config = Inr h \<and>
    (\<exists>h' w' r. heap_allocate_device example_device_env h example_world 100 0 0 = Some (h', w', r) \<and> trace_ok w' \<and>
      (case r of
         Inr b \<Rightarrow> heap_inv example_device_env 1 {#} h' w' {#b#} \<and> m_device_id b = 0
           \<and> unat (100 :: u64) \<le> block_extent h' b \<and> backed w' (m_ptr b) (block_extent h' b)
           \<and> device_backed example_device_env w' (m_device_ptr b) (block_extent h' b)
           \<and> map_option (\<lambda>s. m_ptr b - a_ptr (s_allocation s)) (block_segment h' b)
               = map_option (\<lambda>s. m_device_ptr b - s_device_allocation s) (block_segment h' b)
       | Inl _ \<Rightarrow> True))"
proof -
  obtain h where h: "make_heap example_device_env example_world example_config = Inr h"
    "heap_inv example_device_env 1 {#} h example_world {#}" "h_config h = example_config"
    using make_heap_ok [OF example_device_heap_env example_config_exponents _ example_world_mem] by auto
  have "heap_serves h 100" using h(3) by (rule example_serves) simp_all
  note al = heap_allocate_device_mirrors [OF example_device_heap_env _ h(2) this, of 0 0]
  show ?thesis
    by (rule exI [of _ h], rule conjI [OF h(1)], rule al) (simp_all add: example_device_env_def)
qed

end
