(* ===== verification/Heap_Balance.thy ===== *)
theory Heap_Balance
  imports Heap_Properties
begin

text \<open>
  The balance of memory through the operations of pools and heaps: one that does not throw leaves
  nothing live or registered but what the segments of the pools own.
\<close>

section \<open>Allocation and release\<close>

lemma collect_each_backings:
  "collect_each e segs fs = Some (segs', fs') \<Longrightarrow> backings_of e (mset segs') = backings_of e (mset segs)"
proof (induction segs arbitrary: fs segs' fs')
  case (Cons s segs)
  obtain i seg where s: "s = (i, seg)" by (cases s)
  obtain seg' fs1 n where c: "collect e seg fs = Some (seg', fs1, n)"
    using Cons.prems s by (cases "collect e seg fs") auto
  obtain segs1 fs2 where r: "collect_each e segs fs1 = Some (segs1, fs2)"
    using Cons.prems s c by (cases "collect_each e segs fs1") auto
  have "seg_backings e seg' = seg_backings e seg"
    using c by (auto simp: collect_def split: prod.splits option.splits)
  then show ?case using Cons.prems Cons.IH [OF r] s c r by auto
qed simp

lemma pool_allocate_balanced:
  assumes ok: "env_ok e" and inv: "pool_inv e G p w U" and m: "\<not> p_mutex p"
    and eq: "pool_allocate e p w = Some (p', w', Inr b)" and bal: "balanced (pool_backings e p + G) w"
  shows "balanced (pool_backings e p' + G) w'"
proof (cases "sk_pop (ev_stack e) (p_free_stack p)")
  case (Some x)
  then have "p_segments p' = p_segments p" "w' = w" using eq by (auto simp: pool_allocate_def split: prod.splits)
  then show ?thesis using bal by (simp add: pool_backings_def)
next
  case None
  obtain segs fs where c: "collect_each e (p_segments p) (p_free_stack p) = Some (segs, fs)"
    and inv1: "pool_inv e G (p\<lparr>p_segments := segs, p_free_stack := fs\<rparr>) w U"
    using pool_inv_collect [OF ok inv] by metis
  note same = collect_each_backings [OF c]
  show ?thesis
  proof (cases "sk_pop (ev_stack e) fs")
    case (Some x)
    then have "p_segments p' = segs" "w' = w"
      using None m c eq by (auto simp: pool_allocate_def split: prod.splits)
    then show ?thesis using bal same by (simp add: pool_backings_def)
  next
    case none: None
    let ?p2 = "p\<lparr>p_segments := segs, p_free_stack := fs, p_mutex := True\<rparr>"
    have inv2: "pool_inv e G ?p2 w U" using inv1 pool_inv_mutex [where p = "p\<lparr>p_segments := segs, p_free_stack := fs\<rparr>" and m = True and e = e] by simp
    obtain p1 where loop: "alloc_once e ?p2 w = Some (p1, w', Inr b)" and p': "p' = p1\<lparr>p_mutex := False\<rparr>"
      using None m c none eq alloc_loop_pass [OF ok inv2]
      by (auto simp: pool_allocate_def split: option.splits sum.splits prod.splits)
    obtain p3 where add: "add_segment e ?p2 w = Some (p3, w', Inr ())" and p1: "p_segments p1 = p_segments p3"
      using loop none by (auto simp: alloc_once_def Let_def split: option.splits sum.splits prod.splits)
    have "balanced (pool_backings e ?p2 + G) w" using bal same by (simp add: pool_backings_def)
    from add_segment_balanced [OF ok inv2 add this] show ?thesis using p' p1 by (simp add: pool_backings_def)
  qed
qed

lemma erase_segment_balanced:
  assumes "env_ok e" and "pool_ok e p w U" and "(i, seg) \<in> set (p_segments p)"
    and "erase_segment e p w' i = (p', v)" and "balanced (pool_backings e p + G) w'"
  shows "balanced (pool_backings e p' + G) v"
proof -
  have d: "distinct (map fst (p_segments p))" using assms(2) by (simp add: pool_ok_def)
  then have m: "map_of (p_segments p) i = Some seg" using assms(3) by simp
  have own: "seg_owned e seg" using pool_ok_segmentD [OF assms(2,3)] by (simp add: pool_segment_ok_def)
  obtain M where "pool_segments p = add_mset (i, seg) M" "mset (filter (\<lambda>s. fst s \<noteq> i) (p_segments p)) = M"
    by (rule segment_split [OF d assms(3)])
  then have "pool_backings e p = seg_backings e seg + pool_backings e p'"
    using assms(4) by (auto simp: pool_backings_def erase_segment_def)
  then have "balanced (seg_backings e seg + (pool_backings e p' + G)) w'" using assms(5) by (simp add: add_ac)
  from destroy_segment_balanced [OF assms(1) own this] show ?thesis
    using assms(4) m by (auto simp: erase_segment_def)
qed

lemma release_segment_balanced:
  assumes "env_ok e" and "pool_ok e p w U" and "(i, seg) \<in> set (p_segments p)"
    and "release_segment e p w i = (p', w', Inr ())" and "balanced (pool_backings e p + G) w"
  shows "balanced (pool_backings e p' + G) w'"
proof (cases "allocates_on_device e p")
  case False
  then have "erase_segment e p w i = (p', w')"
    using assms(4) by (cases "erase_segment e p w i") (simp add: release_segment_def)
  then show ?thesis using erase_segment_balanced [OF assms(1-3) _ assms(5)] by blast
next
  case True
  obtain tmp w1 w2 u where 1: "set_device_id (ev_device e) w (p_device_id p) = (w1, Inr u)"
    and 2: "erase_segment e p w1 i = (p', w2)" and 3: "set_device_id (ev_device e) w2 tmp = (w', Inr ())"
    using assms(4) True by (auto simp: release_segment_def split: sum.splits prod.splits)
  have "balanced (pool_backings e p + G) w1"
    using assms(5) set_device_id_quiet [OF 1] by (rule balanced_quiet)
  from erase_segment_balanced [OF assms(1-3) 2 this] show ?thesis
    using set_device_id_quiet [OF 3] by (rule balanced_quiet)
qed

lemma pool_free_balanced:
  assumes ok: "env_ok e" and inv: "pool_inv e G p w (add_mset b U)" and m: "\<not> p_mutex p"
    and eq: "pool_free e p w b = Some (p', w', Inr ())" and bal: "balanced (pool_backings e p + G) w"
  shows "balanced (pool_backings e p' + G) w'"
proof -
  have p: "pool_ok e p w (add_mset b U)" using inv by (simp add: pool_inv_def)
  have "b \<in># free_blocks e p + add_mset b U" by simp
  from block_in_pool [OF p this] obtain i seg where b: "m_segment b = Some i"
    "(i, seg) \<in> set (p_segments p)" "map_of (p_segments p) i = Some seg" "b \<in> set (seg_blocks e i seg)" .
  from free_to_segment [OF ok inv b(1,2,4)] obtain seg' where sf: "segment_free e seg b = Some seg'"
    and inv1: "pool_inv e G (p\<lparr>p_segments := update_segment i seg' (p_segments p)\<rparr>) w U" .
  let ?p = "p\<lparr>p_segments := update_segment i seg' (p_segments p)\<rparr>"
  have s1: "(i, seg') \<in> set (p_segments ?p)" using b(2) by (force simp: update_segment_def)
  have p1: "pool_ok e ?p w U" using inv1 by (simp add: pool_inv_def)
  have "distinct (map fst (p_segments p))" using p by (simp add: pool_ok_def)
  then obtain M where "pool_segments p = add_mset (i, seg) M"
    "mset (update_segment i seg' (p_segments p)) = add_mset (i, seg') M"
    using segment_split [OF _ b(2)] by metis
  moreover have "seg_backings e seg' = seg_backings e seg"
    using sf by (auto simp: segment_free_def split: option.splits)
  ultimately have "pool_backings e ?p = pool_backings e p" by (simp add: pool_backings_def)
  then have bal1: "balanced (pool_backings e ?p + G) w" using bal by simp
  have "p' = ?p \<and> w' = w \<or> release_segment e ?p w i = (p', w', Inr ())"
    using eq b(1,3) sf m by (auto simp: pool_free_def Let_def split: if_splits)
  then show ?thesis using bal1 release_segment_balanced [OF ok p1 s1 _ bal1] by blast
qed

section \<open>The pools of a heap\<close>

lemma store_backings_update:
  "k < length ps \<Longrightarrow> store_backings e (ps[k := p]) = pool_backings e p + others e ps k"
  using store_backings_split [of k "ps[k := p]" e] by simp

lemma with_pool_balanced:
  assumes "with_pool k f ps w = Some (ps', w', Inr x)" and "k < length ps" and "balanced (store_backings e ps + G) w"
    and "\<And>p. f (ps ! k) w = Some (p, w', Inr x) \<Longrightarrow> balanced (pool_backings e (ps ! k) + (others e ps k + G)) w
      \<Longrightarrow> balanced (pool_backings e p + (others e ps k + G)) w'"
  shows "balanced (store_backings e ps' + G) w'"
proof -
  obtain p where p: "f (ps ! k) w = Some (p, w', Inr x)" "ps' = ps[k := p]"
    using assms(1,2) by (auto simp: with_pool_def)
  then show ?thesis
    using assms(4) [OF p(1)] assms(2,3) by (simp add: store_backings_split store_backings_update add_ac)
qed

text \<open>A new fixed-size heap has no memory yet.\<close>

lemma store_backings_new: "p_segments p = [] \<Longrightarrow> store_backings e (ps @ [p]) = store_backings e ps"
  by (simp add: store_backings_def pool_backings_def)

lemma make_pool_empty:
  "make_pool e self bs ss n nf nr = Inr p \<Longrightarrow> p_segments p = []"
  "make_device_pool e self bs ss n d nf nr = Inr p \<Longrightarrow> p_segments p = []"
  by (auto simp: make_pool_def make_device_pool_def bindE_eq_Inr split: if_splits)

lemma add_device_pools_backings:
  "add_device_pools e h n i js ps = Inr (ps', h') \<Longrightarrow> store_backings e ps' = store_backings e ps"
proof (induction js arbitrary: h ps)
  case (Cons j js)
  then obtain p v where "p_segments p = []"
    and r: "add_device_pools e (h\<lparr>f_device_pools := v\<rparr>) n i js (ps @ [p]) = Inr (ps', h')"
    by (auto simp: bindE_eq_Inr dest: make_pool_empty)
  then show ?case using Cons.IH [OF r] store_backings_new by metis
qed simp

lemma add_pools_backings:
  "add_pools e ns ps h = Inr (ps', h') \<Longrightarrow> store_backings e ps' = store_backings e ps"
proof (induction ns arbitrary: h ps)
  case (Cons ni ns)
  obtain n i where ni: "ni = (n, i)" by (cases ni)
  obtain p v ps1 h1 where p: "p_segments p = []"
    and d: "add_device_pools e (h\<lparr>f_pools := v\<rparr>) n i [0 ..< f_num_devices h] (ps @ [p]) = Inr (ps1, h1)"
    and r: "add_pools e ns ps1 h1 = Inr (ps', h')"
    using Cons.prems ni by (auto simp: bindE_eq_Inr dest: make_pool_empty)
  show ?case using Cons.IH [OF r] add_device_pools_backings [OF d] store_backings_new [OF p] by metis
qed simp

lemma make_fixed_size_heap_backings:
  "make_fixed_size_heap e w ps bs ss nf nr = Inr (ps', f) \<Longrightarrow> store_backings e ps' = store_backings e ps"
  by (auto simp: make_fixed_size_heap_def Let_def bindE_eq_Inr dest: add_pools_backings)

text \<open>The heaps a size class adds, and so the pools.\<close>

lemma same_heap: "bindE m (\<lambda>f. Inr (h, f)) = Inr (h', f) \<Longrightarrow> h' = h"
  by (auto simp: bindE_eq_Inr)

lemma size_class_adds:
  assumes "size_class e h w n = Inr (h', f)"
  obtains "h' = h"
  | s where "make_fixed_size_heap e w (h_pools h) s s (m_never_free (h_config h))
        (m_num_reserve_segments (h_config h)) = Inr (h_pools h', f)"
      and "h' = h\<lparr>h_huge_heaps := (s, f) # h_huge_heaps h, h_pools := h_pools h'\<rparr>"
proof (cases "n \<le> m_tiny_limit (h_config h) \<or> n \<le> h_max_size h")
  case True
  then obtain m where "bindE m (\<lambda>f. Inr (h, f)) = Inr (h', f)"
    using assms unfolding size_class_def by (cases "n \<le> m_tiny_limit (h_config h)") (simp_all only: if_True if_False simp_thms)
  then have "h' = h" by (rule same_heap)
  then show ?thesis by (rule that(1))
next
  case False
  then obtain s where s: "(case map_of (h_huge_heaps h) s of Some f \<Rightarrow> Inr (h, f)
      | None \<Rightarrow> bindE (make_fixed_size_heap e w (h_pools h) s s (m_never_free (h_config h))
                        (m_num_reserve_segments (h_config h)))
            (\<lambda>(ps, f). Inr (h\<lparr>h_huge_heaps := (s, f) # h_huge_heaps h, h_pools := ps\<rparr>, f))) = Inr (h', f)"
    using assms by (auto simp: size_class_def bindE_eq_Inr)
  show ?thesis
  proof (cases "map_of (h_huge_heaps h) s")
    case None
    then obtain ps where "make_fixed_size_heap e w (h_pools h) s s (m_never_free (h_config h))
        (m_num_reserve_segments (h_config h)) = Inr (ps, f)"
      "h' = h\<lparr>h_huge_heaps := (s, f) # h_huge_heaps h, h_pools := ps\<rparr>"
      using s by (auto simp: bindE_eq_Inr)
    then show ?thesis using that(2) [of s] by simp
  qed (use s that(1) in simp)
qed

lemma size_class_backings:
  assumes "size_class e h w n = Inr (h', f)"
  shows "store_backings e (h_pools h') = store_backings e (h_pools h)"
  using assms by (cases rule: size_class_adds) (simp_all add: make_fixed_size_heap_backings)

definition heap_balanced :: "('h, 's) env \<Rightarrow> backing multiset \<Rightarrow> 's heap \<times> world \<Rightarrow> bool" where
  "heap_balanced e G s \<longleftrightarrow> balanced (store_backings e (h_pools (fst s)) + G) (snd s)"

lemma heap_get_balanced:
  assumes "heap_good e nd G s U" and "heap_get e c s = Some (s', Inr b)" and "heap_balanced e G s"
  shows "heap_balanced e G s'"
proof -
  obtain h w n node where s: "s = (h, w)" "c = (n, node)" by (cases s; cases c)
  have env: "heap_env e nd" and inv: "heap_inv e nd G h w U" using assms(1) s by (simp_all add: heap_good_def)
  obtain h' w' where s': "s' = (h', w')" and al: "heap_allocate e h w n node = Some (h', w', Inr b)"
    using assms(2) s by (auto simp: heap_get_def)
  obtain h1 f where sc: "size_class e h w n = Inr (h1, f)"
    using al by (cases "size_class e h w n") (auto simp: heap_allocate_def)
  note ok = size_class_ok [OF env inv sc]
  obtain Us where st: "store_inv e G (h_pools h1) w Us" using ok(1) by (auto simp: heap_inv_def)
  have "fixed_ok e (h_pools h1) f" using ok(2) by (simp add: fixed_at_def)
  from fixed_allocate_pool [OF heap_envD(2) [OF env] this, of w node] obtain k where k:
    "fixed_allocate e f (h_pools h1) w node = with_pool k (pool_allocate e) (h_pools h1) w" "k < length (h_pools h1)"
    by blast
  obtain ps where wp: "with_pool k (pool_allocate e) (h_pools h1) w = Some (ps, w', Inr b)" "h' = h1\<lparr>h_pools := ps\<rparr>"
    using al sc k(1) by (auto simp: heap_allocate_def in_store_def)
  have "balanced (store_backings e (h_pools h1) + G) w"
    using assms(3) s size_class_backings [OF sc] by (simp add: heap_balanced_def)
  from with_pool_balanced [OF wp(1) k(2) this] show ?thesis
    using pool_allocate_balanced [OF heap_envD(1) [OF env] store_inv_pool(1,2) [OF st k(2)]] s' wp(2)
    by (simp add: heap_balanced_def)
qed

lemma heap_put_balanced:
  assumes "heap_good e nd G s (add_mset b U)" and "heap_put e b s = Some (s', Inr u)" and "heap_balanced e G s"
  shows "heap_balanced e G s'"
proof -
  obtain h w where s: "s = (h, w)" by (cases s)
  have env: "heap_env e nd" and inv: "heap_inv e nd G h w (add_mset b U)" using assms(1) s by (simp_all add: heap_good_def)
  obtain h' w' where s': "s' = (h', w')" and fr: "heap_free e h w b = Some (h', w', Inr u)"
    using assms(2) s by (auto simp: heap_put_def)
  obtain Us where st: "store_inv e G (h_pools h) w Us" and U: "add_mset b U = sum_list Us"
    using inv by (auto simp: heap_inv_def)
  have "b \<in># sum_list Us" by (simp flip: U)
  from store_held [OF st this] obtain k i seg where k: "k < length (h_pools h)" "b \<in># Us ! k" "m_segment b = Some i"
    "map_of (all_segments (h_pools h)) i = Some seg" "s_pool seg = k"
    by metis
  obtain V where V: "Us ! k = add_mset b V" using k(2) by (metis multi_member_split)
  have nx: "noexcept_result r = Inr u \<longleftrightarrow> r = Inr u" for r :: "fault + unit"
    by (simp add: noexcept_result_def split: sum.split fault.split)
  obtain ps where wp: "with_pool k (\<lambda>p w. pool_free e p w b) (h_pools h) w = Some (ps, w', Inr u)" "h' = h\<lparr>h_pools := ps\<rparr>"
    using fr k(3-5) nx by (auto simp: heap_free_def release_def release_from_segment_def in_store_def)
  have "balanced (store_backings e (h_pools h) + G) w" using assms(3) s by (simp add: heap_balanced_def)
  from with_pool_balanced [OF wp(1) k(1) this] show ?thesis
    using pool_free_balanced [OF heap_envD(1) [OF env] store_inv_pool(1) [OF st k(1), unfolded V] store_inv_pool(2) [OF st k(1)]] s' wp(2)
    by (simp add: heap_balanced_def)
qed

end
