(* ===== verification/Heap_Destruction.thy ===== *)
theory Heap_Destruction
  imports Heap_Balance
begin

text \<open>
  The destructors of \<open>heap\<close> (\<open>include/hwmalloc/heap.hpp\<close>) and \<open>fixed_size_heap\<close>
  (\<open>include/hwmalloc/detail/fixed_size_heap.hpp\<close>), which the compiler writes: members are destroyed in
  the reverse of their order. Every pool has one owner, so each is destroyed once.
\<close>

section \<open>Destruction\<close>

text \<open>What the pointers of a vector that are not null point to.\<close>

fun present :: "'a option list \<Rightarrow> 'a list" where
  "present [] = []"
| "present (None # xs) = present xs"
| "present (Some x # xs) = x # present xs"

definition fixed_pools :: "fixed_size_heap \<Rightarrow> nat list" where
  "fixed_pools f = present (f_device_pools f) @ present (f_pools f)"

definition destroy_fixed_size_heap ::
  "('h, 's) env \<Rightarrow> 's pool list \<Rightarrow> fixed_size_heap \<Rightarrow> world \<Rightarrow> world" where
  "destroy_fixed_size_heap e ps f w = fold (\<lambda>k w. destroy_pool e w (ps ! k)) (fixed_pools f) w"

definition heap_members :: "'s heap \<Rightarrow> fixed_size_heap list" where
  "heap_members h = map snd (h_huge_heaps h) @ present (h_heaps h) @ present (h_tiny_heaps h)"

definition destroy_heap :: "('h, 's) env \<Rightarrow> 's heap \<Rightarrow> world \<Rightarrow> world" where
  "destroy_heap e h w = fold (destroy_fixed_size_heap e (h_pools h)) (heap_members h) w"

section \<open>Every pool has one owner\<close>

lemma length_present [simp]: "present (replicate n None) = []"
  by (induction n) simp_all

lemma present_append [simp]: "present (xs @ ys) = present xs @ present ys"
  by (induction xs rule: present.induct) simp_all

lemma present_put:
  "i < length xs \<Longrightarrow> xs ! i = None \<Longrightarrow> mset (present (xs[i := Some x])) = add_mset x (mset (present xs))"
proof (induction xs arbitrary: i rule: present.induct)
  case (2 xs)
  then show ?case by (cases i) simp_all
next
  case (3 y xs)
  then show ?case by (cases i) (simp_all add: add_mset_commute)
qed simp

text \<open>The pools a constructor adds, from the position \<open>m\<close> on, are those its vectors gain.\<close>

definition gains :: "nat list \<Rightarrow> nat \<Rightarrow> nat \<Rightarrow> nat list \<Rightarrow> bool" where
  "gains old m m' new \<longleftrightarrow> m \<le> m' \<and> mset new = mset old + mset [m ..< m']"

lemma gains_refl [simp]: "gains xs m m xs"
  by (simp add: gains_def)

lemma upt_split: "i \<le> j \<Longrightarrow> j \<le> k \<Longrightarrow> [i ..< j] @ [j ..< k] = [i ..< k]"
  using upt_add_eq_append [of i j "k - j"] by simp

lemma gains_trans: "gains xs m m' ys \<Longrightarrow> gains ys m' m'' zs \<Longrightarrow> gains xs m m'' zs"
proof -
  assume "gains xs m m' ys" and "gains ys m' m'' zs"
  then have le: "m \<le> m'" "m' \<le> m''" and eq: "mset ys = mset xs + mset [m ..< m']" "mset zs = mset ys + mset [m' ..< m'']"
    by (simp_all only: gains_def)
  have "mset [m ..< m''] = mset [m ..< m'] + mset [m' ..< m'']"
    unfolding upt_split [OF le, symmetric] by (rule mset_append)
  then show ?thesis using le eq by (simp only: gains_def add.assoc) simp
qed

lemma gains_one: "mset ys = add_mset m (mset xs) \<Longrightarrow> gains xs m (Suc m) ys"
  by (simp add: gains_def)

lemma gains_frame: "gains xs m m' ys \<Longrightarrow> mset xs' = mset (xs @ zs) \<Longrightarrow> mset ys' = mset (ys @ zs) \<Longrightarrow> gains xs' m m' ys'"
  by (simp add: gains_def add_ac)

lemma add_device_pools_gains:
  assumes "add_device_pools e h n i js ps = Inr (ps', h')" and "distinct js"
    and "\<forall>j \<in> set js. unat i * f_num_devices h + j < length (f_device_pools h)
      \<longrightarrow> f_device_pools h ! (unat i * f_num_devices h + j) = None"
  shows "gains (fixed_pools h) (length ps) (length ps') (fixed_pools h')"
    and "f_pools h' = f_pools h" and "f_num_devices h' = f_num_devices h"
    and "length (f_device_pools h') = length (f_device_pools h)"
    and "\<forall>x. (\<forall>j \<in> set js. x \<noteq> unat i * f_num_devices h + j) \<longrightarrow> f_device_pools h' ! x = f_device_pools h ! x"
proof -
  have "gains (fixed_pools h) (length ps) (length ps') (fixed_pools h') \<and> f_pools h' = f_pools h
    \<and> f_num_devices h' = f_num_devices h \<and> length (f_device_pools h') = length (f_device_pools h)
    \<and> (\<forall>x. (\<forall>j \<in> set js. x \<noteq> unat i * f_num_devices h + j) \<longrightarrow> f_device_pools h' ! x = f_device_pools h ! x)"
    using assms
  proof (induction js arbitrary: h ps)
    case (Cons j js)
    let ?x = "unat i * f_num_devices h + j"
    let ?h = "h\<lparr>f_device_pools := (f_device_pools h)[?x := Some (length ps)]\<rparr>"
    obtain p where lt: "?x < length (f_device_pools h)"
      and r: "add_device_pools e ?h n i js (ps @ [p]) = Inr (ps', h')"
      using Cons.prems(1) by (auto simp: vector_put_def bindE_eq_Inr split: if_splits)
    have "f_device_pools h ! ?x = None" using Cons.prems(3) lt by simp
    then have one: "gains (fixed_pools h) (length ps) (Suc (length ps)) (fixed_pools ?h)"
      using present_put [OF lt] by (intro gains_one) (simp add: fixed_pools_def)
    have "\<forall>k \<in> set js. unat i * f_num_devices ?h + k < length (f_device_pools ?h)
        \<longrightarrow> f_device_pools ?h ! (unat i * f_num_devices ?h + k) = None"
      using Cons.prems(2,3) lt by (auto simp: nth_list_update)
    with Cons.IH [OF r] Cons.prems(2) show ?case using gains_trans [OF one] by auto
  qed simp
  then show "gains (fixed_pools h) (length ps) (length ps') (fixed_pools h')"
    and "f_pools h' = f_pools h" and "f_num_devices h' = f_num_devices h"
    and "length (f_device_pools h') = length (f_device_pools h)"
    and "\<forall>x. (\<forall>j \<in> set js. x \<noteq> unat i * f_num_devices h + j) \<longrightarrow> f_device_pools h' ! x = f_device_pools h ! x"
    by blast+
qed

lemma add_pools_gains:
  assumes "add_pools e ns ps h = Inr (ps', h')" and "distinct (map (\<lambda>(n, i). unat i) ns)"
    and "\<forall>(n, i) \<in> set ns. (unat i < length (f_pools h) \<longrightarrow> f_pools h ! unat i = None)
      \<and> (\<forall>j < f_num_devices h. unat i * f_num_devices h + j < length (f_device_pools h)
            \<longrightarrow> f_device_pools h ! (unat i * f_num_devices h + j) = None)"
  shows "gains (fixed_pools h) (length ps) (length ps') (fixed_pools h')"
  using assms
proof (induction ns arbitrary: h ps)
  case (Cons ni ns)
  obtain n i where ni: "ni = (n, i)" by (cases ni)
  let ?h = "h\<lparr>f_pools := (f_pools h)[unat i := Some (length ps)]\<rparr>"
  obtain p ps1 h1 where lt: "unat i < length (f_pools h)"
    and d: "add_device_pools e ?h n i [0 ..< f_num_devices h] (ps @ [p]) = Inr (ps1, h1)"
    and r: "add_pools e ns ps1 h1 = Inr (ps', h')"
    using Cons.prems(1) ni by (auto simp: vector_put_def bindE_eq_Inr split: if_splits)
  have "f_pools h ! unat i = None" using Cons.prems(3) lt ni by simp
  then have one: "gains (fixed_pools h) (length ps) (Suc (length ps)) (fixed_pools ?h)"
    using present_put [OF lt] by (intro gains_one) (simp add: fixed_pools_def)
  have "\<forall>j \<in> set [0 ..< f_num_devices h]. unat i * f_num_devices ?h + j < length (f_device_pools ?h)
      \<longrightarrow> f_device_pools ?h ! (unat i * f_num_devices ?h + j) = None"
    using Cons.prems(3) ni by simp
  note dev = add_device_pools_gains [OF d distinct_upt this]
  have "unat k * f_num_devices h + j \<noteq> unat i * f_num_devices h + j'"
    if "(m, k) \<in> set ns" "j < f_num_devices h" "j' < f_num_devices h" for m k j j'
  proof
    assume eq: "unat k * f_num_devices h + j = unat i * f_num_devices h + j'"
    have "(unat k * f_num_devices h + j) div f_num_devices h = unat k"
      "(unat i * f_num_devices h + j') div f_num_devices h = unat i" using that(2,3) by simp_all
    then have "unat k = unat i" using eq by simp
    then show False using Cons.prems(2) that(1) ni by force
  qed
  moreover have "unat k \<noteq> unat i" if "(m, k) \<in> set ns" for m k
    using Cons.prems(2) that ni by force
  ultimately have "\<forall>(n, i) \<in> set ns. (unat i < length (f_pools h1) \<longrightarrow> f_pools h1 ! unat i = None)
      \<and> (\<forall>j < f_num_devices h1. unat i * f_num_devices h1 + j < length (f_device_pools h1)
            \<longrightarrow> f_device_pools h1 ! (unat i * f_num_devices h1 + j) = None)"
    using Cons.prems(3) dev(2-5) by (fastforce simp: nth_list_update)
  with Cons.IH [OF r] Cons.prems(2) ni
  have "gains (fixed_pools h1) (length ps1) (length ps') (fixed_pools h')" by simp
  with dev(1) have "gains (fixed_pools ?h) (Suc (length ps)) (length ps') (fixed_pools h')"
    using gains_trans by fastforce
  with one show ?case by (rule gains_trans)
qed simp

lemma make_fixed_size_heap_gains:
  assumes "make_fixed_size_heap e w ps bs ss nf nr = Inr (ps', f)" and "nodes_ok (ev_numa e)"
  shows "gains [] (length ps) (length ps') (fixed_pools f)"
proof -
  let ?m = "local_nodes (ev_numa e)"
  obtain nd where r: "add_pools e (nodes ?m) ps
      \<lparr>f_block_size = bs, f_segment_size = ss, f_never_free = nf, f_num_reserve_segments = nr,
       f_pools = replicate (node_map_size ?m) None, f_num_devices = nd,
       f_device_pools = replicate (node_map_size ?m * nd) None\<rparr> = Inr (ps', f)"
    using assms(1) by (auto simp: make_fixed_size_heap_def Let_def bindE_eq_Inr)
  have "map (\<lambda>(n, i). unat i) (nodes ?m) = [0 ..< node_map_size ?m]"
    using nodes_index [OF assms(2)] by (intro nth_equalityI) (auto simp: node_map_size_def split_beta)
  then have "distinct (map (\<lambda>(n, i). unat i) (nodes ?m))" by simp
  from add_pools_gains [OF r this] show ?thesis by (simp add: fixed_pools_def split_beta)
qed

definition members_pools :: "fixed_size_heap list \<Rightarrow> nat list" where
  "members_pools fs = concat (map fixed_pools fs)"

lemma mset_members: "mset (members_pools fs) = (\<Sum>f \<in># mset fs. mset (fixed_pools f))"
  by (induction fs) (simp_all add: members_pools_def)

lemma build_heaps_gains:
  assumes "build_heaps e w c slots ps hs = Inr (ps', hs')" and "nodes_ok (ev_numa e)"
    and "distinct (map fst slots)" and "\<forall>i \<in> fst ` set slots. i < length hs \<longrightarrow> hs ! i = None"
  shows "gains (members_pools (present hs)) (length ps) (length ps') (members_pools (present hs'))"
  using assms(1,3,4)
proof (induction slots arbitrary: ps hs)
  case (Cons slot slots)
  obtain i bs ss where s: "slot = (i, bs, ss)" by (cases slot)
  obtain ps1 f where m: "make_fixed_size_heap e w ps bs ss (m_never_free c) (m_num_reserve_segments c) = Inr (ps1, f)"
    and lt: "i < length hs" and r: "build_heaps e w c slots ps1 (hs[i := Some f]) = Inr (ps', hs')"
    using Cons.prems(1) s by (auto simp: vector_put_def bindE_eq_Inr split: if_splits)
  have "mset (present (hs[i := Some f])) = add_mset f (mset (present hs))"
    using present_put [OF lt] Cons.prems(3) s lt by simp
  then have "mset (members_pools (present (hs[i := Some f]))) = mset (fixed_pools f @ members_pools (present hs))"
    by (simp add: mset_members)
  then have "gains (members_pools (present hs)) (length ps) (length ps1) (members_pools (present (hs[i := Some f])))"
    using gains_frame [OF make_fixed_size_heap_gains [OF m assms(2)]] by simp
  moreover have "\<forall>j \<in> fst ` set slots. j < length (hs[i := Some f]) \<longrightarrow> hs[i := Some f] ! j = None"
    using Cons.prems(2,3) s lt by (auto simp: nth_list_update)
  with Cons.IH [OF r] Cons.prems(2)
  have "gains (members_pools (present (hs[i := Some f]))) (length ps1) (length ps') (members_pools (present hs'))"
    by simp
  ultimately show ?case by (rule gains_trans)
qed simp

definition heap_owns :: "'s heap \<Rightarrow> bool" where
  "heap_owns h \<longleftrightarrow> mset (members_pools (heap_members h)) = mset [0 ..< length (h_pools h)]"

lemma distinct_slots:
  "distinct (map fst (tiny_slots c n))" "distinct (map fst (small_slots c @ large_slots c @ huge_slots c n))"
proof -
  show "distinct (map fst (tiny_slots c n))" by (simp add: tiny_slots_def comp_def)
  let ?s = "unat (m_num_small_heaps c)" and ?l = "unat (m_num_large_heaps c)"
    and ?h = "unat (of_nat n - (m_num_small_heaps c + m_num_large_heaps c))"
  have "map fst (small_slots c @ large_slots c @ huge_slots c n)
      = [0 ..< ?s] @ map (\<lambda>i. i + ?s) [0 ..< ?l] @ map (\<lambda>i. i + (?s + ?l)) [0 ..< ?h]"
    by (simp add: small_slots_def large_slots_def huge_slots_def comp_def add.assoc)
  also have "\<dots> = [0 ..< ?s] @ [?s ..< ?l + ?s] @ [?s + ?l ..< ?h + (?s + ?l)]"
    unfolding map_add_upt by simp
  finally show "distinct (map fst (small_slots c @ large_slots c @ huge_slots c n))" by auto
qed

lemma make_heap_owns:
  assumes "make_heap e w c = Inr h" and "nodes_ok (ev_numa e)"
  shows "heap_owns h"
proof -
  obtain ps tiny n nt hs m ps' where t: "build_heaps e w c (tiny_slots c nt) [] (replicate nt None) = Inr (ps, tiny)"
    and b: "build_heaps e w c (small_slots c @ large_slots c @ huge_slots c n) ps (replicate n None) = Inr (ps', hs)"
    and "Inr \<lparr>h_config = c, h_max_size = m, h_tiny_heaps = tiny, h_heaps = hs, h_huge_heaps = [],
         h_pools = ps', h_users = []\<rparr> = (Inr h :: fault + _)"
    using assms(1) unfolding make_heap_def Let_def bindE_eq_Inr split_paired_Ex prod.case
    by (elim exE conjE) (rule that)
  then have h: "h_tiny_heaps h = tiny" "h_heaps h = hs" "h_huge_heaps h = []" "ps' = h_pools h" by auto
  have 1: "gains [] 0 (length ps) (members_pools (present tiny))"
    using build_heaps_gains [OF t assms(2) distinct_slots(1)] by (simp add: members_pools_def)
  have 2: "gains [] (length ps) (length (h_pools h)) (members_pools (present hs))"
    using build_heaps_gains [OF b assms(2) distinct_slots(2)] h(4) by (simp add: members_pools_def)
  have "gains (members_pools (present tiny)) (length ps) (length (h_pools h)) (members_pools (heap_members h))"
    by (rule gains_frame [OF 2]) (simp_all add: heap_members_def h members_pools_def)
  with 1 have "gains [] 0 (length (h_pools h)) (members_pools (heap_members h))" by (rule gains_trans)
  then show ?thesis by (simp add: heap_owns_def gains_def)
qed

text \<open>No operation changes the owners but the making of a heap for a large size.\<close>

lemma in_store_owns:
  assumes "in_store h (with_pool k f (h_pools h) w) = Some (h', w', r)" and "heap_owns h"
  shows "heap_owns h'"
  using assms by (auto simp: in_store_def with_pool_def heap_owns_def heap_members_def split: if_splits)

lemma size_class_owns:
  assumes "size_class e h w n = Inr (h', f)" and "heap_owns h" and "nodes_ok (ev_numa e)"
  shows "heap_owns h'"
  using assms(1)
proof (cases rule: size_class_adds)
  case (2 s)
  have "heap_members h' = f # heap_members h"
    by (subst 2(2)) (simp add: heap_members_def)
  then have "gains (members_pools (heap_members h)) (length (h_pools h)) (length (h_pools h')) (members_pools (heap_members h'))"
    by (intro gains_frame [OF make_fixed_size_heap_gains [OF 2(1) assms(3)]]) (simp_all add: members_pools_def)
  moreover have "gains [] 0 (length (h_pools h)) (members_pools (heap_members h))"
    using assms(2) by (simp add: heap_owns_def gains_def)
  ultimately have "gains [] 0 (length (h_pools h')) (members_pools (heap_members h'))"
    by (metis gains_trans)
  then show ?thesis by (simp add: heap_owns_def gains_def)
qed (use assms(2) in simp)

lemma heap_allocate_owns:
  assumes "heap_allocate e h w n node = Some (h', w', r)" and "heap_owns h" and "nodes_ok (ev_numa e)"
  shows "heap_owns h'"
proof (cases "size_class e h w n")
  case (Inr hf)
  obtain h1 f where hf: "hf = (h1, f)" by (cases hf)
  have own: "heap_owns h1" using size_class_owns [OF _ assms(2,3)] Inr hf by blast
  have st: "in_store h1 (fixed_allocate e f (h_pools h1) w node) = Some (h', w', r)"
    using assms(1) Inr hf by (simp add: heap_allocate_def)
  show ?thesis
  proof (cases "bindE (numa_node_index (ev_numa e) w node) (\<lambda>i. vector_deref (f_pools f) (unat i))")
    case (Inl a)
    then have "h' = h1" using st by (auto simp: fixed_allocate_def in_store_def)
    then show ?thesis using own by simp
  next
    case (Inr k)
    then show ?thesis using st in_store_owns [OF _ own] by (simp add: fixed_allocate_def)
  qed
qed (use assms in \<open>simp add: heap_allocate_def\<close>)

lemma heap_free_owns:
  assumes "heap_free e h w b = Some (h', w', r)" and "heap_owns h"
  shows "heap_owns h'"
proof (cases "m_segment b")
  case (Some this)
  show ?thesis
  proof (cases "map_of (all_segments (h_pools h)) this")
    case (Some seg)
    then obtain r' where
      "in_store h (with_pool (s_pool seg) (\<lambda>p w. pool_free e p w b) (h_pools h) w) = Some (h', w', r')"
      using assms(1) \<open>m_segment b = Some this\<close> by (auto simp: heap_free_def release_def release_from_segment_def)
    then show ?thesis by (rule in_store_owns) (rule assms(2))
  qed (use assms \<open>m_segment b = Some this\<close> in \<open>simp add: heap_free_def release_def release_from_segment_def\<close>)
next
  case None
  then show ?thesis
    using assms by (auto simp: heap_free_def release_def release_user_allocation_def heap_owns_def heap_members_def
      split: option.splits)
qed

section \<open>All memory is given back\<close>

lemma destroy_heap_pools:
  "destroy_heap e h w = fold (\<lambda>k w. destroy_pool e w (h_pools h ! k)) (members_pools (heap_members h)) w"
proof -
  have "fold (destroy_fixed_size_heap e (h_pools h)) fs w
      = fold (\<lambda>k w. destroy_pool e w (h_pools h ! k)) (members_pools fs) w" for fs w
    by (induction fs arbitrary: w) (simp_all add: members_pools_def destroy_fixed_size_heap_def)
  then show ?thesis by (simp add: destroy_heap_def)
qed

lemma destroy_pools_segments:
  "fold (\<lambda>k w. destroy_pool e w (ps ! k)) ks w
    = fold (\<lambda>s w. destroy_segment e w (snd s)) (concat (map (\<lambda>k. p_segments (ps ! k)) ks)) w"
  by (induction ks arbitrary: w) (simp_all add: destroy_pool_def)

lemma owned_segments:
  fixes ps :: "'s pool list"
  assumes "mset ks = mset [0 ..< length ps]"
  shows "mset (concat (map (\<lambda>k. p_segments (ps ! k)) ks)) = mset (all_segments ps)"
proof -
  have m: "mset (concat (map f ks)) = (\<Sum>k \<in># mset ks. mset (f k))" for f :: "nat \<Rightarrow> (nat \<times> 's segment) list" and ks
    by (induction ks) simp_all
  have "map (\<lambda>k. p_segments (ps ! k)) [0 ..< length ps] = map p_segments ps"
    by (intro nth_equalityI) simp_all
  then have "all_segments ps = concat (map (\<lambda>k. p_segments (ps ! k)) [0 ..< length ps])"
    by (simp add: all_segments_def)
  then show ?thesis unfolding m [of _ ks] assms by (simp only: m)
qed

lemma destroy_heap_ok:
  assumes "heap_env e nd" and "heap_inv e nd G h w U" and "heap_owns h"
  shows "mem_inv G (destroy_heap e h w)"
    and "balanced (store_backings e (h_pools h) + G) w \<Longrightarrow> balanced G (destroy_heap e h w)"
proof -
  obtain Us where st: "store_inv e G (h_pools h) w Us" using assms(2) by (auto simp: heap_inv_def)
  let ?segs = "concat (map (\<lambda>k. p_segments (h_pools h ! k)) (members_pools (heap_members h)))"
  have m: "mset ?segs = mset (all_segments (h_pools h))"
    using owned_segments assms(3) unfolding heap_owns_def by blast
  then have "set ?segs = set (all_segments (h_pools h))" by (rule mset_eq_setD)
  moreover have "seg_owned e s" if "(i, s) \<in> set (all_segments (h_pools h))" for i s
    using store_segment [OF st that] by (metis pool_segment_ok_def)
  ultimately have own: "\<forall>(i, s) \<in> set ?segs. seg_owned e s" by auto
  have b: "backings_of e (mset ?segs) = store_backings e (h_pools h)"
    unfolding m by (simp add: store_backings_segments)
  note env = heap_envD(1) [OF assms(1)]
  show "mem_inv G (destroy_heap e h w)"
    unfolding destroy_heap_pools destroy_pools_segments
    by (rule destroy_segments_ok [OF env own]) (use st b in \<open>simp add: store_inv_def\<close>)
  show "balanced G (destroy_heap e h w)" if "balanced (store_backings e (h_pools h) + G) w"
    unfolding destroy_heap_pools destroy_pools_segments
    by (rule destroy_segments_balanced [OF env own]) (use that b in simp)
qed

text \<open>
  With its balance and its owners in the invariant the heap is a source of blocks still.
\<close>

definition heap_whole ::
  "('h, 's) env \<Rightarrow> nat \<Rightarrow> backing multiset \<Rightarrow> 's heap \<times> world \<Rightarrow> 'h block multiset \<Rightarrow> bool" where
  "heap_whole e nd G s U \<longleftrightarrow> heap_good e nd G s U \<and> heap_balanced e G s \<and> heap_owns (fst s)"

lemma heap_get_owns:
  "heap_good e nd G s U \<Longrightarrow> heap_get e c s = Some (s', r) \<Longrightarrow> heap_owns (fst s) \<Longrightarrow> heap_owns (fst s')"
  using heap_allocate_owns heap_envD(2) by (fastforce simp: heap_get_def heap_good_def)

lemma heap_put_owns: "heap_put e b s = Some (s', r) \<Longrightarrow> heap_owns (fst s) \<Longrightarrow> heap_owns (fst s')"
  using heap_free_owns by (fastforce simp: heap_put_def)

interpretation whole: block_source "heap_get e" "heap_put e" "heap_whole e nd G" heap_clean "\<lambda>s. heap_apart (fst s)"
  for e :: "('h, 's) env" and nd and G
proof (unfold_locales, goal_cases)
  case (1 s U c)
  then show ?case using heap.get_returns [of e nd G s U c] by (simp only: heap_whole_def)
next
  case (2 s U c s' b)
  then have g: "heap_good e nd G s U" "heap_balanced e G s" "heap_owns (fst s)" by (simp_all add: heap_whole_def)
  show ?case
    using heap.get_block [OF g(1) 2(2)] heap_get_balanced [OF g(1) 2(2) g(2)] heap_get_owns [OF g(1) 2(2) g(3)]
    by (simp add: heap_whole_def)
next
  case (3 s U c s' f)
  then show ?case using heap.get_fault [of e nd G s U c s' f] by (simp only: heap_whole_def)
next
  case (4 s b U)
  then show ?case using heap.put_returns [of e nd G s b U] by (simp only: heap_whole_def)
next
  case (5 s b U s' u)
  then have g: "heap_good e nd G s (add_mset b U)" "heap_balanced e G s" "heap_owns (fst s)" by (simp_all add: heap_whole_def)
  show ?case
    using heap.put_block [OF g(1) 5(2)] heap_put_balanced [OF g(1) 5(2) g(2)] heap_put_owns [OF 5(2) g(3)]
    by (simp add: heap_whole_def)
next
  case (6 s b U s' f)
  then show ?case using heap.put_fault [of e nd G s b U s' f] by (simp only: heap_whole_def)
next
  case (7 s U)
  then show ?case using heap.inv_clean [of e nd G s U] by (simp only: heap_whole_def)
next
  case (8 s U b b')
  then show ?case using heap.inv_disjoint [of e nd G s U b b'] by (simp only: heap_whole_def)
qed

lemma new_heap_whole:
  assumes "heap_env e nd" and "config_exponents c t s l" and "l \<le> 30" and "make_heap e [] c = Inr h"
  shows "heap_whole e nd {#} (h, []) {#}"
  using make_heap_ok [OF assms(1-3) mem_inv_empty] assms(1,4) make_heap_owns [OF assms(4) heap_envD(2) [OF assms(1)]]
  by (auto simp: heap_whole_def heap_good_def heap_balanced_def)

text \<open>
  C8: Whatever a user of a new heap did, unless a call threw, all live memory and every
  registration belongs to a segment of a pool of the heap, and destroying the heap gives all of it
  back, each piece once and as it was allocated, even while blocks are still held.
\<close>

theorem destroy_heap_gives_back:
  assumes "heap_env e nd" and "config_exponents c t s l" and "l \<le> 30" and "make_heap e [] c = Inr h0"
    and "run (heap_get e) (heap_put e) requests (h0, []) [] = Some ((h, w), held, None)"
  shows "balanced (store_backings e (h_pools h)) w
    \<and> live (destroy_heap e h w) = [] \<and> regs (destroy_heap e h w) = [] \<and> trace_ok (destroy_heap e h w)"
proof -
  have "heap_whole e nd {#} (h0, []) (mset [])" using new_heap_whole [OF assms(1-4)] by simp
  from whole.run_ok [OF this, of requests] assms(5) have "heap_whole e nd {#} (h, w) (mset held)" by auto
  then have "heap_inv e nd {#} h w (mset held)" and b: "balanced (store_backings e (h_pools h)) w" and o: "heap_owns h"
    by (simp_all add: heap_whole_def heap_good_def heap_balanced_def)
  note d = destroy_heap_ok [OF assms(1) this(1) o]
  show ?thesis using mem_inv_trace_ok [OF d(1)] d(2) b by (simp add: balanced_empty)
qed

lemma destroy_heap_gives_back_witness:
  "\<exists>h0 h w b. make_heap example_env [] example_config = Inr h0
    \<and> run (heap_get example_env) (heap_put example_env) [Take (100, 0)] (h0, []) [] = Some ((h, w), [b], None)
    \<and> live (destroy_heap example_env h w) = [] \<and> regs (destroy_heap example_env h w) = []"
proof -
  obtain h0 h w b where h: "make_heap example_env [] example_config = Inr h0"
    "heap_allocate example_env h0 [] 100 0 = Some (h, w, Inr b)"
    by (rule example_heap_held)
  have r: "run (heap_get example_env) (heap_put example_env) [Take (100, 0)] (h0, []) [] = Some ((h, w), [b], None)"
    using h(2) by (simp add: heap_get_def)
  from destroy_heap_gives_back [OF example_heap_env example_config_exponents _ h(1) r] h(1) r show ?thesis by auto
qed

end
