(* ===== verification/Best_Fit.thy ===== *)
theory Best_Fit
  imports Heap_Properties
begin

text \<open>
  The tables of the heap: what the constructor fills them with, and that the arithmetic on sizes
  finds the smallest of the block sizes in them that is large enough.
\<close>

section \<open>The tables\<close>

lemma tiny_table:
  assumes "heap_shape e nd h" and "Some g \<in> set (h_tiny_heaps h)"
  obtains i where "i < tiny_classes (h_config h)" and "unat (f_block_size g) = tiny_width (h_config h) i"
  using assms by (fastforce simp: heap_shape_def in_set_conv_nth slot_at_def fixed_at_def)

lemma bucket_table:
  assumes "heap_shape e nd h" and "Some g \<in> set (h_heaps h)"
  obtains i where "i < bucket_classes (h_config h)" and "unat (f_block_size g) = bucket_width (h_config h) i"
  using assms by (fastforce simp: heap_shape_def in_set_conv_nth slot_at_def fixed_at_def)

lemma tiny_width_limit: "i < tiny_classes c \<Longrightarrow> tiny_width c i \<le> unat (m_tiny_limit c)"
  by (simp add: tiny_classes_def tiny_width_def unat_div_word)

lemma bucket_width_limit: "unat (m_tiny_limit c) < 2 ^ 64 \<Longrightarrow> unat (m_tiny_limit c) \<le> bucket_width c i"
  by (simp add: bucket_width_def)

lemma table_entry: "vector_deref hs i = Inr f \<Longrightarrow> Some f \<in> set hs"
  by (auto simp: vector_deref_def in_set_conv_nth split: if_splits option.splits)

section \<open>Properties\<close>

text \<open>
  C11: the fixed-size heap that the arithmetic on the size picks, for a size up to the largest class, is
  the best fit: of all the fixed-size heaps in the two tables whose blocks are large enough, it has
  the smallest blocks.
\<close>

theorem size_class_best_fit:
  assumes "heap_env e nd" and "heap_inv e nd G h w U" and "heap_serves h n" and "n \<le> h_max_size h"
  shows "\<exists>f. size_class e h w n = Inr (h, f) \<and> Some f \<in> set (h_tiny_heaps h @ h_heaps h) \<and> n \<le> f_block_size f
    \<and> (\<forall>g. Some g \<in> set (h_tiny_heaps h @ h_heaps h) \<longrightarrow> n \<le> f_block_size g \<longrightarrow> f_block_size f \<le> f_block_size g)"
proof -
  let ?c = "h_config h"
  have shape: "heap_shape e nd h" using assms(2) by (simp add: heap_inv_def)
  obtain h' f where f: "size_class e h w n = Inr (h', f)" "unat (f_block_size f) = class_size h n"
    using size_class_serves [OF assms(1-3)] .
  have fits: "n \<le> f_block_size f" using class_size_bounds(1) [OF shape assms(3)] f(2) by (simp add: word_le_unat)
  from shape assms(3) show ?thesis
  proof (cases rule: heap_serves_cases)
    case 1
    have "h' = h" "Some f \<in> set (h_tiny_heaps h)"
      using f(1) 1(1) by (auto simp: size_class_def bindE_eq_Inr intro: table_entry)
    moreover have size: "unat (f_block_size f) = tiny_width ?c (tiny_class ?c n)"
      using f(2) 1(1) by (simp add: class_size_def)
    have "f_block_size f \<le> f_block_size g" if g: "Some g \<in> set (h_tiny_heaps h)" "n \<le> f_block_size g" for g
    proof -
      obtain i where "i < tiny_classes ?c" "unat (f_block_size g) = tiny_width ?c i" using tiny_table [OF shape g(1)] .
      then show ?thesis
        using tiny.class_least [OF 1(2), of i] tiny.width_mono [of "tiny_class ?c n" i ?c] size g(2)
        by (simp add: word_le_unat)
    qed
    moreover have "f_block_size f \<le> f_block_size g" if g: "Some g \<in> set (h_heaps h)" for g
    proof -
      obtain i where "i < bucket_classes ?c" "unat (f_block_size g) = bucket_width ?c i" using bucket_table [OF shape g] .
      then show ?thesis
        using tiny_width_limit [OF tiny.class_exists [OF 1(2)]] bucket_width_limit [of ?c i] unat_less_2p [of "m_tiny_limit ?c"] size
        by (simp add: word_le_unat)
    qed
    ultimately show ?thesis using f(1) fits by auto
  next
    case 2
    have "h' = h" "Some f \<in> set (h_heaps h)"
      using f(1) 2(1,2) by (auto simp: size_class_def bindE_eq_Inr intro: table_entry)
    moreover have size: "unat (f_block_size f) = bucket_width ?c (bucket_class ?c n)"
      using f(2) 2(1,2) by (simp add: class_size_def)
    have "\<not> n \<le> f_block_size g" if g: "Some g \<in> set (h_tiny_heaps h)" for g
    proof -
      obtain i where "i < tiny_classes ?c" "unat (f_block_size g) = tiny_width ?c i" using tiny_table [OF shape g] .
      then show ?thesis using tiny_width_limit [of i ?c] 2(1) by (simp add: word_le_unat)
    qed
    moreover have "f_block_size f \<le> f_block_size g" if g: "Some g \<in> set (h_heaps h)" "n \<le> f_block_size g" for g
    proof -
      obtain i where "i < bucket_classes ?c" "unat (f_block_size g) = bucket_width ?c i" using bucket_table [OF shape g(1)] .
      then show ?thesis
        using bucket.class_least [OF 2(3), of i] bucket.width_mono [of "bucket_class ?c n" i ?c] size g(2)
        by (simp add: word_le_unat)
    qed
    ultimately show ?thesis using f(1) fits by auto
  next
    case (3 m)
    then show ?thesis using assms(4) by simp
  qed
qed

lemma size_class_best_fit_witness:
  "\<exists>h f. make_heap example_env [] example_config = Inr h \<and> size_class example_env h [] 300 = Inr (h, f)
    \<and> Some f \<in> set (h_tiny_heaps h @ h_heaps h) \<and> 300 \<le> f_block_size f
    \<and> (\<forall>g. Some g \<in> set (h_tiny_heaps h @ h_heaps h) \<longrightarrow> 300 \<le> f_block_size g \<longrightarrow> f_block_size f \<le> f_block_size g)"
proof -
  obtain h where h: "make_heap example_env [] example_config = Inr h" "heap_inv example_env 0 {#} h [] {#}"
    "h_config h = example_config" by (rule example_heap)
  have s: "heap_serves h 300" using h(3) by (rule example_serves) simp_all
  have "unat (h_max_size h) = 4194304" using h(2,3) by (simp add: heap_inv_def heap_shape_def example_config_def)
  then have "300 \<le> h_max_size h" by (simp add: word_le_unat)
  from size_class_best_fit [OF example_heap_env h(2) s this] h(1) show ?thesis by blast
qed

text \<open>
  C14: for an accepted configuration with a large limit of at most 1 GiB, the constructor succeeds, and
  every slot of both tables holds a fixed-size heap: of the multiples of 8 up to the tiny limit in
  the one, and of the tiny limit doubled up to twice the large limit in the other.
\<close>

theorem make_heap_tables:
  assumes "heap_env e nd" and "config_exponents c t s l" and "l \<le> 30"
  shows "\<exists>h. make_heap e [] c = Inr h \<and>
    map (map_option (\<lambda>f. unat (f_block_size f))) (h_tiny_heaps h) = map (\<lambda>i. Some (8 * (i + 1))) [0 ..< 2 ^ t div 8] \<and>
    map (map_option (\<lambda>f. unat (f_block_size f))) (h_heaps h) = map (\<lambda>i. Some (2 ^ i)) [t + 1 ..< l + 2]"
proof -
  obtain h where h: "make_heap e [] c = Inr h" "heap_inv e nd {#} h [] {#}" "h_config h = c"
    using make_heap_ok [OF assms mem_inv_empty] by blast
  have shape: "heap_shape e nd h" using h(2) by (simp add: heap_inv_def)
  have t: "tiny_classes c = 2 ^ t div 8"
    using assms(2) by (simp add: tiny_classes_def unat_div_word config_exponents_def)
  have tl: "t < l" using assms(2) by (simp add: config_exponents_def)
  have "map (map_option (\<lambda>f. unat (f_block_size f))) (h_tiny_heaps h) = map (\<lambda>i. Some (8 * (i + 1))) [0 ..< 2 ^ t div 8]"
    using shape unfolding heap_shape_def h(3) t
    by (intro nth_equalityI) (auto simp: slot_at_def fixed_at_def tiny_width_def)
  moreover have "map (map_option (\<lambda>f. unat (f_block_size f))) (h_heaps h) = map (\<lambda>i. Some (2 ^ i)) [t + 1 ..< l + 2]"
    using shape tl unfolding heap_shape_def h(3) bucket_classes_exp [OF assms(2)]
    by (intro nth_equalityI) (auto simp: slot_at_def fixed_at_def bucket_width_exp [OF assms(2)] simp del: upt_Suc)
  ultimately show ?thesis using h(1) by blast
qed

lemma make_heap_tables_witness:
  "\<exists>h. make_heap example_env [] example_config = Inr h \<and>
    map (map_option (\<lambda>f. unat (f_block_size f))) (h_tiny_heaps h) = map (\<lambda>i. Some (8 * (i + 1))) [0 ..< 2 ^ 7 div 8] \<and>
    map (map_option (\<lambda>f. unat (f_block_size f))) (h_heaps h) = map (\<lambda>i. Some (2 ^ i)) [7 + 1 ..< 21 + 2]"
  by (rule make_heap_tables [OF example_heap_env example_config_exponents]) simp

end
