(* ===== verification/Fancy_Ptr.thy ===== *)
theory Fancy_Ptr
  imports Heap "HOL-Library.Signed_Division"
begin

text \<open>
  The fancy pointers of \<open>include/hwmalloc/fancy_ptr\<close>: a void pointer holds a block, and a pointer to
  \<open>T\<close> holds a void pointer. \<open>sizeof(T)\<close> is an argument. Addresses are words: arithmetic that leaves
  the array a pointer points into, which C++ does not define, gives the address the machine would.
  The header \<open>const_ptr.hpp\<close> declares arithmetic on pointers to constants too, by assigning a
  \<open>T const*\<close> to the \<open>void*\<close> of a block; no program that uses it compiles, so it has no model.
\<close>

section \<open>Void pointers\<close>

text \<open>
  \<open>void_ptr.hpp\<close> and \<open>const_void_ptr.hpp\<close>. The default constructor and the one for \<open>nullptr\<close> leave the
  block's defaults in place; \<open>h\<close> and \<open>dh\<close> are what the handles hold then.
\<close>

record 'h hw_void_ptr =
  m_data :: "'h block"

record 'h hw_const_void_ptr =
  cm_data :: "'h block"

definition default_block :: "'h \<Rightarrow> 'h \<Rightarrow> 'h block" where
  "default_block h dh =
     \<lparr>m_segment = None, m_user_allocation = None, m_ptr = 0, m_handle = h, m_device_ptr = 0,
      m_device_handle = dh, m_device_id = 0\<rparr>"

definition void_of_block :: "'h block \<Rightarrow> 'h hw_void_ptr" where
  "void_of_block b = \<lparr>m_data = b\<rparr>"

definition void_null :: "'h \<Rightarrow> 'h \<Rightarrow> 'h hw_void_ptr" where
  "void_null h dh = \<lparr>m_data = default_block h dh\<rparr>"

definition void_assign_null :: "'h hw_void_ptr \<Rightarrow> 'h hw_void_ptr" where
  "void_assign_null p = p\<lparr>m_data := (m_data p)\<lparr>m_ptr := 0\<rparr>\<rparr>"

definition void_eq :: "'h hw_void_ptr \<Rightarrow> 'h hw_void_ptr \<Rightarrow> bool" where
  "void_eq a b \<longleftrightarrow> m_ptr (m_data a) = m_ptr (m_data b)"

definition void_neq :: "'h hw_void_ptr \<Rightarrow> 'h hw_void_ptr \<Rightarrow> bool" where
  "void_neq a b \<longleftrightarrow> m_ptr (m_data a) \<noteq> m_ptr (m_data b)"

definition void_get :: "'h hw_void_ptr \<Rightarrow> u64" where
  "void_get p = m_ptr (m_data p)"

definition void_handle :: "'h hw_void_ptr \<Rightarrow> 'h" where
  "void_handle p = m_handle (m_data p)"

definition void_device_ptr :: "'h hw_void_ptr \<Rightarrow> u64" where
  "void_device_ptr p = m_device_ptr (m_data p)"

definition void_device_handle :: "'h hw_void_ptr \<Rightarrow> 'h" where
  "void_device_handle p = m_device_handle (m_data p)"

definition void_device_id :: "'h hw_void_ptr \<Rightarrow> int" where
  "void_device_id p = m_device_id (m_data p)"

definition void_on_device :: "('h, 's) env \<Rightarrow> 'h hw_void_ptr \<Rightarrow> bool" where
  "void_on_device e p \<longleftrightarrow> on_device e (m_data p)"

definition void_bool :: "'h hw_void_ptr \<Rightarrow> bool" where
  "void_bool p \<longleftrightarrow> m_ptr (m_data p) \<noteq> 0"

definition void_release :: "('h, 's) env \<Rightarrow> 's heap \<Rightarrow> world \<Rightarrow> 'h hw_void_ptr \<Rightarrow> ('s, unit) heap_result" where
  "void_release e h w p = release e h w (m_data p)"

definition const_void_null :: "'h \<Rightarrow> 'h \<Rightarrow> 'h hw_const_void_ptr" where
  "const_void_null h dh = \<lparr>cm_data = default_block h dh\<rparr>"

definition const_of_void :: "'h hw_void_ptr \<Rightarrow> 'h hw_const_void_ptr" where
  "const_of_void p = \<lparr>cm_data = m_data p\<rparr>"

definition const_void_assign_null :: "'h hw_const_void_ptr \<Rightarrow> 'h hw_const_void_ptr" where
  "const_void_assign_null p = p\<lparr>cm_data := (cm_data p)\<lparr>m_ptr := 0\<rparr>\<rparr>"

definition const_void_eq :: "'h hw_const_void_ptr \<Rightarrow> 'h hw_const_void_ptr \<Rightarrow> bool" where
  "const_void_eq a b \<longleftrightarrow> m_ptr (cm_data a) = m_ptr (cm_data b)"

definition const_void_neq :: "'h hw_const_void_ptr \<Rightarrow> 'h hw_const_void_ptr \<Rightarrow> bool" where
  "const_void_neq a b \<longleftrightarrow> m_ptr (cm_data a) \<noteq> m_ptr (cm_data b)"

definition const_void_get :: "'h hw_const_void_ptr \<Rightarrow> u64" where
  "const_void_get p = m_ptr (cm_data p)"

definition const_void_device_ptr :: "'h hw_const_void_ptr \<Rightarrow> u64" where
  "const_void_device_ptr p = m_device_ptr (cm_data p)"

definition const_void_bool :: "'h hw_const_void_ptr \<Rightarrow> bool" where
  "const_void_bool p \<longleftrightarrow> m_ptr (cm_data p) \<noteq> 0"

section \<open>Pointers to elements\<close>

text \<open>\<open>ptr.hpp\<close>; the member \<open>m_ptr\<close> of a pointer is called \<open>m_void\<close> here.\<close>

record 'h hw_ptr =
  m_void :: "'h hw_void_ptr"

definition ptr_null :: "'h \<Rightarrow> 'h \<Rightarrow> 'h hw_ptr" where
  "ptr_null h dh = \<lparr>m_void = void_null h dh\<rparr>"

definition ptr_assign_null :: "'h hw_ptr \<Rightarrow> 'h hw_ptr" where
  "ptr_assign_null p = p\<lparr>m_void := void_assign_null (m_void p)\<rparr>"

definition ptr_eq :: "'h hw_ptr \<Rightarrow> 'h hw_ptr \<Rightarrow> bool" where
  "ptr_eq a b \<longleftrightarrow> void_eq (m_void a) (m_void b)"

definition ptr_neq :: "'h hw_ptr \<Rightarrow> 'h hw_ptr \<Rightarrow> bool" where
  "ptr_neq a b \<longleftrightarrow> void_neq (m_void a) (m_void b)"

text \<open>\<open>operator*\<close>, \<open>operator->\<close> and \<open>get\<close> all give this address.\<close>

definition ptr_get :: "'h hw_ptr \<Rightarrow> u64" where
  "ptr_get p = void_get (m_void p)"

definition ptr_device_ptr :: "'h hw_ptr \<Rightarrow> u64" where
  "ptr_device_ptr p = void_device_ptr (m_void p)"

definition ptr_to_void :: "'h hw_ptr \<Rightarrow> 'h hw_void_ptr" where
  "ptr_to_void p = m_void p"

definition ptr_to_const_void :: "'h hw_ptr \<Rightarrow> 'h hw_const_void_ptr" where
  "ptr_to_const_void p = const_of_void (m_void p)"

definition ptr_bool :: "'h hw_ptr \<Rightarrow> bool" where
  "ptr_bool p \<longleftrightarrow> void_bool (m_void p)"

definition ptr_handle :: "'h hw_ptr \<Rightarrow> 'h" where
  "ptr_handle p = void_handle (m_void p)"

text \<open>Moving: the host pointer always, the device pointer if there is one.\<close>

definition set_host :: "'h hw_ptr \<Rightarrow> u64 \<Rightarrow> 'h hw_ptr" where
  "set_host p a = p\<lparr>m_void := (m_void p)\<lparr>m_data := (m_data (m_void p))\<lparr>m_ptr := a\<rparr>\<rparr>\<rparr>"

definition set_device :: "'h hw_ptr \<Rightarrow> u64 \<Rightarrow> 'h hw_ptr" where
  "set_device p a = p\<lparr>m_void := (m_void p)\<lparr>m_data := (m_data (m_void p))\<lparr>m_device_ptr := a\<rparr>\<rparr>\<rparr>"

definition ptr_increment :: "u64 \<Rightarrow> 'h hw_ptr \<Rightarrow> 'h hw_ptr" where
  "ptr_increment size_T p =
     (let q = set_host p (ptr_get p + size_T)
      in if ptr_device_ptr q \<noteq> 0 then set_device q (ptr_device_ptr q + size_T) else q)"

text \<open>The postfix operators give the pointer as it was, beside the moved one.\<close>

definition ptr_post_increment :: "u64 \<Rightarrow> 'h hw_ptr \<Rightarrow> 'h hw_ptr \<times> 'h hw_ptr" where
  "ptr_post_increment size_T p =
     (let q = set_host p (ptr_get p + size_T)
      in (if ptr_device_ptr q \<noteq> 0 then set_device q (ptr_device_ptr q + size_T) else q, p))"

definition ptr_add :: "u64 \<Rightarrow> 'h hw_ptr \<Rightarrow> u64 \<Rightarrow> 'h hw_ptr" where
  "ptr_add size_T p n =
     (let q = set_host p (ptr_get p + n * size_T)
      in if ptr_device_ptr q \<noteq> 0 then set_device q (ptr_device_ptr q + n * size_T) else q)"

definition ptr_plus :: "u64 \<Rightarrow> 'h hw_ptr \<Rightarrow> u64 \<Rightarrow> 'h hw_ptr" where
  "ptr_plus size_T a n = ptr_add size_T a n"

definition ptr_decrement :: "u64 \<Rightarrow> 'h hw_ptr \<Rightarrow> 'h hw_ptr" where
  "ptr_decrement size_T p =
     (let q = set_host p (ptr_get p - size_T)
      in if ptr_device_ptr q \<noteq> 0 then set_device q (ptr_device_ptr q - size_T) else q)"

definition ptr_post_decrement :: "u64 \<Rightarrow> 'h hw_ptr \<Rightarrow> 'h hw_ptr \<times> 'h hw_ptr" where
  "ptr_post_decrement size_T p =
     (let q = set_host p (ptr_get p - size_T)
      in (if ptr_device_ptr q \<noteq> 0 then set_device q (ptr_device_ptr q - size_T) else q, p))"

definition ptr_sub :: "u64 \<Rightarrow> 'h hw_ptr \<Rightarrow> u64 \<Rightarrow> 'h hw_ptr" where
  "ptr_sub size_T p n =
     (let q = set_host p (ptr_get p - n * size_T)
      in if ptr_device_ptr q \<noteq> 0 then set_device q (ptr_device_ptr q - n * size_T) else q)"

definition ptr_minus :: "u64 \<Rightarrow> 'h hw_ptr \<Rightarrow> u64 \<Rightarrow> 'h hw_ptr" where
  "ptr_minus size_T a n = ptr_sub size_T a n"

definition ptr_difference :: "u64 \<Rightarrow> 'h hw_ptr \<Rightarrow> 'h hw_ptr \<Rightarrow> int" where
  "ptr_difference size_T a b = sint (ptr_get a - ptr_get b) sdiv int (unat size_T)"

text \<open>The address of the element \<open>operator[]\<close> gives.\<close>

definition ptr_index :: "u64 \<Rightarrow> 'h hw_ptr \<Rightarrow> u64 \<Rightarrow> u64" where
  "ptr_index size_T p n = ptr_get p + n * size_T"

definition ptr_release :: "('h, 's) env \<Rightarrow> 's heap \<Rightarrow> world \<Rightarrow> 'h hw_ptr \<Rightarrow> ('s, unit) heap_result" where
  "ptr_release e h w p = release e h w (m_data (m_void p))"

definition void_to_ptr :: "'h hw_void_ptr \<Rightarrow> 'h hw_ptr" where
  "void_to_ptr p = \<lparr>m_void = p\<rparr>"

definition void_assign_ptr :: "'h hw_void_ptr \<Rightarrow> 'h hw_ptr \<Rightarrow> 'h hw_void_ptr" where
  "void_assign_ptr this p = ptr_to_void p"

definition const_void_assign_ptr :: "'h hw_const_void_ptr \<Rightarrow> 'h hw_ptr \<Rightarrow> 'h hw_const_void_ptr" where
  "const_void_assign_ptr this p = ptr_to_const_void p"

text \<open>The address for \<open>std::allocator_traits::construct\<close>.\<close>

definition ptr_to_raw :: "'h hw_ptr \<Rightarrow> u64" where
  "ptr_to_raw p = void_get (m_void p)"

section \<open>Pointers to constant elements\<close>

text \<open>\<open>const_ptr.hpp\<close>, as far as it compiles.\<close>

record 'h hw_const_ptr =
  m_const_void :: "'h hw_const_void_ptr"

definition const_ptr_of_ptr :: "'h hw_ptr \<Rightarrow> 'h hw_const_ptr" where
  "const_ptr_of_ptr p = \<lparr>m_const_void = const_of_void (ptr_to_void p)\<rparr>"

definition const_ptr_null :: "'h \<Rightarrow> 'h \<Rightarrow> 'h hw_const_ptr" where
  "const_ptr_null h dh = \<lparr>m_const_void = const_void_null h dh\<rparr>"

definition const_ptr_assign_null :: "'h hw_const_ptr \<Rightarrow> 'h hw_const_ptr" where
  "const_ptr_assign_null p = p\<lparr>m_const_void := const_void_assign_null (m_const_void p)\<rparr>"

definition const_ptr_eq :: "'h hw_const_ptr \<Rightarrow> 'h hw_const_ptr \<Rightarrow> bool" where
  "const_ptr_eq a b \<longleftrightarrow> const_void_eq (m_const_void a) (m_const_void b)"

definition const_ptr_neq :: "'h hw_const_ptr \<Rightarrow> 'h hw_const_ptr \<Rightarrow> bool" where
  "const_ptr_neq a b \<longleftrightarrow> const_void_neq (m_const_void a) (m_const_void b)"

definition const_ptr_get :: "'h hw_const_ptr \<Rightarrow> u64" where
  "const_ptr_get p = const_void_get (m_const_void p)"

definition const_ptr_device_ptr :: "'h hw_const_ptr \<Rightarrow> u64" where
  "const_ptr_device_ptr p = const_void_device_ptr (m_const_void p)"

definition const_ptr_to_void :: "'h hw_const_ptr \<Rightarrow> 'h hw_const_void_ptr" where
  "const_ptr_to_void p = m_const_void p"

definition const_ptr_bool :: "'h hw_const_ptr \<Rightarrow> bool" where
  "const_ptr_bool p \<longleftrightarrow> const_void_bool (m_const_void p)"

definition const_void_assign_const_ptr :: "'h hw_const_void_ptr \<Rightarrow> 'h hw_const_ptr \<Rightarrow> 'h hw_const_void_ptr" where
  "const_void_assign_const_ptr this p = const_ptr_to_void p"

definition const_ptr_difference :: "u64 \<Rightarrow> 'h hw_const_ptr \<Rightarrow> 'h hw_const_ptr \<Rightarrow> int" where
  "const_ptr_difference size_T a b = sint (const_ptr_get a - const_ptr_get b) sdiv int (unat size_T)"

definition const_void_to_ptr :: "'h hw_const_void_ptr \<Rightarrow> 'h hw_const_ptr" where
  "const_void_to_ptr p = \<lparr>m_const_void = p\<rparr>"

section \<open>Member functions\<close>

text \<open>
  \<open>memfct_ptr.hpp\<close>: \<open>p->*f\<close> gives an object that calls the member function \<open>f\<close>, which is a function of
  the object's address and of the arguments.
\<close>

record ('a, 'r) pmfc =
  pm_ptr :: u64
  pm_pmf :: "u64 \<Rightarrow> 'a \<Rightarrow> 'r"

definition pmfc_call :: "('a, 'r) pmfc \<Rightarrow> 'a \<Rightarrow> 'r" where
  "pmfc_call c args = pm_pmf c (pm_ptr c) args"

definition ptr_member_function :: "'h hw_ptr \<Rightarrow> (u64 \<Rightarrow> 'a \<Rightarrow> 'r) \<Rightarrow> ('a, 'r) pmfc" where
  "ptr_member_function p pmf = \<lparr>pm_ptr = ptr_get p, pm_pmf = pmf\<rparr>"

text \<open>The specialization for constant member functions has members and a call of its own.\<close>

record ('a, 'r) const_pmfc =
  cpm_ptr :: u64
  cpm_pmf :: "u64 \<Rightarrow> 'a \<Rightarrow> 'r"

definition const_pmfc_call :: "('a, 'r) const_pmfc \<Rightarrow> 'a \<Rightarrow> 'r" where
  "const_pmfc_call c args = cpm_pmf c (cpm_ptr c) args"

definition ptr_const_member_function :: "'h hw_ptr \<Rightarrow> (u64 \<Rightarrow> 'a \<Rightarrow> 'r) \<Rightarrow> ('a, 'r) const_pmfc" where
  "ptr_const_member_function p pmf = \<lparr>cpm_ptr = ptr_get p, cpm_pmf = pmf\<rparr>"

definition const_ptr_member_function :: "'h hw_const_ptr \<Rightarrow> (u64 \<Rightarrow> 'a \<Rightarrow> 'r) \<Rightarrow> ('a, 'r) const_pmfc" where
  "const_ptr_member_function p pmf = \<lparr>cpm_ptr = const_ptr_get p, cpm_pmf = pmf\<rparr>"

text \<open>A member at an offset.\<close>

definition ptr_member :: "'h hw_ptr \<Rightarrow> u64 \<Rightarrow> u64" where
  "ptr_member p offset = ptr_get p + offset"

definition const_ptr_member :: "'h hw_const_ptr \<Rightarrow> u64 \<Rightarrow> u64" where
  "const_ptr_member p offset = const_ptr_get p + offset"

text \<open>Whatever way a pointer to constants is made from a pointer, it reaches the same object.\<close>

lemma const_ways:
  "const_void_to_ptr (const_void_assign_ptr v p) = const_ptr_of_ptr p"
  "const_void_assign_const_ptr v (const_ptr_of_ptr p) = const_void_assign_ptr v p"
  "const_pmfc_call (const_ptr_member_function (const_ptr_of_ptr p) f) x = const_pmfc_call (ptr_const_member_function p f) x"
  "const_ptr_get (const_ptr_of_ptr p) = ptr_to_raw p"
  by (simp_all add: const_void_to_ptr_def const_void_assign_ptr_def const_void_assign_const_ptr_def const_ptr_of_ptr_def
      const_ptr_to_void_def ptr_to_const_void_def ptr_to_void_def const_pmfc_call_def const_ptr_member_function_def
      ptr_const_member_function_def const_ptr_get_def ptr_get_def const_void_get_def const_of_void_def void_get_def ptr_to_raw_def)

section \<open>Moving\<close>

text \<open>All moves are moves by a distance in bytes. A device pointer that became null would stay behind.\<close>

definition moved :: "'h hw_ptr \<Rightarrow> u64 \<Rightarrow> 'h hw_ptr" where
  "moved p d =
     (let q = set_host p (ptr_get p + d)
      in if ptr_device_ptr q \<noteq> 0 then set_device q (ptr_device_ptr q + d) else q)"

lemma moves:
  "ptr_increment s p = moved p s" "ptr_decrement s p = moved p (- s)"
  "ptr_add s p n = moved p (n * s)" "ptr_sub s p n = moved p (- (n * s))"
  by (simp_all add: moved_def ptr_increment_def ptr_decrement_def ptr_add_def ptr_sub_def Let_def)

lemmas ptr_data = ptr_get_def ptr_device_ptr_def void_get_def void_device_ptr_def set_host_def set_device_def

lemma moved_get [simp]: "ptr_get (moved p d) = ptr_get p + d"
  by (simp add: moved_def ptr_data Let_def)

lemma moved_device [simp]:
  "ptr_device_ptr (moved p d) = (if ptr_device_ptr p = 0 then 0 else ptr_device_ptr p + d)"
  by (simp add: moved_def ptr_data Let_def)

lemma moved_rest [simp]:
  "m_segment (m_data (m_void (moved p d))) = m_segment (m_data (m_void p))"
  "m_user_allocation (m_data (m_void (moved p d))) = m_user_allocation (m_data (m_void p))"
  "m_handle (m_data (m_void (moved p d))) = m_handle (m_data (m_void p))"
  "m_device_handle (m_data (m_void (moved p d))) = m_device_handle (m_data (m_void p))"
  "m_device_id (m_data (m_void (moved p d))) = m_device_id (m_data (m_void p))"
  by (simp_all add: moved_def set_host_def set_device_def Let_def)

lemma ptr_eqI:
  fixes p q :: "'h hw_ptr"
  assumes "ptr_get p = ptr_get q" and "ptr_device_ptr p = ptr_device_ptr q"
    and "m_segment (m_data (m_void p)) = m_segment (m_data (m_void q))"
    and "m_user_allocation (m_data (m_void p)) = m_user_allocation (m_data (m_void q))"
    and "m_handle (m_data (m_void p)) = m_handle (m_data (m_void q))"
    and "m_device_handle (m_data (m_void p)) = m_device_handle (m_data (m_void q))"
    and "m_device_id (m_data (m_void p)) = m_device_id (m_data (m_void q))"
  shows "p = q"
  using assms by (simp add: ptr_data)

lemma moved_0 [simp]: "moved p 0 = p"
  by (rule ptr_eqI) simp_all

lemma moved_moved:
  "ptr_device_ptr p = 0 \<or> ptr_device_ptr p + a \<noteq> 0 \<Longrightarrow> moved (moved p a) b = moved p (a + b)"
  by (rule ptr_eqI) (auto simp: add.assoc)

text \<open>No element on the way has the null pointer as its device address.\<close>

definition walkable :: "u64 \<Rightarrow> 'h hw_ptr \<Rightarrow> nat \<Rightarrow> bool" where
  "walkable s p n \<longleftrightarrow> ptr_device_ptr p = 0 \<or> list_all (\<lambda>k. ptr_device_ptr p + of_nat k * s \<noteq> 0) [0 ..< Suc n]"

lemma walkableD: "walkable s p n \<Longrightarrow> k \<le> n \<Longrightarrow> ptr_device_ptr p = 0 \<or> ptr_device_ptr p + of_nat k * s \<noteq> 0"
  by (auto simp: walkable_def list_all_iff less_Suc_eq_le)

lemma increments: "walkable s p n \<Longrightarrow> k \<le> n \<Longrightarrow> (ptr_increment s ^^ k) p = moved p (of_nat k * s)"
proof (induction k)
  case (Suc k)
  then have "(ptr_increment s ^^ k) p = moved p (of_nat k * s)" by simp
  then have "(ptr_increment s ^^ Suc k) p = moved (moved p (of_nat k * s)) s" by (simp add: moves(1))
  also have "\<dots> = moved p (of_nat (Suc k) * s)"
    using walkableD [OF Suc.prems(1), of k] Suc.prems(2) by (subst moved_moved) (simp_all add: algebra_simps)
  finally show ?case .
qed simp

lemma decrements:
  "walkable s p n \<Longrightarrow> k \<le> n \<Longrightarrow> (ptr_decrement s ^^ k) (moved p (of_nat n * s)) = moved p (of_nat (n - k) * s)"
proof (induction k)
  case (Suc k)
  then have "(ptr_decrement s ^^ k) (moved p (of_nat n * s)) = moved p (of_nat (n - k) * s)" by simp
  then have "(ptr_decrement s ^^ Suc k) (moved p (of_nat n * s)) = moved (moved p (of_nat (n - k) * s)) (- s)"
    by (simp add: moves(2))
  also have "\<dots> = moved p (of_nat (n - k) * s + - s)"
    using walkableD [OF Suc.prems(1), of "n - k"] by (rule moved_moved) simp
  also have "of_nat (n - k) * s + - s = of_nat (n - Suc k) * s"
    using Suc.prems(2) by (simp add: Suc_diff_Suc [symmetric] algebra_simps)
  finally show ?case .
qed simp


lemma sdiv_of_nat: "int a sdiv int b = int (a div b)"
  by (cases "a = 0"; cases "b = 0") (simp_all add: signed_divide_int_def sgn_if zdiv_int)

lemma unat_of_nat_times:
  fixes s :: "'a::len word"
  assumes "s \<noteq> 0" and "n * unat s < 2 ^ LENGTH('a)"
  shows "unat (of_nat n * s) = n * unat s"
proof -
  have "0 < unat s" using assms(1) by (simp add: unat_gt_0)
  then have "n \<le> n * unat s" by simp
  then have "n < 2 ^ LENGTH('a)" using assms(2) by (rule le_less_trans)
  then have "unat (of_nat n :: 'a word) = n" by (rule unat_of_nat_small)
  then show ?thesis using assms(2) by (subst unat_mult_no_wrap) simp_all
qed

lemma difference_moved:
  assumes "unat s * n < 2 ^ 63" and "s \<noteq> 0"
  shows "ptr_difference s (moved p (of_nat n * s)) p = int n"
proof -
  have pos: "0 < unat s" using assms(2) by (simp add: unat_gt_0)
  have "unat (of_nat n * s) = n * unat s"
    using assms by (intro unat_of_nat_times) (simp_all add: mult.commute)
  then have "uint (of_nat n * s) = int (n * unat s)" by (metis of_nat_unat)
  moreover have "int (n * unat s) < int (2 ^ 63)"
    using assms(1) by (simp only: of_nat_less_iff mult.commute)
  ultimately have *: "sint (of_nat n * s) = int (n * unat s)"
    unfolding sint_uint by (subst signed_take_bit_int_eq_self) (simp_all only:, auto intro: order_trans [of _ 0])
  have "ptr_difference s (moved p (of_nat n * s)) p = int (n * unat s) sdiv int (unat s)"
    unfolding ptr_difference_def moved_get add_diff_cancel_left' * ..
  then show ?thesis using pos unfolding sdiv_of_nat by simp
qed

text \<open>
  C31: on the \<open>n\<close> elements after a pointer, going from one to the next with \<open>++\<close> ends where adding \<open>n\<close>
  does and at the address \<open>operator[]\<close> uses, \<open>--\<close> and \<open>-\<close> go back, and the difference of the ends is
  \<open>n\<close>. The host pointer and the device pointer of a mirrored block keep their distance all along,
  and what the pointer needs to be released stays with it.
\<close>

theorem pointer_walk:
  assumes "walkable s p n" and "s \<noteq> 0" and "unat s * n < 2 ^ 63"
  shows "(ptr_increment s ^^ n) p = ptr_add s p (of_nat n)
    \<and> (ptr_decrement s ^^ n) (ptr_add s p (of_nat n)) = p
    \<and> ptr_sub s (ptr_add s p (of_nat n)) (of_nat n) = p
    \<and> ptr_difference s (ptr_add s p (of_nat n)) p = int n
    \<and> ptr_get (ptr_add s p (of_nat n)) = ptr_index s p (of_nat n)
    \<and> (ptr_device_ptr p = 0 \<or>
        ptr_device_ptr (ptr_add s p (of_nat n)) - ptr_get (ptr_add s p (of_nat n)) = ptr_device_ptr p - ptr_get p)
    \<and> m_segment (m_data (m_void (ptr_add s p (of_nat n)))) = m_segment (m_data (m_void p))
    \<and> m_user_allocation (m_data (m_void (ptr_add s p (of_nat n)))) = m_user_allocation (m_data (m_void p))"
proof -
  have "ptr_sub s (ptr_add s p (of_nat n)) (of_nat n) = p"
    using walkableD [OF assms(1), of n] by (simp add: moves moved_moved)
  then show ?thesis
    using increments [OF assms(1)] decrements [OF assms(1), of n] difference_moved [OF assms(3,2), of p]
    by (simp add: moves(3) ptr_index_def)
qed

definition example_pointer :: "nat hw_ptr" where
  "example_pointer = \<lparr>m_void = \<lparr>m_data = \<lparr>m_segment = Some 1, m_user_allocation = None, m_ptr = 4096,
     m_handle = 7, m_device_ptr = 65536, m_device_handle = 8, m_device_id = 0\<rparr>\<rparr>\<rparr>"

lemma pointer_walk_witness:
  "(ptr_increment 8 ^^ 3) example_pointer = ptr_add 8 example_pointer (of_nat 3)
    \<and> (ptr_decrement 8 ^^ 3) (ptr_add 8 example_pointer (of_nat 3)) = example_pointer
    \<and> ptr_sub 8 (ptr_add 8 example_pointer (of_nat 3)) (of_nat 3) = example_pointer
    \<and> ptr_difference 8 (ptr_add 8 example_pointer (of_nat 3)) example_pointer = int 3
    \<and> ptr_get (ptr_add 8 example_pointer (of_nat 3)) = ptr_index 8 example_pointer (of_nat 3)
    \<and> (ptr_device_ptr example_pointer = 0 \<or>
        ptr_device_ptr (ptr_add 8 example_pointer (of_nat 3)) - ptr_get (ptr_add 8 example_pointer (of_nat 3))
          = ptr_device_ptr example_pointer - ptr_get example_pointer)
    \<and> m_segment (m_data (m_void (ptr_add 8 example_pointer (of_nat 3)))) = m_segment (m_data (m_void example_pointer))
    \<and> m_user_allocation (m_data (m_void (ptr_add 8 example_pointer (of_nat 3))))
        = m_user_allocation (m_data (m_void example_pointer))"
proof (rule pointer_walk)
  show "walkable 8 example_pointer 3"
    by (simp add: walkable_def example_pointer_def ptr_data upt_rec)
qed simp_all

end
