(* ===== verification/Container_Allocator.thy ===== *)
theory Container_Allocator
  imports Fancy_Ptr Heap_Properties
begin

text \<open>
  What containers and owners use: the standard allocator of \<open>include/hwmalloc/allocator.hpp\<close>,
  \<open>heap::make_unique\<close> and the deleters of \<open>include/hwmalloc/fancy_ptr/unique_ptr.hpp\<close>.
\<close>

section \<open>The allocator\<close>

text \<open>A heap has an identity, its address; the operations are given the heap that lives there.\<close>

record allocator =
  al_heap :: nat
  al_numa_node :: u64

text \<open>
  The default constructor takes the heap of the process. It is \<open>noexcept\<close>, and making that heap may throw.
\<close>

definition default_allocator ::
  "('h, 's) env \<Rightarrow> world \<Rightarrow> (string \<Rightarrow> string option) \<Rightarrow> heap_config option \<Rightarrow> 's heap option \<Rightarrow> nat
     \<Rightarrow> heap_config option \<times> 's heap option \<times> (fault + allocator)" where
  "default_allocator e w getenv config instance_ptr address =
     (case get_instance e w getenv config instance_ptr of
        (config', inst, r) \<Rightarrow>
          (config', inst, bindE (noexcept_result r) (\<lambda>_. Inr \<lparr>al_heap = address, al_numa_node = 0\<rparr>)))"

definition make_allocator :: "nat \<Rightarrow> u64 \<Rightarrow> allocator" where
  "make_allocator h numa_node = \<lparr>al_heap = h, al_numa_node = numa_node\<rparr>"

definition get_allocator :: "nat \<Rightarrow> u64 \<Rightarrow> allocator" where
  "get_allocator this numa_node = make_allocator this numa_node"

text \<open>Copying and moving, also between allocators of different element types, leave the source alone.\<close>

definition copy_allocator :: "allocator \<Rightarrow> allocator" where
  "copy_allocator other = \<lparr>al_heap = al_heap other, al_numa_node = al_numa_node other\<rparr>"

definition move_allocator :: "allocator \<Rightarrow> allocator" where
  "move_allocator other = \<lparr>al_heap = al_heap other, al_numa_node = al_numa_node other\<rparr>"

definition copy_assign_allocator :: "allocator \<Rightarrow> allocator \<Rightarrow> allocator" where
  "copy_assign_allocator this other =
     this\<lparr>al_heap := al_heap other, al_numa_node := al_numa_node other\<rparr>"

definition move_assign_allocator :: "allocator \<Rightarrow> allocator \<Rightarrow> allocator" where
  "move_assign_allocator this other =
     this\<lparr>al_heap := al_heap other, al_numa_node := al_numa_node other\<rparr>"

definition allocator_eq :: "allocator \<Rightarrow> allocator \<Rightarrow> bool" where
  "allocator_eq lhs rhs \<longleftrightarrow> al_heap lhs = al_heap rhs \<and> al_numa_node lhs = al_numa_node rhs"

definition allocator_neq :: "allocator \<Rightarrow> allocator \<Rightarrow> bool" where
  "allocator_neq lhs rhs \<longleftrightarrow> al_heap lhs \<noteq> al_heap rhs \<or> al_numa_node lhs \<noteq> al_numa_node rhs"

definition swap_allocators :: "allocator \<Rightarrow> allocator \<Rightarrow> allocator \<times> allocator" where
  "swap_allocators lhs rhs =
     (lhs\<lparr>al_heap := al_heap rhs, al_numa_node := al_numa_node rhs\<rparr>,
      rhs\<lparr>al_heap := al_heap lhs, al_numa_node := al_numa_node lhs\<rparr>)"

text \<open>A request for \<open>n\<close> elements: the product is computed in 64 bits.\<close>

definition as_pointer :: "('s, 'h block) heap_result \<Rightarrow> ('s, 'h hw_ptr) heap_result" where
  "as_pointer = map_option (\<lambda>(h, w, r). (h, w, map_sum id (\<lambda>b. void_to_ptr (void_of_block b)) r))"

definition allocator_allocate ::
  "('h, 's) env \<Rightarrow> u64 \<Rightarrow> allocator \<Rightarrow> 's heap \<Rightarrow> world \<Rightarrow> u64 \<Rightarrow> ('s, 'h hw_ptr) heap_result" where
  "allocator_allocate e size_T a h w n = as_pointer (heap_allocate e h w (n * size_T) (al_numa_node a))"

definition allocator_deallocate ::
  "('h, 's) env \<Rightarrow> 's heap \<Rightarrow> world \<Rightarrow> 'h hw_ptr \<Rightarrow> u64 \<Rightarrow> ('s, unit) heap_result" where
  "allocator_deallocate e h w p n = heap_free e h w (m_data (ptr_to_void p))"

section \<open>Objects\<close>

text \<open>
  The objects that live in the memory handed out, by address, the latest first. The constructor of
  the element type is a parameter: it gives the exception it throws, if any. Destructors do not throw.
\<close>

type_synonym objects = "u64 list"
type_synonym constructor = "objects \<Rightarrow> u64 \<Rightarrow> fault option"

definition construct :: "constructor \<Rightarrow> objects \<Rightarrow> u64 \<Rightarrow> objects \<times> (fault + unit)" where
  "construct ctor objs a = (case ctor objs a of None \<Rightarrow> (a # objs, Inr ()) | Some f \<Rightarrow> (objs, Inl f))"

definition destroy_object :: "objects \<Rightarrow> u64 \<Rightarrow> fault + objects" where
  "destroy_object objs a = (if a \<in> set objs then Inr (remove1 a objs) else Inl (Undefined Dangling_Deref))"

text \<open>
  \<open>new (p) U[size]()\<close>: elements are made in order; if one throws, those made so far are destroyed in
  reverse order and the exception goes on.
\<close>

fun construct_array :: "constructor \<Rightarrow> u64 \<Rightarrow> u64 \<Rightarrow> nat \<Rightarrow> objects \<Rightarrow> objects \<times> (fault + unit)" where
  "construct_array ctor size_U a 0 objs = (objs, Inr ())"
| "construct_array ctor size_U a (Suc n) objs =
     (case construct ctor objs a of
        (objs1, Inl f) \<Rightarrow> (objs1, Inl f)
      | (objs1, Inr _) \<Rightarrow>
          (case construct_array ctor size_U (a + size_U) n objs1 of
             (objs2, Inl f) \<Rightarrow> (remove1 a objs2, Inl f)
           | (objs2, Inr _) \<Rightarrow> (objs2, Inr ())))"

section \<open>Owners\<close>

text \<open>A \<open>unique_ptr\<close> holds a pointer and, for arrays, its deleter the number of elements.\<close>

record 'h unique_ptr =
  up_ptr :: "'h hw_ptr"
  up_size :: "u64 option"

type_synonym ('s, 'a) owner_result = "('s heap \<times> world \<times> objects \<times> (fault + 'a)) option"

definition make_unique ::
  "('h, 's) env \<Rightarrow> u64 \<Rightarrow> constructor \<Rightarrow> 's heap \<Rightarrow> world \<Rightarrow> objects \<Rightarrow> u64 \<Rightarrow> ('s, 'h unique_ptr) owner_result" where
  "make_unique e size_T ctor h w objs numa_node =
     (case heap_allocate e h w size_T numa_node of
        None \<Rightarrow> None
      | Some (h1, w1, Inl f) \<Rightarrow> Some (h1, w1, objs, Inl f)
      | Some (h1, w1, Inr b) \<Rightarrow>
          (case construct ctor objs (void_get (void_of_block b)) of
             (objs1, Inl f) \<Rightarrow> Some (h1, w1, objs1, Inl f)
           | (objs1, Inr _) \<Rightarrow>
               Some (h1, w1, objs1, Inr \<lparr>up_ptr = void_to_ptr (void_of_block b), up_size = None\<rparr>)))"

definition make_unique_array ::
  "('h, 's) env \<Rightarrow> u64 \<Rightarrow> constructor \<Rightarrow> 's heap \<Rightarrow> world \<Rightarrow> objects \<Rightarrow> u64 \<Rightarrow> u64
     \<Rightarrow> ('s, 'h unique_ptr) owner_result" where
  "make_unique_array e size_U ctor h w objs numa_node n =
     (case heap_allocate e h w (size_U * n) numa_node of
        None \<Rightarrow> None
      | Some (h1, w1, Inl f) \<Rightarrow> Some (h1, w1, objs, Inl f)
      | Some (h1, w1, Inr b) \<Rightarrow>
          (case construct_array ctor size_U (void_get (void_of_block b)) (unat n) objs of
             (objs1, Inl f) \<Rightarrow> Some (h1, w1, objs1, Inl f)
           | (objs1, Inr _) \<Rightarrow>
               Some (h1, w1, objs1, Inr \<lparr>up_ptr = void_to_ptr (void_of_block b), up_size = Some n\<rparr>)))"

text \<open>The deleters are \<open>noexcept\<close> and so is what they call.\<close>

definition released :: "objects \<Rightarrow> ('s, unit) heap_result \<Rightarrow> ('s, unit) owner_result" where
  "released objs = map_option (\<lambda>(h, w, r). (h, w, objs, r))"

definition heap_delete ::
  "('h, 's) env \<Rightarrow> 's heap \<Rightarrow> world \<Rightarrow> objects \<Rightarrow> 'h hw_ptr \<Rightarrow> ('s, unit) owner_result" where
  "heap_delete e h w objs p =
     (case destroy_object objs (ptr_get p) of
        Inl f \<Rightarrow> Some (h, w, objs, Inl f)
      | Inr objs1 \<Rightarrow> released objs1 (ptr_release e h w p))"

text \<open>The loop over the elements from index \<open>i\<close> on, \<open>n\<close> of them.\<close>

fun destroy_elements :: "u64 \<Rightarrow> 'h hw_ptr \<Rightarrow> u64 \<Rightarrow> nat \<Rightarrow> objects \<Rightarrow> objects \<times> (fault + unit)" where
  "destroy_elements size_T p i 0 objs = (objs, Inr ())"
| "destroy_elements size_T p i (Suc n) objs =
     (case destroy_object objs (ptr_index size_T p i) of
        Inl f \<Rightarrow> (objs, Inl f)
      | Inr objs1 \<Rightarrow> destroy_elements size_T p (i + 1) n objs1)"

definition heap_delete_array ::
  "('h, 's) env \<Rightarrow> u64 \<Rightarrow> 's heap \<Rightarrow> world \<Rightarrow> objects \<Rightarrow> 'h hw_ptr \<Rightarrow> u64 \<Rightarrow> ('s, unit) owner_result" where
  "heap_delete_array e size_T h w objs p size_n =
     (case destroy_elements size_T p 0 (unat size_n) objs of
        (objs1, Inl f) \<Rightarrow> Some (h, w, objs1, Inl f)
      | (objs1, Inr _) \<Rightarrow> released objs1 (ptr_release e h w p))"

text \<open>The destructor of \<open>std::unique_ptr\<close> calls the deleter unless the pointer is null.\<close>

definition destroy_unique_ptr ::
  "('h, 's) env \<Rightarrow> u64 \<Rightarrow> 's heap \<Rightarrow> world \<Rightarrow> objects \<Rightarrow> 'h unique_ptr \<Rightarrow> ('s, unit) owner_result" where
  "destroy_unique_ptr e size_T h w objs u =
     (if ptr_get (up_ptr u) = 0 then Some (h, w, objs, Inr ())
      else case up_size u of
             None \<Rightarrow> heap_delete e h w objs (up_ptr u)
           | Some n \<Rightarrow> heap_delete_array e size_T h w objs (up_ptr u) n)"


section \<open>Lemmas\<close>

text \<open>A block the heap gives, and giving it back.\<close>

lemma block_given:
  assumes "heap_env e nd" and "heap_inv e nd G h w U" and "heap_serves h n"
    and "heap_allocate e h w n node = Some (h', w', Inr b)"
  shows "heap_inv e nd G h' w' (add_mset b U)" and "unat n \<le> block_extent h' b"
    and "block_extent h' b < 2 * unat n + 8" and "backed w' (m_ptr b) (block_extent h' b)"
    and "map_option s_device_region (block_segment h' b) = Some None"
proof -
  note g = heap_given [OF assms]
  have "heap_shape e nd h" using assms(2) by (simp add: heap_inv_def)
  from class_size_bounds [OF this assms(3)]
  show "unat n \<le> block_extent h' b" "block_extent h' b < 2 * unat n + 8" unfolding g(2) .
  show "heap_inv e nd G h' w' (add_mset b U)" by (rule g(1))
  then show "backed w' (m_ptr b) (block_extent h' b)" by (rule heap_held) simp
  show "map_option s_device_region (block_segment h' b) = Some None"
    using heap_allocate_ok [OF assms(1,2), of n node] assms(4) by (auto simp: heap_gave_def)
qed

lemma block_returned:
  assumes "heap_env e nd" and "heap_inv e nd G h w (add_mset b U)"
    and "map_option s_device_region (block_segment h b) = Some None"
  obtains h' w' where "heap_free e h w b = Some (h', w', Inr ())" and "heap_inv e nd G h' w' U"
  using release_held_ok [OF assms(1,2)] assms(3) by auto

lemma backed_nonzero: "backed w p n \<Longrightarrow> p \<noteq> 0"
  by (simp add: backed_def)

lemma backed_less: "backed w p n \<Longrightarrow> m \<le> n \<Longrightarrow> backed w p m"
  unfolding backed_def list_ex_iff by (elim conjE bexE, intro conjI bexI) auto


lemmas pointer_simps = ptr_get_def void_get_def void_to_ptr_def void_of_block_def ptr_to_void_def ptr_release_def

text \<open>Making and destroying the elements of an array.\<close>

definition element :: "u64 \<Rightarrow> u64 \<Rightarrow> nat \<Rightarrow> u64" where
  "element s a i = a + of_nat i * s"

lemma construct_array_throws: "construct_array ctor s a n objs = (objs', Inl f) \<Longrightarrow> objs' = objs"
proof (induction n arbitrary: a objs objs')
  case (Suc n)
  show ?case
  proof (cases "ctor objs a")
    case None
    from Suc.prems None obtain objs2 where
      "construct_array ctor s (a + s) n (a # objs) = (objs2, Inl f)" "objs' = remove1 a objs2"
      by (auto simp: construct_def split: prod.splits sum.splits)
    then show ?thesis using Suc.IH by fastforce
  qed (use Suc.prems in \<open>simp add: construct_def\<close>)
qed simp

lemma construct_array_all:
  assumes "\<forall>objs a. ctor objs a = None"
  shows "construct_array ctor s a n objs = (map (element s a) (rev [0 ..< n]) @ objs, Inr ())"
proof (induction n arbitrary: a objs)
  case (Suc n)
  have "map (element s (a + s)) (rev [0 ..< n]) @ [a] = map (element s a) (rev [0 ..< Suc n])"
  proof (rule nth_equalityI)
    fix i assume "i < length (map (element s (a + s)) (rev [0 ..< n]) @ [a])"
    then have "i \<le> n" by simp
    then show "(map (element s (a + s)) (rev [0 ..< n]) @ [a]) ! i = map (element s a) (rev [0 ..< Suc n]) ! i"
      by (cases "i = n") (simp_all add: nth_append rev_nth element_def algebra_simps Suc_diff_Suc [symmetric] del: upt_Suc)
  qed simp
  then show ?case using Suc.IH [of "a + s" "a # objs"] assms by (simp add: construct_def del: upt_Suc)
qed simp

lemma element_inj:
  assumes "s \<noteq> 0" and "unat s * n < 2 ^ 64" and "i < n" and "j < n" and "element s a i = element s a j"
  shows "i = j"
proof -
  have pos: "0 < unat s" using assms(1) by (simp add: unat_gt_0)
  have u: "unat (of_nat k * s) = k * unat s" if "k < n" for k
  proof -
    have "k * unat s \<le> unat s * n" using that by (simp add: mult.commute)
    then have b: "k * unat s < 2 ^ 64" using assms(2) by (rule le_less_trans)
    show ?thesis using assms(1) b by (intro unat_of_nat_times) simp_all
  qed
  have "of_nat i * s = of_nat j * s" using assms(5) by (simp add: element_def)
  then have "i * unat s = j * unat s" by (simp only: u [OF assms(3), symmetric] u [OF assms(4), symmetric])
  then show ?thesis using pos by simp
qed

lemma element_end:
  assumes "s \<noteq> 0" and "unat s * unat n < 2 ^ 64" and "i < unat n"
  shows "element s a i - a + s \<le> s * n"
proof -
  have "Suc i * unat s \<le> unat n * unat s" using assms(3) by (intro mult_right_mono) simp_all
  moreover from this have "unat (of_nat (Suc i) * s) = Suc i * unat s"
    using assms(1,2) by (intro unat_of_nat_times) (simp_all add: mult.commute)
  ultimately have "of_nat (Suc i) * s \<le> s * n"
    using unat_mult_no_wrap [of s n] assms(2) by (simp add: word_le_unat mult.commute)
  then show ?thesis by (simp add: element_def algebra_simps)
qed

lemma destroy_elements_all:
  assumes "s \<noteq> 0" and "unat s * n < 2 ^ 64" and "i + k = n"
  shows "destroy_elements s p (of_nat i) k (map (element s (ptr_get p)) (rev [i ..< n]) @ objs) = (objs, Inr ())"
  using assms(3)
proof (induction k arbitrary: i)
  case (Suc k)
  let ?e = "element s (ptr_get p)"
  have "i < n" using Suc.prems by simp
  then have upt: "[i ..< n] = i # [Suc i ..< n]" by (rule upt_conv_Cons)
  have "?e i \<notin> ?e ` {Suc i ..< n}"
    using element_inj [OF assms(1,2) \<open>i < n\<close>, of _ "ptr_get p"] by fastforce
  then have "remove1 (?e i) (map ?e (rev [i ..< n]) @ objs) = map ?e (rev [Suc i ..< n]) @ objs"
    unfolding upt by (simp add: remove1_append)
  moreover have "?e i \<in> set (map ?e (rev [i ..< n]) @ objs)" using \<open>i < n\<close> by simp
  moreover have "ptr_index s p (of_nat i) = ?e i" by (simp add: ptr_index_def element_def)
  ultimately have "destroy_elements s p (of_nat i) (Suc k) (map ?e (rev [i ..< n]) @ objs)
      = destroy_elements s p (of_nat (Suc i)) k (map ?e (rev [Suc i ..< n]) @ objs)"
    by (simp add: destroy_object_def add.commute)
  also have "\<dots> = (objs, Inr ())" by (rule Suc.IH) (use Suc.prems in simp)
  finally show ?case .
qed simp


section \<open>Properties\<close>

text \<open>
  C15: when the size of \<open>n\<close> elements fits in 64 bits, allocation through the allocator returns, and a
  pointer it gives is to backed memory for all of them. Deallocation takes the memory back and
  leaves the heap with what it held before.
\<close>

theorem allocator_roundtrip:
  assumes "heap_env e nd" and "heap_inv e nd G h w U" and "heap_serves h (n * s)"
    and "unat n * unat s < 2 ^ 64"
  shows "\<exists>h1 w1 r. allocator_allocate e s a h w n = Some (h1, w1, r) \<and>
    (case r of
       Inr p \<Rightarrow> unat n * unat s \<le> block_extent h1 (m_data (m_void p))
         \<and> backed w1 (ptr_get p) (block_extent h1 (m_data (m_void p)))
         \<and> (\<exists>h2 w2. allocator_deallocate e h1 w1 p n = Some (h2, w2, Inr ()) \<and> heap_inv e nd G h2 w2 U)
     | Inl _ \<Rightarrow> True)"
proof (cases rule: heap_allocate_cases [OF assms(1,2), of "n * s" "al_numa_node a"])
  case (1 h1 w1 b)
  note g = block_given [OF assms(1-3) 1(1)]
  obtain h2 w2 where "heap_free e h1 w1 b = Some (h2, w2, Inr ())" "heap_inv e nd G h2 w2 U"
    using block_returned [OF assms(1) g(1,5)] .
  moreover have "unat n * unat s \<le> block_extent h1 b"
    using g(2) unat_mult_no_wrap [of n s] assms(4) by simp
  ultimately show ?thesis
    using 1(1) g(4)
    by (simp add: allocator_allocate_def as_pointer_def allocator_deallocate_def pointer_simps)
next
  case (2 h1 w1 f)
  then show ?thesis by (simp add: allocator_allocate_def as_pointer_def)
qed

lemma allocator_roundtrip_witness:
  "\<exists>h. make_heap example_env [] example_config = Inr h \<and>
    (\<exists>h1 w1 r. allocator_allocate example_env 8 (make_allocator 1 0) h [] 12 = Some (h1, w1, r) \<and>
      (case r of
         Inr p \<Rightarrow> unat (12 :: u64) * unat (8 :: u64) \<le> block_extent h1 (m_data (m_void p))
           \<and> backed w1 (ptr_get p) (block_extent h1 (m_data (m_void p)))
           \<and> (\<exists>h2 w2. allocator_deallocate example_env h1 w1 p 12 = Some (h2, w2, Inr ())
             \<and> heap_inv example_env 0 {#} h2 w2 {#})
       | Inl _ \<Rightarrow> True))"
proof -
  obtain h where h: "make_heap example_env [] example_config = Inr h" "heap_inv example_env 0 {#} h [] {#}"
    "h_config h = example_config" by (rule example_heap)
  have "heap_serves h (12 * 8)" using h(3) by (rule example_serves) simp_all
  from allocator_roundtrip [OF example_heap_env h(2) this, of "make_allocator 1 0"] h(1) show ?thesis by auto
qed




text \<open>
  C16: an array made with \<open>make_unique\<close> by constructors that do not throw has its elements in backed memory,
  each in a place of its own. When the owner goes away every element has been destroyed, and nothing
  else has, and the heap holds what it held before. If the allocation throws, no object was made.
\<close>

theorem make_unique_array_roundtrip:
  assumes "heap_env e nd" and "heap_inv e nd G h w U" and "heap_serves h (s * n)"
    and "s \<noteq> 0" and "unat s * unat n < 2 ^ 64" and "\<forall>objs a. ctor objs a = None"
  shows "\<exists>h1 w1 made r. make_unique_array e s ctor h w objs node n = Some (h1, w1, made @ objs, r) \<and>
    (case r of
       Inr u \<Rightarrow> length made = unat n \<and> distinct made
         \<and> (\<forall>x \<in> set made. x - ptr_get (up_ptr u) + s \<le> s * n)
         \<and> backed w1 (ptr_get (up_ptr u)) (unat s * unat n)
         \<and> (\<exists>h2 w2. destroy_unique_ptr e s h1 w1 (made @ objs) u = Some (h2, w2, objs, Inr ())
             \<and> heap_inv e nd G h2 w2 U)
     | Inl _ \<Rightarrow> made = [])"
proof (cases rule: heap_allocate_cases [OF assms(1,2), of "s * n" node])
  case (1 h1 w1 b)
  note g = block_given [OF assms(1-3) 1(1)]
  obtain h2 w2 where free: "heap_free e h1 w1 b = Some (h2, w2, Inr ())" "heap_inv e nd G h2 w2 U"
    using block_returned [OF assms(1) g(1,5)] .
  let ?u = "\<lparr>up_ptr = void_to_ptr (void_of_block b), up_size = Some n\<rparr>"
  let ?made = "map (element s (m_ptr b)) (rev [0 ..< unat n])"
  have make: "make_unique_array e s ctor h w objs node n = Some (h1, w1, ?made @ objs, Inr ?u)"
    using 1(1) construct_array_all [OF assms(6)] by (simp add: make_unique_array_def pointer_simps)
  have "destroy_elements s (up_ptr ?u) 0 (unat n) (?made @ objs) = (objs, Inr ())"
    using destroy_elements_all [OF assms(4,5), of 0 "unat n" "up_ptr ?u" objs] by (simp add: pointer_simps)
  then have gone: "destroy_unique_ptr e s h1 w1 (?made @ objs) ?u = Some (h2, w2, objs, Inr ())"
    using free(1) backed_nonzero [OF g(4)]
    by (simp add: destroy_unique_ptr_def heap_delete_array_def released_def heap_free_def pointer_simps)
  have "distinct ?made"
    using element_inj [OF assms(4,5)] by (auto simp: distinct_map intro!: inj_onI)
  moreover have "x - ptr_get (up_ptr ?u) + s \<le> s * n" if "x \<in> set ?made" for x
    using that element_end [OF assms(4,5), of _ "m_ptr b"] by (auto simp: pointer_simps)
  moreover have "backed w1 (ptr_get (up_ptr ?u)) (unat s * unat n)"
    using backed_less [OF g(4), of "unat s * unat n"] g(2) unat_mult_no_wrap [of s n] assms(5)
    by (simp add: pointer_simps)
  ultimately show ?thesis using make gone free(2) by (intro exI [of _ h1] exI [of _ w1] exI [of _ ?made]) auto
next
  case (2 h1 w1 f)
  then show ?thesis by (simp add: make_unique_array_def)
qed


lemma make_unique_array_roundtrip_witness:
  "\<exists>h. make_heap example_env [] example_config = Inr h \<and>
    (\<exists>h1 w1 made r. make_unique_array example_env 8 (\<lambda>_ _. None) h [] [64] 0 12 = Some (h1, w1, made @ [64], r) \<and>
    (case r of
       Inr u \<Rightarrow> length made = unat (12 :: u64) \<and> distinct made
         \<and> (\<forall>x \<in> set made. x - ptr_get (up_ptr u) + 8 \<le> 8 * 12)
         \<and> backed w1 (ptr_get (up_ptr u)) (unat (8 :: u64) * unat (12 :: u64))
         \<and> (\<exists>h2 w2. destroy_unique_ptr example_env 8 h1 w1 (made @ [64]) u = Some (h2, w2, [64], Inr ())
             \<and> heap_inv example_env 0 {#} h2 w2 {#})
     | Inl _ \<Rightarrow> made = []))"
proof -
  obtain h where h: "make_heap example_env [] example_config = Inr h" "heap_inv example_env 0 {#} h [] {#}"
    "h_config h = example_config" by (rule example_heap)
  have "heap_serves h (8 * 12)" using h(3) by (rule example_serves) simp_all
  from make_unique_array_roundtrip [OF example_heap_env h(2) this, of "\<lambda>_ _. None" "[64]" 0] h(1)
  show ?thesis by auto
qed

text \<open>The same for a single object.\<close>

lemma make_unique_scalar:
  assumes "heap_env e nd" and "heap_inv e nd G h w U" and "heap_serves h s" and "\<forall>objs a. ctor objs a = None"
    and "make_unique e s ctor h w objs node = Some (h1, w1, objs1, Inr u)"
  shows "objs1 = ptr_get (up_ptr u) # objs \<and> backed w1 (ptr_get (up_ptr u)) (unat s)
    \<and> (\<exists>h2 w2. destroy_unique_ptr e s h1 w1 objs1 u = Some (h2, w2, objs, Inr ()) \<and> heap_inv e nd G h2 w2 U)"
proof (cases rule: heap_allocate_cases [OF assms(1,2), of s node])
  case (1 h' w' b)
  have eq: "h1 = h'" "w1 = w'" "objs1 = m_ptr b # objs" "u = \<lparr>up_ptr = void_to_ptr (void_of_block b), up_size = None\<rparr>"
    using assms(4,5) 1(1) by (simp_all add: make_unique_def construct_def pointer_simps)
  note g = block_given [OF assms(1-3) 1(1)]
  obtain h2 w2 where free: "heap_free e h' w' b = Some (h2, w2, Inr ())" "heap_inv e nd G h2 w2 U"
    using block_returned [OF assms(1) g(1,5)] .
  have "destroy_unique_ptr e s h1 w1 objs1 u = Some (h2, w2, objs, Inr ())"
    using free(1) backed_nonzero [OF g(4)]
    by (simp add: eq destroy_unique_ptr_def heap_delete_def destroy_object_def released_def heap_free_def pointer_simps)
  then show ?thesis using backed_less [OF g(4,2)] free(2) by (simp add: eq pointer_simps)
next
  case (2 h' w' f)
  then show ?thesis using assms(5) by (simp add: make_unique_def)
qed

text \<open>
  C39: when a constructor throws inside \<open>make_unique\<close>, the objects made so far are destroyed, but the
  block is not given back: it stays held, and nothing has a pointer to it.
\<close>

theorem make_unique_throw_leaks:
  assumes "heap_env e nd" and "heap_inv e nd G h w U" and "heap_serves h (s * n)"
    and "heap_allocate e h w (s * n) node = Some (h1, w1, Inr b)"
    and "snd (construct_array ctor s (m_ptr b) (unat n) objs) = Inl f"
  shows "make_unique_array e s ctor h w objs node n = Some (h1, w1, objs, Inl f)
    \<and> heap_inv e nd G h1 w1 (add_mset b U)"
proof -
  obtain objs1 where c: "construct_array ctor s (m_ptr b) (unat n) objs = (objs1, Inl f)"
    using assms(5) by (metis prod.collapse)
  then have "objs1 = objs" by (rule construct_array_throws)
  then show ?thesis
    using assms(4) c block_given(1) [OF assms(1-4)] by (simp add: make_unique_array_def pointer_simps)
qed

lemma make_unique_throw_leaks_witness:
  "\<exists>h h1 w1 b. make_heap example_env [] example_config = Inr h
    \<and> make_unique_array example_env 8 (\<lambda>objs _. if length objs = 3 then Some Out_Of_Range else None) h [] [] 0 12
        = Some (h1, w1, [], Inl Out_Of_Range)
    \<and> heap_inv example_env 0 {#} h1 w1 {#b#}"
proof -
  obtain h where h: "make_heap example_env [] example_config = Inr h" "heap_inv example_env 0 {#} h [] {#}"
    "h_config h = example_config" by (rule example_heap)
  have s: "heap_serves h (8 * 12)" using h(3) by (rule example_serves) simp_all
  obtain h1 w1 b where al: "heap_allocate example_env h [] (8 * 12) 0 = Some (h1, w1, Inr b)"
    using heap_gives [OF example_heap_env h(2) s, of 0] example_granted by (auto simp: example_served_node)
  have "snd (construct_array (\<lambda>objs _. if length objs = 3 then Some Out_Of_Range else None) 8 (m_ptr b)
      (unat (12 :: u64)) []) = Inl Out_Of_Range"
  proof -
    obtain k where 12: "unat (12 :: u64) = Suc (Suc (Suc (Suc k)))" by (rule that [of 8]) simp
    show ?thesis unfolding 12 by (simp add: construct_def)
  qed
  from make_unique_throw_leaks [OF example_heap_env h(2) s al this] h(1) show ?thesis by auto
qed

end
