(* ===== verification/Pointer_Types.thy ===== *)
theory Pointer_Types
  imports Fancy_Ptr
begin

text \<open>
  What containers compute with the types of the pointers: \<open>detail::_rebind\<close> and the specialisations
  of \<open>std::pointer_traits\<close> (\<open>include/hwmalloc/fancy_ptr/const_ptr.hpp\<close>), and the member types of the
  allocator (\<open>include/hwmalloc/allocator.hpp\<close>). A type is a value here, and a template a function.
\<close>

section \<open>Pointer types\<close>

text \<open>
  Object types \<open>'t\<close>, plain or constant, what a pointer can point to, and the pointer types for a
  type of blocks \<open>'b\<close>.
\<close>

datatype 't object_type = Plain 't | Const_Of 't

datatype 't target_type = Void | Const_Void | Object "'t object_type"

datatype ('t, 'b) pointer_type =
    Hw_Void_Ptr 'b
  | Hw_Const_Void_Ptr 'b
  | Hw_Ptr "'t object_type" 'b

fun rebind :: "('t, 'b) pointer_type \<Rightarrow> 't target_type \<Rightarrow> ('t, 'b) pointer_type" where
  "rebind (Hw_Ptr T block) Void = Hw_Void_Ptr block"
| "rebind (Hw_Ptr T block) Const_Void = Hw_Const_Void_Ptr block"
| "rebind (Hw_Ptr T block) (Object U) = Hw_Ptr U block"
| "rebind (Hw_Void_Ptr block) Void = Hw_Void_Ptr block"
| "rebind (Hw_Void_Ptr block) Const_Void = Hw_Const_Void_Ptr block"
| "rebind (Hw_Void_Ptr block) (Object U) = Hw_Ptr U block"
| "rebind (Hw_Const_Void_Ptr block) Void = Hw_Void_Ptr block"
| "rebind (Hw_Const_Void_Ptr block) Const_Void = Hw_Const_Void_Ptr block"
| "rebind (Hw_Const_Void_Ptr block) (Object U) = Hw_Ptr U block"

text \<open>\<open>std::pointer_traits\<close>: its \<open>rebind\<close> is the one above, its \<open>to_address\<close> is \<open>get\<close>.\<close>

fun element_type :: "('t, 'b) pointer_type \<Rightarrow> 't target_type" where
  "element_type (Hw_Void_Ptr block) = Void"
| "element_type (Hw_Const_Void_Ptr block) = Const_Void"
| "element_type (Hw_Ptr T block) = Object T"

definition void_to_address :: "'h hw_void_ptr \<Rightarrow> u64" where
  "void_to_address p = void_get p"

definition const_void_to_address :: "'h hw_const_void_ptr \<Rightarrow> u64" where
  "const_void_to_address p = const_void_get p"

definition ptr_to_address :: "'h hw_ptr \<Rightarrow> u64" where
  "ptr_to_address p = ptr_get p"

section \<open>The types of the allocator\<close>

text \<open>An allocator for objects \<open>T\<close> from a heap of type \<open>'p\<close>, which has a type of blocks.\<close>

datatype ('t, 'p) allocator_type = Allocator "'t object_type" 'p

fun add_const :: "'t object_type \<Rightarrow> 't object_type" where
  "add_const (Plain T) = Const_Of T"
| "add_const (Const_Of T) = Const_Of T"

record ('t, 'b) allocator_types =
  at_value_type :: "'t object_type"
  at_pointer :: "('t, 'b) pointer_type"
  at_const_pointer :: "('t, 'b) pointer_type"
  at_void_pointer :: "('t, 'b) pointer_type"
  at_const_void_pointer :: "('t, 'b) pointer_type"

fun allocator_member_types :: "('p \<Rightarrow> 'b) \<Rightarrow> ('t, 'p) allocator_type \<Rightarrow> ('t, 'b) allocator_types" where
  "allocator_member_types block_type (Allocator T heap) =
     \<lparr>at_value_type = T, at_pointer = Hw_Ptr T (block_type heap), at_const_pointer = Hw_Ptr (add_const T) (block_type heap),
      at_void_pointer = Hw_Void_Ptr (block_type heap), at_const_void_pointer = Hw_Const_Void_Ptr (block_type heap)\<rparr>"

fun other_alloc :: "('t, 'p) allocator_type \<Rightarrow> 't object_type \<Rightarrow> ('t, 'p) allocator_type" where
  "other_alloc (Allocator T heap) U = Allocator U heap"

section \<open>The requirements of containers\<close>

lemma rebind_element: "rebind p (element_type p) = p" "element_type (rebind p u) = u"
  by (cases p; simp) (cases "(p, u)" rule: rebind.cases; simp)

lemma rebind_rebind: "rebind (rebind p u) v = rebind p v"
  by (cases p; cases u; cases v) simp_all

text \<open>
  Rebinding a pointer type gives one to the type asked for, the one it came from when that is its
  own, and it does not matter through which types it goes. The pointer types of an allocator are
  those its pointer rebinds to, and the allocator for another type has them for that type, as node
  based containers need to get from elements to nodes and back.
\<close>

theorem pointer_types_rebind:
  "rebind p (element_type p) = p \<and> element_type (rebind p u) = u \<and> rebind (rebind p u) v = rebind p v
   \<and> (let m = allocator_member_types block_type a; n = allocator_member_types block_type (other_alloc a U)
      in element_type (at_pointer m) = Object (at_value_type m)
       \<and> at_const_pointer m = rebind (at_pointer m) (Object (add_const (at_value_type m)))
       \<and> at_void_pointer m = rebind (at_pointer m) Void \<and> at_const_void_pointer m = rebind (at_pointer m) Const_Void
       \<and> at_pointer n = rebind (at_pointer m) (Object U) \<and> at_value_type n = U
       \<and> other_alloc (other_alloc a U) (at_value_type m) = a)"
  by (cases a) (simp add: rebind_element rebind_rebind Let_def)

text \<open>
  The address of a pointer survives the conversions to void pointers and back.
\<close>

lemma address_conversions:
  "void_to_address (ptr_to_void p) = ptr_to_address p"
  "const_void_to_address (ptr_to_const_void p) = ptr_to_address p"
  "ptr_to_address (void_to_ptr q) = void_to_address q"
  by (simp_all add: void_to_address_def const_void_to_address_def ptr_to_address_def ptr_to_void_def
      ptr_to_const_void_def void_to_ptr_def ptr_get_def void_get_def const_void_get_def const_of_void_def)

end
