(* ===== verification/Device_Copy.thy ===== *)
theory Device_Copy
  imports Device
begin

text \<open>
  Copies between host and device memory: \<open>memcpy_to_device\<close> and \<open>memcpy_to_host\<close> of the device layer.
  The state is the contents of the two memories and, for the GPU runtimes, the streams and events
  that exist and the copies that have been enqueued.
\<close>

section \<open>Contents\<close>

type_synonym bytes = "u64 \<Rightarrow> 8 word"

definition copy_bytes :: "bytes \<Rightarrow> bytes \<Rightarrow> u64 \<Rightarrow> u64 \<Rightarrow> u64 \<Rightarrow> bytes" where
  "copy_bytes to from dst src n = (\<lambda>a. if a - dst < n then from (src + (a - dst)) else to a)"

record copy =
  cp_to_device :: bool
  cp_dst :: u64
  cp_src :: u64
  cp_count :: u64
  cp_stream :: nat

record copy_state =
  c_host :: bytes
  c_device :: bytes
  c_calls :: nat
  c_streams :: "nat list"
  c_events :: "nat list"
  c_pending :: "copy list"
  c_marks :: "(nat \<times> copy list) list"

definition perform :: "copy_state \<Rightarrow> copy \<Rightarrow> copy_state" where
  "perform c x =
     (if cp_to_device x
      then c\<lparr>c_device := copy_bytes (c_device c) (c_host c) (cp_dst x) (cp_src x) (cp_count x)\<rparr>
      else c\<lparr>c_host := copy_bytes (c_host c) (c_device c) (cp_dst x) (cp_src x) (cp_count x)\<rparr>)"

section \<open>Streams and events\<close>

text \<open>
  The calls to the vendor's library, with what it documents of each. A stream is a queue of copies.
  An event that is recorded marks what the stream holds so far; waiting for the event ends with
  these copies done. The number of the call is the handle of what it creates. A call that fails
  does nothing.
\<close>

definition gpu_call :: "gpu_api \<Rightarrow> (copy_state \<Rightarrow> copy_state) \<Rightarrow> copy_state \<Rightarrow> copy_state \<times> nat \<times> nat" where
  "gpu_call g effect c =
     (let n = c_calls c; c1 = c\<lparr>c_calls := Suc n\<rparr>
      in if gpu_status g n = 0 then (effect c1, 0, n) else (c1, gpu_status g n, n))"

definition stream_create :: "gpu_api \<Rightarrow> copy_state \<Rightarrow> copy_state \<times> nat \<times> nat" where
  "stream_create g c = gpu_call g (\<lambda>c1. c1\<lparr>c_streams := c_calls c # c_streams c1\<rparr>) c"

definition memcpy_async ::
  "gpu_api \<Rightarrow> bool \<Rightarrow> u64 \<Rightarrow> u64 \<Rightarrow> u64 \<Rightarrow> nat \<Rightarrow> copy_state \<Rightarrow> copy_state \<times> nat \<times> nat" where
  "memcpy_async g to_device dst src n stream =
     gpu_call g (\<lambda>c. c\<lparr>c_pending := c_pending c @
       [\<lparr>cp_to_device = to_device, cp_dst = dst, cp_src = src, cp_count = n, cp_stream = stream\<rparr>]\<rparr>)"

definition event_create :: "gpu_api \<Rightarrow> copy_state \<Rightarrow> copy_state \<times> nat \<times> nat" where
  "event_create g c = gpu_call g (\<lambda>c1. c1\<lparr>c_events := c_calls c # c_events c1\<rparr>) c"

definition event_record :: "gpu_api \<Rightarrow> nat \<Rightarrow> nat \<Rightarrow> copy_state \<Rightarrow> copy_state \<times> nat \<times> nat" where
  "event_record g event stream =
     gpu_call g (\<lambda>c. c\<lparr>c_marks := (event, filter (\<lambda>x. cp_stream x = stream) (c_pending c)) # c_marks c\<rparr>)"

definition event_synchronize :: "gpu_api \<Rightarrow> nat \<Rightarrow> copy_state \<Rightarrow> copy_state \<times> nat \<times> nat" where
  "event_synchronize g event =
     gpu_call g (\<lambda>c. case map_of (c_marks c) event of
         None \<Rightarrow> c
       | Some xs \<Rightarrow> (foldl perform c xs)\<lparr>c_pending := filter (\<lambda>x. x \<notin> set xs) (c_pending c)\<rparr>)"

definition event_destroy :: "gpu_api \<Rightarrow> nat \<Rightarrow> copy_state \<Rightarrow> copy_state \<times> nat \<times> nat" where
  "event_destroy g event = gpu_call g (\<lambda>c. c\<lparr>c_events := remove1 event (c_events c)\<rparr>)"

definition stream_destroy :: "gpu_api \<Rightarrow> nat \<Rightarrow> copy_state \<Rightarrow> copy_state \<times> nat \<times> nat" where
  "stream_destroy g stream = gpu_call g (\<lambda>c. c\<lparr>c_streams := remove1 stream (c_streams c)\<rparr>)"

section \<open>The copies\<close>

text \<open>A statement after one that may throw. Nothing is undone: the handles have no destructors.\<close>

definition bindS :: "('s \<Rightarrow> 's \<times> (fault + 'a)) \<Rightarrow> ('a \<Rightarrow> 's \<Rightarrow> 's \<times> (fault + 'b)) \<Rightarrow> 's \<Rightarrow> 's \<times> (fault + 'b)" where
  "bindS m f s = (case m s of (s1, Inl e) \<Rightarrow> (s1, Inl e) | (s1, Inr x) \<Rightarrow> f x s1)"

definition none_memcpy_to_device :: "copy_state \<Rightarrow> u64 \<Rightarrow> u64 \<Rightarrow> u64 \<Rightarrow> copy_state" where
  "none_memcpy_to_device c dst src n = c"

definition none_memcpy_to_host :: "copy_state \<Rightarrow> u64 \<Rightarrow> u64 \<Rightarrow> u64 \<Rightarrow> copy_state" where
  "none_memcpy_to_host c dst src n = c"

text \<open>\<open>std::memcpy\<close>, for emulated devices whose memory is the host's. The ranges must not overlap.\<close>

definition host_memcpy :: "copy_state \<Rightarrow> u64 \<Rightarrow> u64 \<Rightarrow> u64 \<Rightarrow> copy_state \<times> (fault + unit)" where
  "host_memcpy c dst src n =
     (if apart dst (unat n) src (unat n)
      then (c\<lparr>c_host := copy_bytes (c_host c) (c_host c) dst src n\<rparr>, Inr ())
      else (c, Inl (Undefined Overlapping_Copy)))"

definition emulate_memcpy_to_device :: "copy_state \<Rightarrow> u64 \<Rightarrow> u64 \<Rightarrow> u64 \<Rightarrow> copy_state \<times> (fault + unit)" where
  "emulate_memcpy_to_device c dst src n = host_memcpy c dst src n"

definition emulate_memcpy_to_host :: "copy_state \<Rightarrow> u64 \<Rightarrow> u64 \<Rightarrow> u64 \<Rightarrow> copy_state \<times> (fault + unit)" where
  "emulate_memcpy_to_host c dst src n = host_memcpy c dst src n"

definition cuda_memcpy_to_device :: "gpu_api \<Rightarrow> copy_state \<Rightarrow> u64 \<Rightarrow> u64 \<Rightarrow> u64 \<Rightarrow> copy_state \<times> (fault + unit)" where
  "cuda_memcpy_to_device g c dst src n =
     bindS (check_cuda_result g ''cudaStreamCreateWithFlags(&stream, cudaStreamNonBlocking)'' (stream_create g))
       (\<lambda>stream. bindS (check_cuda_result g ''cudaMemcpyAsync(dst, src, count, cudaMemcpyHostToDevice, stream)''
           (memcpy_async g True dst src n stream))
       (\<lambda>_. bindS (check_cuda_result g ''cudaEventCreateWithFlags(&done, cudaEventDisableTiming)'' (event_create g))
       (\<lambda>done. bindS (check_cuda_result g ''cudaEventRecord(done, stream)'' (event_record g done stream))
       (\<lambda>_. bindS (check_cuda_result g ''cudaEventSynchronize(done)'' (event_synchronize g done))
       (\<lambda>_. bindS (check_cuda_result g ''cudaEventDestroy(done)'' (event_destroy g done))
       (\<lambda>_. bindS (check_cuda_result g ''cudaStreamDestroy(stream)'' (stream_destroy g stream))
       (\<lambda>_ c. (c, Inr ())))))))) c"

definition cuda_memcpy_to_host :: "gpu_api \<Rightarrow> copy_state \<Rightarrow> u64 \<Rightarrow> u64 \<Rightarrow> u64 \<Rightarrow> copy_state \<times> (fault + unit)" where
  "cuda_memcpy_to_host g c dst src n =
     bindS (check_cuda_result g ''cudaStreamCreateWithFlags(&stream, cudaStreamNonBlocking)'' (stream_create g))
       (\<lambda>stream. bindS (check_cuda_result g ''cudaMemcpyAsync(dst, src, count, cudaMemcpyDeviceToHost, stream)''
           (memcpy_async g False dst src n stream))
       (\<lambda>_. bindS (check_cuda_result g ''cudaEventCreateWithFlags(&done, cudaEventDisableTiming)'' (event_create g))
       (\<lambda>done. bindS (check_cuda_result g ''cudaEventRecord(done, stream)'' (event_record g done stream))
       (\<lambda>_. bindS (check_cuda_result g ''cudaEventSynchronize(done)'' (event_synchronize g done))
       (\<lambda>_. bindS (check_cuda_result g ''cudaEventDestroy(done)'' (event_destroy g done))
       (\<lambda>_. bindS (check_cuda_result g ''cudaStreamDestroy(stream)'' (stream_destroy g stream))
       (\<lambda>_ c. (c, Inr ())))))))) c"

text \<open>The HIP copies end without destroying the stream.\<close>

definition hip_memcpy_to_device :: "gpu_api \<Rightarrow> copy_state \<Rightarrow> u64 \<Rightarrow> u64 \<Rightarrow> u64 \<Rightarrow> copy_state \<times> (fault + unit)" where
  "hip_memcpy_to_device g c dst src n =
     bindS (check_hip_result g ''hipStreamCreateWithFlags(&stream, hipStreamNonBlocking)'' (stream_create g))
       (\<lambda>stream. bindS (check_hip_result g ''hipMemcpyAsync(dst, src, count, hipMemcpyHostToDevice, stream)''
           (memcpy_async g True dst src n stream))
       (\<lambda>_. bindS (check_hip_result g ''hipEventCreateWithFlags(&done, hipEventDisableTiming)'' (event_create g))
       (\<lambda>done. bindS (check_hip_result g ''hipEventRecord(done, stream)'' (event_record g done stream))
       (\<lambda>_. bindS (check_hip_result g ''hipEventSynchronize(done)'' (event_synchronize g done))
       (\<lambda>_. bindS (check_hip_result g ''hipEventDestroy(done)'' (event_destroy g done))
       (\<lambda>_ c. (c, Inr ()))))))) c"

definition hip_memcpy_to_host :: "gpu_api \<Rightarrow> copy_state \<Rightarrow> u64 \<Rightarrow> u64 \<Rightarrow> u64 \<Rightarrow> copy_state \<times> (fault + unit)" where
  "hip_memcpy_to_host g c dst src n =
     bindS (check_hip_result g ''hipStreamCreateWithFlags(&stream, hipStreamNonBlocking)'' (stream_create g))
       (\<lambda>stream. bindS (check_hip_result g ''hipMemcpyAsync(dst, src, count, hipMemcpyDeviceToHost, stream)''
           (memcpy_async g False dst src n stream))
       (\<lambda>_. bindS (check_hip_result g ''hipEventCreateWithFlags(&done, hipEventDisableTiming)'' (event_create g))
       (\<lambda>done. bindS (check_hip_result g ''hipEventRecord(done, stream)'' (event_record g done stream))
       (\<lambda>_. bindS (check_hip_result g ''hipEventSynchronize(done)'' (event_synchronize g done))
       (\<lambda>_. bindS (check_hip_result g ''hipEventDestroy(done)'' (event_destroy g done))
       (\<lambda>_ c. (c, Inr ()))))))) c"

definition memcpy_to_device :: "device_env \<Rightarrow> copy_state \<Rightarrow> u64 \<Rightarrow> u64 \<Rightarrow> u64 \<Rightarrow> copy_state \<times> (fault + unit)" where
  "memcpy_to_device d c dst src n = (case de_runtime d of
     No_Device \<Rightarrow> (none_memcpy_to_device c dst src n, Inr ())
   | Emulate \<Rightarrow> emulate_memcpy_to_device c dst src n
   | Cuda g \<Rightarrow> cuda_memcpy_to_device g c dst src n
   | Hip g \<Rightarrow> hip_memcpy_to_device g c dst src n)"

definition memcpy_to_host :: "device_env \<Rightarrow> copy_state \<Rightarrow> u64 \<Rightarrow> u64 \<Rightarrow> u64 \<Rightarrow> copy_state \<times> (fault + unit)" where
  "memcpy_to_host d c dst src n = (case de_runtime d of
     No_Device \<Rightarrow> (none_memcpy_to_host c dst src n, Inr ())
   | Emulate \<Rightarrow> emulate_memcpy_to_host c dst src n
   | Cuda g \<Rightarrow> cuda_memcpy_to_host g c dst src n
   | Hip g \<Rightarrow> hip_memcpy_to_host g c dst src n)"

section \<open>What the copies do\<close>

text \<open>Handles are numbers of earlier calls.\<close>

definition copies_ok :: "copy_state \<Rightarrow> bool" where
  "copies_ok c \<longleftrightarrow> list_all (\<lambda>x. cp_stream x < c_calls c) (c_pending c)"

definition copied_out :: "copy_state \<Rightarrow> bool \<Rightarrow> u64 \<Rightarrow> u64 \<Rightarrow> u64 \<Rightarrow> copy_state \<Rightarrow> bool" where
  "copied_out c to_device dst src n c' \<longleftrightarrow>
     c_device c' = (if to_device then copy_bytes (c_device c) (c_host c) dst src n else c_device c)
     \<and> c_host c' = (if to_device then c_host c else copy_bytes (c_host c) (c_device c) dst src n)
     \<and> c_events c' = c_events c \<and> c_pending c' = c_pending c \<and> copies_ok c'"

lemma copy_bytes_in: "i < n \<Longrightarrow> copy_bytes to from dst src n (dst + i) = from (src + i)"
  by (simp add: copy_bytes_def)

lemma copy_bytes_out: "\<not> a - dst < n \<Longrightarrow> copy_bytes to from dst src n a = to a"
  by (simp add: copy_bytes_def)

lemma checked_call:
  "gpu_status g (c_calls c) = 0 \<Longrightarrow>
     check_result m (gpu_call g f) c = (f (c\<lparr>c_calls := Suc (c_calls c)\<rparr>), Inr (c_calls c))"
  by (simp add: check_result_def gpu_call_def Let_def)

lemma checked_create:
  assumes "gpu_status g (c_calls c) = 0"
  shows "check_result m (stream_create g) c =
      (c\<lparr>c_calls := Suc (c_calls c), c_streams := c_calls c # c_streams c\<rparr>, Inr (c_calls c))"
    and "check_result m (event_create g) c =
      (c\<lparr>c_calls := Suc (c_calls c), c_events := c_calls c # c_events c\<rparr>, Inr (c_calls c))"
  using assms by (simp_all add: check_result_def stream_create_def event_create_def gpu_call_def Let_def)

lemmas gpu_steps = checked_create memcpy_async_def event_record_def
  event_synchronize_def event_destroy_def stream_destroy_def


lemma pending_other: "list_all (\<lambda>x. cp_stream x < k) xs \<Longrightarrow> filter (\<lambda>x. cp_stream x = k) xs = []"
  by (auto simp: filter_empty_conv list_all_iff)

lemma pending_kept: "list_all (\<lambda>x. cp_stream x < k) xs \<Longrightarrow> cp_stream y = k \<Longrightarrow> filter (\<lambda>x. x \<noteq> y) xs = xs"
  by (auto simp: filter_id_conv list_all_iff)

lemma pending_older: "list_all (\<lambda>x. cp_stream x < k) xs \<Longrightarrow> k \<le> j \<Longrightarrow> list_all (\<lambda>x. cp_stream x < j) xs"
  by (auto simp: list_all_iff)

lemmas copy_steps = gpu_steps bindS_def check_cuda_result_def check_hip_result_def checked_call perform_def
  copied_out_def pending_other pending_kept

lemma cuda_copy_to_device:
  assumes "copies_ok c" and "\<And>k. gpu_status g k = 0"
  shows "\<exists>c'. cuda_memcpy_to_device g c dst src n = (c', Inr ()) \<and> copied_out c True dst src n c' \<and> c_streams c' = c_streams c"
  using assms by (simp add: cuda_memcpy_to_device_def copies_ok_def copy_steps pending_older del: set_filter)

lemma cuda_copy_to_host:
  assumes "copies_ok c" and "\<And>k. gpu_status g k = 0"
  shows "\<exists>c'. cuda_memcpy_to_host g c dst src n = (c', Inr ()) \<and> copied_out c False dst src n c' \<and> c_streams c' = c_streams c"
  using assms by (simp add: cuda_memcpy_to_host_def copies_ok_def copy_steps pending_older del: set_filter)

lemma hip_copy_to_device:
  assumes "copies_ok c" and "\<And>k. gpu_status g k = 0"
  shows "\<exists>c'. hip_memcpy_to_device g c dst src n = (c', Inr ()) \<and> copied_out c True dst src n c' \<and> c_streams c' = c_calls c # c_streams c"
  using assms by (simp add: hip_memcpy_to_device_def copies_ok_def copy_steps pending_older del: set_filter)

lemma hip_copy_to_host:
  assumes "copies_ok c" and "\<And>k. gpu_status g k = 0"
  shows "\<exists>c'. hip_memcpy_to_host g c dst src n = (c', Inr ()) \<and> copied_out c False dst src n c' \<and> c_streams c' = c_calls c # c_streams c"
  using assms by (simp add: hip_memcpy_to_host_def copies_ok_def copy_steps pending_older del: set_filter)


section \<open>Properties\<close>

text \<open>The runtime is there and no call to it fails.\<close>

definition copies_succeed :: "device_env \<Rightarrow> bool" where
  "copies_succeed d \<longleftrightarrow> (case de_runtime d of
     No_Device \<Rightarrow> False | Emulate \<Rightarrow> True
   | Cuda g \<Rightarrow> (\<forall>k. gpu_status g k = 0) | Hip g \<Rightarrow> (\<forall>k. gpu_status g k = 0))"

lemma memcpy_out:
  assumes "copies_succeed d" and "copies_ok c" and "apart dev (unat n) src (unat n)"
  obtains c' where "memcpy_to_device d c dev src n = (c', Inr ())" and "copies_ok c'"
    and "\<forall>i. i < n \<longrightarrow> (if de_runtime d = Emulate then c_host c' else c_device c') (dev + i) = c_host c (src + i)"
    and "de_runtime d \<noteq> Emulate \<longrightarrow> c_host c' = c_host c"
    and "\<forall>a. \<not> a - dev < n \<longrightarrow> c_host c' a = c_host c a"
proof (cases "de_runtime d")
  case Emulate
  then show ?thesis
    using that [of "c\<lparr>c_host := copy_bytes (c_host c) (c_host c) dev src n\<rparr>"] assms
    by (simp add: memcpy_to_device_def emulate_memcpy_to_device_def host_memcpy_def copies_ok_def copy_bytes_in
        copy_bytes_out)
next
  case (Cuda g)
  then have "\<And>k. gpu_status g k = 0" using assms(1) by (simp add: copies_succeed_def)
  from cuda_copy_to_device [OF assms(2) this] obtain c' where
    "cuda_memcpy_to_device g c dev src n = (c', Inr ())" "copied_out c True dev src n c'" by blast
  then show ?thesis using Cuda that [of c'] by (simp add: memcpy_to_device_def copied_out_def copy_bytes_in)
next
  case (Hip g)
  then have "\<And>k. gpu_status g k = 0" using assms(1) by (simp add: copies_succeed_def)
  from hip_copy_to_device [OF assms(2) this] obtain c' where
    "hip_memcpy_to_device g c dev src n = (c', Inr ())" "copied_out c True dev src n c'" by blast
  then show ?thesis using Hip that [of c'] by (simp add: memcpy_to_device_def copied_out_def copy_bytes_in)
qed (use assms(1) in \<open>simp add: copies_succeed_def\<close>)

lemma memcpy_back:
  assumes "copies_succeed d" and "copies_ok c" and "apart dst (unat n) dev (unat n)"
  obtains c' where "memcpy_to_host d c dst dev n = (c', Inr ())"
    and "\<forall>i. i < n \<longrightarrow> c_host c' (dst + i) = (if de_runtime d = Emulate then c_host c else c_device c) (dev + i)"
    and "\<forall>a. \<not> a - dst < n \<longrightarrow> c_host c' a = c_host c a"
proof (cases "de_runtime d")
  case Emulate
  then show ?thesis
    using that [of "c\<lparr>c_host := copy_bytes (c_host c) (c_host c) dst dev n\<rparr>"] assms
    by (simp add: memcpy_to_host_def emulate_memcpy_to_host_def host_memcpy_def copy_bytes_in copy_bytes_out)
next
  case (Cuda g)
  then have "\<And>k. gpu_status g k = 0" using assms(1) by (simp add: copies_succeed_def)
  from cuda_copy_to_host [OF assms(2) this] obtain c' where
    "cuda_memcpy_to_host g c dst dev n = (c', Inr ())" "copied_out c False dst dev n c'" by blast
  then show ?thesis using Cuda that [of c']
    by (simp add: memcpy_to_host_def copied_out_def copy_bytes_in copy_bytes_out)
next
  case (Hip g)
  then have "\<And>k. gpu_status g k = 0" using assms(1) by (simp add: copies_succeed_def)
  from hip_copy_to_host [OF assms(2) this] obtain c' where
    "hip_memcpy_to_host g c dst dev n = (c', Inr ())" "copied_out c False dst dev n c'" by blast
  then show ?thesis using Hip that [of c']
    by (simp add: memcpy_to_host_def copied_out_def copy_bytes_in copy_bytes_out)
qed (use assms(1) in \<open>simp add: copies_succeed_def\<close>)

text \<open>
  C32: what is copied to the device and back arrives unchanged, on every runtime, emulated or not;
  host memory outside the two ranges written is not touched.
\<close>

theorem memcpy_roundtrip:
  assumes "copies_succeed d" and "copies_ok c"
    and "apart dev (unat n) src (unat n)" and "apart dst (unat n) dev (unat n)"
  shows "\<exists>c1 c2. memcpy_to_device d c dev src n = (c1, Inr ()) \<and> memcpy_to_host d c1 dst dev n = (c2, Inr ())
    \<and> (\<forall>i. i < n \<longrightarrow> c_host c2 (dst + i) = c_host c (src + i))
    \<and> (\<forall>a. \<not> a - dst < n \<longrightarrow> \<not> a - dev < n \<longrightarrow> c_host c2 a = c_host c a)"
proof -
  obtain c1 where c1: "memcpy_to_device d c dev src n = (c1, Inr ())" "copies_ok c1"
    "\<forall>i. i < n \<longrightarrow> (if de_runtime d = Emulate then c_host c1 else c_device c1) (dev + i) = c_host c (src + i)"
    "\<forall>a. \<not> a - dev < n \<longrightarrow> c_host c1 a = c_host c a"
    using memcpy_out [OF assms(1-3)] .
  from memcpy_back [OF assms(1) c1(2) assms(4)] c1 show ?thesis by metis
qed

definition example_gpu :: "(nat \<Rightarrow> nat) \<Rightarrow> gpu_api" where
  "example_gpu status = \<lparr>gpu_get_device_count = \<lambda>_. (0, 1), gpu_get_device = \<lambda>_. (0, 0),
     gpu_set_device = \<lambda>_ _. 0, gpu_malloc = \<lambda>w s. (if bump w (unat s) = 0 then 2 else 0, bump w (unat s)),
     gpu_error_string = \<lambda>s. if s = 0 then ''no error'' else ''out of memory'',
     gpu_location = \<lambda>_. ''device_cuda.cpp:73'', gpu_status = status\<rparr>"

definition example_contents :: copy_state where
  "example_contents = \<lparr>c_host = (\<lambda>a. ucast a), c_device = (\<lambda>_. 0), c_calls = 0, c_streams = [],
     c_events = [], c_pending = [], c_marks = []\<rparr>"

lemma example_contents_ok: "copies_ok example_contents"
  by (simp add: copies_ok_def example_contents_def)

lemma memcpy_roundtrip_witness:
  "\<exists>c1 c2. memcpy_to_device \<lparr>de_os = ne_os bump_env, de_runtime = Cuda (example_gpu (\<lambda>_. 0))\<rparr>
        example_contents 4096 16 8 = (c1, Inr ())
    \<and> memcpy_to_host \<lparr>de_os = ne_os bump_env, de_runtime = Cuda (example_gpu (\<lambda>_. 0))\<rparr>
        c1 32 4096 8 = (c2, Inr ())
    \<and> (\<forall>i. i < (8::u64) \<longrightarrow> c_host c2 (32 + i) = c_host example_contents (16 + i))
    \<and> (\<forall>a. \<not> a - 32 < (8::u64) \<longrightarrow> \<not> a - 4096 < (8::u64) \<longrightarrow> c_host c2 a = c_host example_contents a)"
  by (rule memcpy_roundtrip)
    (simp_all add: copies_succeed_def example_gpu_def example_contents_ok apart_def)

text \<open>
  A copy with HIP leaves one more stream behind than the same copy with CUDA, which destroys
  what it creates; the contents of device memory end the same.
\<close>

theorem hip_copy_leaks_stream:
  assumes "copies_ok c" and "\<forall>k. gpu_status g k = 0"
  shows "\<exists>h u. hip_memcpy_to_device g c dst src n = (h, Inr ()) \<and> cuda_memcpy_to_device g c dst src n = (u, Inr ())
    \<and> c_device h = c_device u \<and> c_streams u = c_streams c \<and> length (c_streams h) = Suc (length (c_streams c))"
  using hip_copy_to_device [OF assms(1), of g dst src n] cuda_copy_to_device [OF assms(1), of g dst src n] assms(2)
  by (auto simp: copied_out_def)

lemma hip_copy_leaks_stream_witness:
  "\<exists>h u. hip_memcpy_to_device (example_gpu (\<lambda>_. 0)) example_contents 4096 16 8 = (h, Inr ())
    \<and> cuda_memcpy_to_device (example_gpu (\<lambda>_. 0)) example_contents 4096 16 8 = (u, Inr ())
    \<and> c_device h = c_device u \<and> c_streams u = c_streams example_contents
    \<and> length (c_streams h) = Suc (length (c_streams example_contents))"
  by (rule hip_copy_leaks_stream) (simp_all add: example_contents_ok example_gpu_def)

text \<open>
  The macro that checks a call makes it again when it failed. When enqueuing a copy fails and
  the repetition succeeds, the exception reports the error text of a success, the copy is on its
  way with nobody to wait for it, and the stream is never destroyed.
\<close>

theorem cuda_copy_repeated:
  assumes "gpu_status g (c_calls c) = 0" and "gpu_status g (c_calls c + 1) \<noteq> 0"
    and "gpu_status g (c_calls c + 2) = 0"
  shows "\<exists>c'. cuda_memcpy_to_device g c dst src n = (c', Inl (Runtime_Error
        (cuda_error_message g ''cudaMemcpyAsync(dst, src, count, cudaMemcpyHostToDevice, stream)'' 0)))
    \<and> c_pending c' = c_pending c @ [\<lparr>cp_to_device = True, cp_dst = dst, cp_src = src, cp_count = n,
        cp_stream = c_calls c\<rparr>]
    \<and> c_streams c' = c_calls c # c_streams c"
  using assms
  by (simp add: cuda_memcpy_to_device_def bindS_def check_cuda_result_def checked_create memcpy_async_def)
    (simp add: check_result_def gpu_call_def Let_def)

lemma cuda_copy_repeated_witness:
  "\<exists>c'. cuda_memcpy_to_device (example_gpu (\<lambda>k. if k = 1 then 2 else 0)) example_contents 4096 16 8 =
      (c', Inl (Runtime_Error (cuda_error_message (example_gpu (\<lambda>k. if k = 1 then 2 else 0))
        ''cudaMemcpyAsync(dst, src, count, cudaMemcpyHostToDevice, stream)'' 0)))
    \<and> c_pending c' = c_pending example_contents @ [\<lparr>cp_to_device = True, cp_dst = 4096, cp_src = 16, cp_count = 8,
        cp_stream = c_calls example_contents\<rparr>]
    \<and> c_streams c' = c_calls example_contents # c_streams example_contents"
  by (rule cuda_copy_repeated) (simp_all add: example_gpu_def example_contents_def)

end
