(* ===== verification/Logging.thy ===== *)
theory Logging
  imports Prelude
begin

text \<open>
  The logging of \<open>include/hwmalloc/log.hpp\<close> and \<open>src/log.cpp\<close>, for builds that enable it. Each thread
  formats into a string stream of its own, of which the model keeps the text not yet read, and
  prints it under a mutex that all threads share. The arguments are the texts \<open>operator<<\<close> gives.
\<close>

section \<open>Formatting\<close>

text \<open>\<open>clear\<close> resets the stream's flags only: text left over from before stays.\<close>

definition log_stream :: "string \<Rightarrow> string" where
  "log_stream str = str @ ''HWMALLOC:''"

fun detail_log_message :: "string \<Rightarrow> string list \<Rightarrow> string" where
  "detail_log_message str [] = str"
| "detail_log_message str (s # r) = detail_log_message (str @ '' '' @ s) r"

text \<open>The macro adds the place of the call.\<close>

definition hwmalloc_log_arguments :: "string list \<Rightarrow> string \<Rightarrow> string \<Rightarrow> string list" where
  "hwmalloc_log_arguments args file line = args @ [''('', file, '':'', line, '')'']"

text \<open>
  Printing ends the line and moves the text to standard error, which takes \<open>room\<close> characters at most.
  What it does not take stays in the stream.
\<close>

definition print_log_message :: "nat \<Rightarrow> string \<Rightarrow> string \<Rightarrow> string \<times> string" where
  "print_log_message room str err =
     (let text = str @ [CHR 0x0A] in (drop room text, err @ take room text))"

definition log_message :: "nat \<Rightarrow> string list \<Rightarrow> string \<Rightarrow> string \<Rightarrow> string \<times> string" where
  "log_message room s str err = print_log_message room (detail_log_message (log_stream str) s) err"

section \<open>Threads\<close>

text \<open>
  The steps of the threads: formatting touches nothing shared, the mutex is taken before the line is
  ended and printed character by character, and given back after.
\<close>

datatype log_pc = Log_Idle | Log_Formatted | Log_Printing

record logger =
  lg_pc :: "nat \<Rightarrow> log_pc"
  lg_stream :: "nat \<Rightarrow> string"
  lg_mutex :: "nat option"
  lg_err :: string

definition new_logger :: logger where
  "new_logger = \<lparr>lg_pc = (\<lambda>_. Log_Idle), lg_stream = (\<lambda>_. []), lg_mutex = None, lg_err = []\<rparr>"

inductive log_step :: "logger \<Rightarrow> logger \<Rightarrow> bool" where
  format: "lg_pc s t = Log_Idle \<Longrightarrow>
    log_step s (s\<lparr>lg_pc := (lg_pc s)(t := Log_Formatted),
      lg_stream := (lg_stream s)(t := detail_log_message (log_stream (lg_stream s t)) args)\<rparr>)"
| lock: "lg_pc s t = Log_Formatted \<Longrightarrow> lg_mutex s = None \<Longrightarrow>
    log_step s (s\<lparr>lg_pc := (lg_pc s)(t := Log_Printing), lg_mutex := Some t,
      lg_stream := (lg_stream s)(t := lg_stream s t @ [CHR 0x0A])\<rparr>)"
| put: "lg_pc s t = Log_Printing \<Longrightarrow> lg_stream s t = c # cs \<Longrightarrow>
    log_step s (s\<lparr>lg_stream := (lg_stream s)(t := cs), lg_err := lg_err s @ [c]\<rparr>)"
| unlock: "lg_pc s t = Log_Printing \<Longrightarrow> lg_stream s t = [] \<Longrightarrow>
    log_step s (s\<lparr>lg_pc := (lg_pc s)(t := Log_Idle), lg_mutex := None\<rparr>)"

section \<open>Lemmas\<close>

definition log_line :: "string list \<Rightarrow> string" where
  "log_line args = ''HWMALLOC:'' @ concat (map (\<lambda>s. CHR 0x20 # s) args) @ [CHR 0x0A]"

lemma detail_log_message_concat: "detail_log_message str args = str @ concat (map (\<lambda>s. CHR 0x20 # s) args)"
  by (induction str args rule: detail_log_message.induct) simp_all

text \<open>Of the threads only the holder of the mutex prints, and what it printed and holds is whole lines.\<close>

definition log_inv :: "logger \<Rightarrow> bool" where
  "log_inv s \<longleftrightarrow>
     (\<forall>t. lg_pc s t = Log_Printing \<longleftrightarrow> lg_mutex s = Some t) \<and>
     (\<forall>t. lg_pc s t = Log_Idle \<longrightarrow> lg_stream s t = []) \<and>
     (\<forall>t. lg_pc s t = Log_Formatted \<longrightarrow> (\<exists>args. lg_stream s t @ [CHR 0x0A] = log_line args)) \<and>
     (\<exists>lines. lg_err s @ (case lg_mutex s of None \<Rightarrow> [] | Some t \<Rightarrow> lg_stream s t) = concat (map log_line lines))"

lemma log_inv_step: "log_step s s' \<Longrightarrow> log_inv s \<Longrightarrow> log_inv s'"
proof (induction rule: log_step.induct)
  case (format s t args)
  have "detail_log_message (log_stream []) args @ [CHR 0x0A] = log_line args"
    by (simp add: detail_log_message_concat log_stream_def log_line_def)
  moreover have "lg_stream s t = []" using format by (simp add: log_inv_def)
  moreover have "lg_mutex s \<noteq> Some t" using format unfolding log_inv_def by (metis log_pc.distinct(3))
  ultimately show ?case using format unfolding log_inv_def by (auto split: option.splits)
next
  case (lock s t)
  then obtain args where "lg_stream s t @ [CHR 0x0A] = log_line args" unfolding log_inv_def by blast
  moreover obtain lines where "lg_err s = concat (map log_line lines)" using lock by (auto simp: log_inv_def)
  ultimately have "lg_err s @ lg_stream s t @ [CHR 0x0A] = concat (map log_line (lines @ [args]))" by simp
  then have "\<exists>lines. lg_err s @ lg_stream s t @ [CHR 0x0A] = concat (map log_line lines)" by blast
  then show ?case using lock by (simp add: log_inv_def)
next
  case (put s t c cs)
  then have m: "lg_mutex s = Some t" by (simp add: log_inv_def)
  then have "\<exists>lines. lg_err s @ [c] @ cs = concat (map log_line lines)" using put by (simp add: log_inv_def)
  moreover have "u \<noteq> t" if "lg_pc s u = Log_Idle \<or> lg_pc s u = Log_Formatted" for u using that put(1) by auto
  ultimately show ?case using put(3) m unfolding log_inv_def by simp
next
  case (unlock s t)
  then have "lg_mutex s = Some t" by (simp add: log_inv_def)
  then show ?case using unlock unfolding log_inv_def by auto
qed

lemma log_inv_reachable:
  assumes "log_step\<^sup>*\<^sup>* new_logger s"
  shows "log_inv s"
proof -
  have "log_inv new_logger" by (simp add: log_inv_def new_logger_def exI [of _ "[]"])
  with assms show ?thesis by (induction rule: rtranclp_induct) (blast intro: log_inv_step)+
qed

text \<open>The steps of one thread are the functions above, when standard error takes everything.\<close>

lemma log_drain:
  "lg_pc s t = Log_Printing \<Longrightarrow> lg_stream s t = str \<Longrightarrow>
     log_step\<^sup>*\<^sup>* s (s\<lparr>lg_stream := (lg_stream s)(t := []), lg_err := lg_err s @ str\<rparr>)"
proof (induction str arbitrary: s)
  case Nil
  then have "s\<lparr>lg_stream := (lg_stream s)(t := []), lg_err := lg_err s @ []\<rparr> = s" by (simp add: fun_upd_idem)
  then show ?case by (simp only: rtranclp.rtrancl_refl)
next
  case (Cons c cs)
  let ?s = "s\<lparr>lg_stream := (lg_stream s)(t := cs), lg_err := lg_err s @ [c]\<rparr>"
  have "log_step s ?s" using Cons.prems by (rule log_step.put)
  moreover have "log_step\<^sup>*\<^sup>* ?s (?s\<lparr>lg_stream := (lg_stream ?s)(t := []), lg_err := lg_err ?s @ cs\<rparr>)"
    by (rule Cons.IH) (use Cons.prems in simp_all)
  ultimately have steps: "log_step\<^sup>*\<^sup>* s (?s\<lparr>lg_stream := (lg_stream ?s)(t := []), lg_err := lg_err ?s @ cs\<rparr>)"
    by (rule converse_rtranclp_into_rtranclp)
  have eq: "?s\<lparr>lg_stream := (lg_stream ?s)(t := []), lg_err := lg_err ?s @ cs\<rparr>
      = s\<lparr>lg_stream := (lg_stream s)(t := []), lg_err := lg_err s @ c # cs\<rparr>" by simp
  show ?case using steps unfolding eq .
qed

lemma print_steps:
  assumes "lg_pc s t = Log_Formatted" and "lg_mutex s = None" and "length (lg_stream s t) < room"
  shows "log_step\<^sup>*\<^sup>* s (s\<lparr>lg_pc := (lg_pc s)(t := Log_Idle),
      lg_stream := (lg_stream s)(t := fst (print_log_message room (lg_stream s t) (lg_err s))),
      lg_err := snd (print_log_message room (lg_stream s t) (lg_err s))\<rparr>)"
proof -
  let ?s1 = "s\<lparr>lg_pc := (lg_pc s)(t := Log_Printing), lg_mutex := Some t,
    lg_stream := (lg_stream s)(t := lg_stream s t @ [CHR 0x0A])\<rparr>"
  let ?s2 = "?s1\<lparr>lg_stream := (lg_stream ?s1)(t := []), lg_err := lg_err ?s1 @ lg_stream s t @ [CHR 0x0A]\<rparr>"
  have "log_step s ?s1" using assms(1,2) by (rule log_step.lock)
  moreover have "log_step\<^sup>*\<^sup>* ?s1 ?s2" by (rule log_drain) simp_all
  moreover have "log_step ?s2 (?s2\<lparr>lg_pc := (lg_pc ?s2)(t := Log_Idle), lg_mutex := None\<rparr>)"
    by (rule log_step.unlock) simp_all
  moreover have "?s2\<lparr>lg_pc := (lg_pc ?s2)(t := Log_Idle), lg_mutex := None\<rparr> =
      s\<lparr>lg_pc := (lg_pc s)(t := Log_Idle),
        lg_stream := (lg_stream s)(t := fst (print_log_message room (lg_stream s t) (lg_err s))),
        lg_err := snd (print_log_message room (lg_stream s t) (lg_err s))\<rparr>"
    using assms(2,3) by (simp add: print_log_message_def Let_def)
  ultimately show ?thesis
    by (metis (no_types, lifting) converse_rtranclp_into_rtranclp rtranclp.rtrancl_into_rtrancl)
qed

text \<open>Two threads format, and the first prints.\<close>

lemma example_log:
  obtains s where "log_step\<^sup>*\<^sup>* new_logger s" and "lg_err s = ''HWMALLOC: freeing'' @ [CHR 0x0A]"
    and "lg_pc s 1 = Log_Formatted"
proof -
  let ?f = "detail_log_message (log_stream []) [''freeing'']"
  define s1 where "s1 = new_logger\<lparr>lg_pc := (lg_pc new_logger)(0 := Log_Formatted), lg_stream := (lg_stream new_logger)(0 := ?f)\<rparr>"
  define s2 where "s2 = s1\<lparr>lg_pc := (lg_pc s1)(1 := Log_Formatted), lg_stream := (lg_stream s1)(1 := ?f)\<rparr>"
  let ?p = "print_log_message 100 (lg_stream s2 0) (lg_err s2)"
  define s3 where "s3 = s2\<lparr>lg_pc := (lg_pc s2)(0 := Log_Idle), lg_stream := (lg_stream s2)(0 := fst ?p), lg_err := snd ?p\<rparr>"
  have "log_step new_logger s1"
    using log_step.format [of new_logger 0 "[''freeing'']"] by (simp add: s1_def new_logger_def)
  moreover have "log_step s1 s2"
    using log_step.format [of s1 1 "[''freeing'']"] by (simp add: s2_def s1_def new_logger_def)
  moreover have "log_step\<^sup>*\<^sup>* s2 s3"
    unfolding s3_def by (rule print_steps) (simp_all add: s2_def s1_def new_logger_def log_stream_def)
  ultimately have "log_step\<^sup>*\<^sup>* new_logger s3" by (meson converse_rtranclp_into_rtranclp)
  then show ?thesis
    by (rule that) (simp_all add: s3_def s2_def s1_def new_logger_def log_stream_def print_log_message_def)
qed

section \<open>Properties\<close>

text \<open>
  C23: whatever the threads log and however their steps interleave, standard error holds whole
  messages, one after the other, whenever no thread is printing, and whole messages but for the rest
  of one whenever one is: no message is torn or mixed up with another.
\<close>

theorem log_messages_whole:
  assumes "log_step\<^sup>*\<^sup>* new_logger s"
  shows "\<exists>messages. lg_err s @ (case lg_mutex s of None \<Rightarrow> [] | Some t \<Rightarrow> lg_stream s t)
      = concat (map log_line messages)"
  using log_inv_reachable [OF assms] by (simp add: log_inv_def)

lemma log_messages_whole_witness:
  "\<exists>s :: logger. lg_err s = ''HWMALLOC: freeing'' @ [CHR 0x0A] \<and> lg_pc s 1 = Log_Formatted
    \<and> (\<exists>messages. lg_err s @ (case lg_mutex s of None \<Rightarrow> [] | Some t \<Rightarrow> lg_stream s t)
        = concat (map log_line messages))"
proof -
  obtain s where s: "log_step\<^sup>*\<^sup>* new_logger s" "lg_err s = ''HWMALLOC: freeing'' @ [CHR 0x0A]"
    "lg_pc s 1 = Log_Formatted" by (rule example_log)
  from log_messages_whole [OF s(1)] s(2,3) show ?thesis by (intro exI [of _ s] conjI)
qed

end
