(* ===== verification/Pool_Threads.thy ===== *)
theory Pool_Threads
  imports Prelude
begin

text \<open>
  Threads that allocate from one pool and give blocks back at the same time
  (\<open>include/hwmalloc/detail/pool.hpp\<close>, \<open>include/hwmalloc/detail/segment.hpp\<close>). A step is one access to
  what the threads share: an operation on a lock-free stack or on the atomic counter of a segment,
  locking or unlocking the mutex, or work on the map of segments, which happens under the mutex.
  What a block points to, the memory behind it and the device a thread selects do not matter here: a
  block is its segment and its number.
\<close>

section \<open>State\<close>

type_synonym blk = "nat \<times> nat"

text \<open>The number of blocks of a segment, and the members of the pool that never change.\<close>

record pool_config =
  pc_num_blocks :: nat
  pc_never_free :: bool
  pc_num_reserve_segments :: nat

text \<open>
  Where a thread is: outside, in \<open>allocate\<close> (up to \<open>Return\<close>; \<open>Left_Locked\<close> when an exception left it),
  or in \<open>free\<close>. The arguments are local variables: the segments left to collect from, the number
  consumed, the counter of the loop, the block at hand.
\<close>

datatype position =
    Outside
  | Pop_First | Lock_Allocate | Pop_Locked
  | Collect "nat list" | Consume nat "nat list" nat | Push_Collected nat "nat list" nat blk
  | Subtract nat "nat list" nat
  | Pop_Collected | Pop_Loop nat | Add_Segment nat | Construct nat nat nat | Insert_Segment nat nat
  | Return blk | Left_Locked
  | Push_Freed blk | Count_Freed blk | Check_Empty blk | Lock_Free blk | Check_Locked blk | Erase blk | Unlock_Free

text \<open>
  The shared state: the free stack, the segments that exist, their freed stacks and counters, the
  segments in the map, and the mutex with the thread that holds it. Beside it the blocks users hold,
  the threads, and whether one has used a segment that was destroyed.
\<close>

record threads =
  t_free_stack :: "blk list"
  t_segments :: "nat list"
  t_freed_stack :: "nat \<Rightarrow> blk list"
  t_num_freed :: "nat \<Rightarrow> int"
  t_map :: "nat list"
  t_next :: nat
  t_mutex :: "nat option"
  t_held :: "blk list"
  t_position :: "position list"
  t_dangling :: bool

definition initial_threads :: "nat \<Rightarrow> threads" where
  "initial_threads n = \<lparr>t_free_stack = [], t_segments = [], t_freed_stack = (\<lambda>_. []), t_num_freed = (\<lambda>_. 0),
     t_map = [], t_next = 0, t_mutex = None, t_held = [], t_position = replicate n Outside, t_dangling = False\<rparr>"

section \<open>Steps\<close>

text \<open>A user calls an operation; a step of the code; an exception out of \<open>add_segment\<close>.\<close>

datatype action = Call_Allocate | Call_Free blk | Step | Throw

definition go :: "nat \<Rightarrow> position \<Rightarrow> threads \<Rightarrow> threads" where
  "go t p st = st\<lparr>t_position := (t_position st)[t := p]\<rparr>"

text \<open>An operation on the segment of a block, if the segment still exists.\<close>

definition on_segment :: "nat \<Rightarrow> blk \<Rightarrow> threads \<Rightarrow> threads \<Rightarrow> threads" where
  "on_segment t b st st' = (if fst b \<in> set (t_segments st) then st' else st\<lparr>t_dangling := True\<rparr>)"

definition thread_is_empty :: "pool_config \<Rightarrow> threads \<Rightarrow> nat \<Rightarrow> bool" where
  "thread_is_empty c st s \<longleftrightarrow> t_num_freed st s = int (pc_num_blocks c)"

text \<open>Popping: what to do with a block, and where to go without one.\<close>

definition pop_free :: "threads \<Rightarrow> (blk \<Rightarrow> threads \<Rightarrow> threads) \<Rightarrow> threads \<Rightarrow> threads" where
  "pop_free st found nothing =
     (case t_free_stack st of [] \<Rightarrow> nothing | b # bs \<Rightarrow> found b (st\<lparr>t_free_stack := bs\<rparr>))"

text \<open>
  One step of the code at each position. The result is \<open>None\<close> where a thread cannot go on: outside, or
  waiting for the mutex. Pushing to a full freed stack is tried again.
\<close>

fun code_step :: "pool_config \<Rightarrow> nat \<Rightarrow> threads \<Rightarrow> position \<Rightarrow> threads option" where
  "code_step c t st Outside = None"
| "code_step c t st Pop_First =
     Some (pop_free st (\<lambda>b st'. go t Outside (st'\<lparr>t_held := b # t_held st'\<rparr>)) (go t Lock_Allocate st))"
| "code_step c t st Lock_Allocate =
     (if t_mutex st = None then Some (go t Pop_Locked (st\<lparr>t_mutex := Some t\<rparr>)) else None)"
| "code_step c t st Pop_Locked =
     Some (pop_free st (\<lambda>b. go t (Return b)) (go t (Collect (t_map st)) st))"
| "code_step c t st (Collect []) = Some (go t Pop_Collected st)"
| "code_step c t st (Collect (s # ss)) = Some (go t (Consume s ss 0) st)"
| "code_step c t st (Consume s ss k) =
     (case t_freed_stack st s of
        [] \<Rightarrow> Some (go t (Subtract s ss k) st)
      | b # bs \<Rightarrow>
          Some (go t (Push_Collected s ss k b) (st\<lparr>t_freed_stack := (t_freed_stack st)(s := bs)\<rparr>)))"
| "code_step c t st (Push_Collected s ss k b) =
     Some (go t (Consume s ss (Suc k)) (st\<lparr>t_free_stack := b # t_free_stack st\<rparr>))"
| "code_step c t st (Subtract s ss k) =
     Some (go t (Collect ss) (st\<lparr>t_num_freed := (t_num_freed st)(s := t_num_freed st s - int k)\<rparr>))"
| "code_step c t st Pop_Collected = Some (pop_free st (\<lambda>b. go t (Return b)) (go t (Pop_Loop 0) st))"
| "code_step c t st (Pop_Loop k) =
     Some (pop_free st (\<lambda>b. go t (Return b))
       (if k mod 2 = 0 then go t (Add_Segment (k + 1)) st else go t (Pop_Loop (k + 1)) st))"
| "code_step c t st (Add_Segment k) =
     (let s = t_next st
      in Some (go t (Construct s (pc_num_blocks c) k)
           (st\<lparr>t_next := Suc s, t_segments := s # t_segments st,
               t_freed_stack := (t_freed_stack st)(s := []), t_num_freed := (t_num_freed st)(s := 0)\<rparr>)))"
| "code_step c t st (Construct s 0 k) = Some (go t (Insert_Segment s k) st)"
| "code_step c t st (Construct s (Suc i) k) =
     Some (go t (Construct s i k) (st\<lparr>t_free_stack := (s, i) # t_free_stack st\<rparr>))"
| "code_step c t st (Insert_Segment s k) = Some (go t (Pop_Loop k) (st\<lparr>t_map := s # t_map st\<rparr>))"
| "code_step c t st (Return b) = Some (go t Outside (st\<lparr>t_mutex := None, t_held := b # t_held st\<rparr>))"
| "code_step c t st Left_Locked = None"
| "code_step c t st (Push_Freed b) =
     Some (on_segment t b st
       (if length (t_freed_stack st (fst b)) < pc_num_blocks c
        then go t (Count_Freed b)
               (st\<lparr>t_freed_stack := (t_freed_stack st)(fst b := b # t_freed_stack st (fst b))\<rparr>)
        else st))"
| "code_step c t st (Count_Freed b) =
     Some (on_segment t b st
       (go t (if pc_never_free c then Outside else Check_Empty b)
          (st\<lparr>t_num_freed := (t_num_freed st)(fst b := t_num_freed st (fst b) + 1)\<rparr>)))"
| "code_step c t st (Check_Empty b) =
     Some (on_segment t b st (go t (if thread_is_empty c st (fst b) then Lock_Free b else Outside) st))"
| "code_step c t st (Lock_Free b) =
     (if t_mutex st = None then Some (go t (Check_Locked b) (st\<lparr>t_mutex := Some t\<rparr>)) else None)"
| "code_step c t st (Check_Locked b) =
     Some (on_segment t b st
       (go t (if thread_is_empty c st (fst b) \<and> pc_num_reserve_segments c < length (t_map st)
              then Erase b else Unlock_Free) st))"
| "code_step c t st (Erase b) =
     Some (go t Unlock_Free
       (if fst b \<in> set (t_map st)
        then st\<lparr>t_map := remove1 (fst b) (t_map st), t_segments := remove1 (fst b) (t_segments st),
                t_freed_stack := (t_freed_stack st)(fst b := [])\<rparr>
        else st))"
| "code_step c t st Unlock_Free = Some (go t Outside (st\<lparr>t_mutex := None\<rparr>))"

text \<open>
  Where an exception can come from: \<open>add_segment\<close>, before it has made a segment or, on a device, after
  it has put it into the map, when the device of before is selected again. The counter is odd then.
\<close>

fun throws :: "position \<Rightarrow> bool" where
  "throws (Add_Segment k) = True"
| "throws (Pop_Loop k) = odd k"
| "throws _ = False"

text \<open>What thread \<open>t\<close> can do. After the use of a destroyed segment nothing is defined any more.\<close>

fun thread_step :: "pool_config \<Rightarrow> nat \<Rightarrow> action \<Rightarrow> threads \<Rightarrow> threads option" where
  "thread_step c t a st =
     (if t_dangling st \<or> length (t_position st) \<le> t then None
      else case a of
        Call_Allocate \<Rightarrow> if t_position st ! t = Outside then Some (go t Pop_First st) else None
      | Call_Free b \<Rightarrow>
          if t_position st ! t = Outside \<and> b \<in> set (t_held st)
          then Some (go t (Push_Freed b) (st\<lparr>t_held := remove1 b (t_held st)\<rparr>)) else None
      | Step \<Rightarrow> code_step c t st (t_position st ! t)
      | Throw \<Rightarrow>
          if throws (t_position st ! t) then Some (go t Left_Locked st) else None)"

declare thread_step.simps [simp del]

text \<open>The states that some interleaving leads to, and a given interleaving.\<close>

inductive reachable :: "pool_config \<Rightarrow> nat \<Rightarrow> threads \<Rightarrow> bool" for c n where
  start: "reachable c n (initial_threads n)"
| step: "reachable c n st \<Longrightarrow> thread_step c t a st = Some st' \<Longrightarrow> reachable c n st'"

fun interleave :: "pool_config \<Rightarrow> (nat \<times> action) list \<Rightarrow> threads \<Rightarrow> threads option" where
  "interleave c [] st = Some st"
| "interleave c ((t, a) # as) st = Option.bind (thread_step c t a st) (interleave c as)"

lemma interleave_reachable: "reachable c n st \<Longrightarrow> interleave c as st = Some st' \<Longrightarrow> reachable c n st'"
proof (induction as arbitrary: st)
  case (Cons a as)
  then obtain u where "thread_step c (fst a) (snd a) st = Some u" "interleave c as u = Some st'"
    by (cases a) (auto simp: bind_eq_Some_conv)
  then show ?case using Cons reachable.step by blast
qed simp


section \<open>Who has a block\<close>

text \<open>Sums over the threads.\<close>

definition tsum :: "(position \<Rightarrow> nat) \<Rightarrow> threads \<Rightarrow> nat" where
  "tsum f st = sum_list (map f (t_position st))"

lemma tsum_go:
  "t < length (t_position st) \<Longrightarrow> tsum f (go t p st) + f (t_position st ! t) = tsum f st + f p"
  unfolding tsum_def go_def using sum_list_swap [of t "t_position st" f p] by simp

lemma tsum_member: "t < length (t_position st) \<Longrightarrow> f (t_position st ! t) \<le> tsum f st"
  unfolding tsum_def by (rule sum_list_mono_single) simp

lemma tsum_0: "tsum f st = 0 \<longleftrightarrow> (\<forall>t < length (t_position st). f (t_position st ! t) = 0)"
  by (simp add: tsum_def all_set_conv_all_nth)

text \<open>Only one thread counts.\<close>

lemma tsum_one:
  assumes "t < length (t_position st)" and "f Outside = 0"
    and "\<And>u. u < length (t_position st) \<Longrightarrow> u \<noteq> t \<Longrightarrow> f (t_position st ! u) = 0"
  shows "tsum f st = f (t_position st ! t)"
proof -
  have "tsum f (go t Outside st) = 0"
    unfolding tsum_0 using assms by (simp add: go_def nth_list_update)
  then show ?thesis using tsum_go [OF assms(1), of f Outside] assms(2) by simp
qed

text \<open>The blocks a thread has at hand, and those of a segment it has yet to push.\<close>

fun at_hand :: "blk \<Rightarrow> position \<Rightarrow> nat" where
  "at_hand x (Push_Collected s ss k b) = of_bool (x = b)"
| "at_hand x (Return b) = of_bool (x = b)"
| "at_hand x (Push_Freed b) = of_bool (x = b)"
| "at_hand x (Construct s i k) = of_bool (fst x = s \<and> snd x < i)"
| "at_hand x _ = 0"

definition places :: "threads \<Rightarrow> blk \<Rightarrow> nat" where
  "places st x = count_list (t_free_stack st) x + count_list (t_freed_stack st (fst x)) x
     + count_list (t_held st) x + tsum (at_hand x) st"

definition is_block :: "pool_config \<Rightarrow> threads \<Rightarrow> blk \<Rightarrow> bool" where
  "is_block c st x \<longleftrightarrow> fst x \<in> set (t_segments st) \<and> snd x < pc_num_blocks c"

text \<open>What a thread adds to the difference between the freed blocks of a segment and its counter.\<close>

fun uncounted :: "nat \<Rightarrow> position \<Rightarrow> nat" where
  "uncounted x (Count_Freed b) = of_bool (fst b = x)"
| "uncounted x _ = 0"

fun consumed :: "nat \<Rightarrow> position \<Rightarrow> nat" where
  "consumed x (Consume s ss k) = (if s = x then k else 0)"
| "consumed x (Push_Collected s ss k b) = (if s = x then Suc k else 0)"
| "consumed x (Subtract s ss k) = (if s = x then k else 0)"
| "consumed x _ = 0"

text \<open>The positions under the mutex, and the segments a thread goes by.\<close>

fun locked :: "position \<Rightarrow> bool" where
  "locked Outside = False"
| "locked Pop_First = False"
| "locked Lock_Allocate = False"
| "locked (Push_Freed b) = False"
| "locked (Count_Freed b) = False"
| "locked (Check_Empty b) = False"
| "locked (Lock_Free b) = False"
| "locked _ = True"

fun visits :: "position \<Rightarrow> nat set" where
  "visits (Collect ss) = set ss"
| "visits (Consume s ss k) = insert s (set ss)"
| "visits (Push_Collected s ss k b) = insert s (set ss)"
| "visits (Subtract s ss k) = insert s (set ss)"
| "visits (Construct s i k) = {s}"
| "visits (Insert_Segment s k) = {s}"
| "visits (Count_Freed b) = {fst b}"
| "visits (Erase b) = {fst b}"
| "visits _ = {}"

fun constructs :: "position \<Rightarrow> nat set" where
  "constructs (Construct s i k) = {s}"
| "constructs (Insert_Segment s k) = {s}"
| "constructs _ = {}"

end
