(* ===== verification/Threads_Invariant.thy ===== *)
theory Threads_Invariant
  imports Pool_Threads
begin

text \<open>
  What holds of a pool whatever its threads do: every block of a segment is in one place, the counters
  of the segments follow their freed stacks, one thread is under the mutex, and a segment is erased
  when all its blocks are back. Every step keeps it.
\<close>


section \<open>The invariant\<close>

text \<open>
  The mutex is held by the one thread at a position under it. The segments in the map exist, and so do
  those that threads go by; one under construction is not in the map. A freed stack holds blocks of its segment only, and none is left of a
  segment that is gone. Every block of a segment that exists is in one place. The counter of a
  segment says how many blocks its freed stack holds, up to those a thread has not counted yet or
  has consumed. A segment about to be erased has all its blocks freed and counted.
\<close>

definition mutex_ok :: "threads \<Rightarrow> bool" where
  "mutex_ok st \<longleftrightarrow> (\<forall>t < length (t_position st). locked (t_position st ! t) \<longrightarrow> t_mutex st = Some t)"

definition segments_ok :: "threads \<Rightarrow> bool" where
  "segments_ok st \<longleftrightarrow> distinct (t_segments st) \<and> distinct (t_map st) \<and> set (t_map st) \<subseteq> set (t_segments st)
     \<and> (\<forall>s \<in> set (t_segments st). s < t_next st)
     \<and> (\<forall>t < length (t_position st). visits (t_position st ! t) \<subseteq> set (t_segments st))
     \<and> (\<forall>t < length (t_position st). constructs (t_position st ! t) \<inter> set (t_map st) = {})
     \<and> (\<forall>s. s \<notin> set (t_segments st) \<longrightarrow> t_freed_stack st s = [])
     \<and> (\<forall>s. \<forall>b \<in> set (t_freed_stack st s). fst b = s)"

definition places_ok :: "pool_config \<Rightarrow> threads \<Rightarrow> bool" where
  "places_ok c st \<longleftrightarrow> (\<forall>x. places st x = of_bool (is_block c st x))"

definition counts_ok :: "threads \<Rightarrow> bool" where
  "counts_ok st \<longleftrightarrow> (\<forall>s \<in> set (t_segments st).
     t_num_freed st s + int (tsum (uncounted s) st) = int (length (t_freed_stack st s)) + int (tsum (consumed s) st))"

definition erase_ok :: "pool_config \<Rightarrow> threads \<Rightarrow> bool" where
  "erase_ok c st \<longleftrightarrow> (\<forall>t < length (t_position st). \<forall>b. t_position st ! t = Erase b \<longrightarrow>
     length (t_freed_stack st (fst b)) = pc_num_blocks c \<and> tsum (uncounted (fst b)) st = 0)"

definition threads_ok :: "pool_config \<Rightarrow> threads \<Rightarrow> bool" where
  "threads_ok c st \<longleftrightarrow> mutex_ok st \<and> segments_ok st \<and> places_ok c st \<and> counts_ok st \<and> erase_ok c st"

lemma initial_threads_ok: "threads_ok c (initial_threads n)"
proof -
  have "tsum f (initial_threads n) = 0" if "f Outside = 0" for f
    using that by (simp add: tsum_def initial_threads_def sum_list_replicate)
  then show ?thesis
    by (simp add: threads_ok_def mutex_ok_def segments_ok_def places_ok_def counts_ok_def erase_ok_def
        places_def is_block_def initial_threads_def)
qed

text \<open>A block is in one place only, so a freed stack is a set of blocks of its segment.\<close>

lemma count_list_distinct: "(\<And>x. count_list xs x \<le> 1) \<Longrightarrow> distinct xs"
proof (induction xs)
  case (Cons a xs)
  have "count_list xs x \<le> 1" for x
    using Cons.prems [of x] by (simp split: if_splits)
  moreover have "a \<notin> set xs"
    using Cons.prems [of a] by (simp add: count_list_0_iff)
  ultimately show ?case using Cons.IH by simp
qed simp

lemma one_place:
  assumes "places_ok c st"
  shows "count_list (t_free_stack st) x + count_list (t_freed_stack st (fst x)) x + count_list (t_held st) x
    + tsum (at_hand x) st = of_bool (is_block c st x)"
  using assms unfolding places_ok_def places_def by (rule spec)

lemma freed_distinct:
  assumes "places_ok c st" and "segments_ok st"
  shows "distinct (t_freed_stack st s)" and "set (t_freed_stack st s) \<subseteq> Pair s ` {0 ..< pc_num_blocks c}"
    and "length (t_freed_stack st s) \<le> pc_num_blocks c"
proof -
  have fst: "fst x = s" if "x \<in> set (t_freed_stack st s)" for x
    using assms(2) that by (auto simp: segments_ok_def)
  have "count_list (t_freed_stack st s) x \<le> 1" for x
  proof (cases "x \<in> set (t_freed_stack st s)")
    case True
    then show ?thesis using one_place [OF assms(1), of x] fst [of x] by (cases "is_block c st x") auto
  qed (simp add: count_notin)
  then show d: "distinct (t_freed_stack st s)" by (rule count_list_distinct)
  show sub: "set (t_freed_stack st s) \<subseteq> Pair s ` {0 ..< pc_num_blocks c}"
  proof
    fix x assume x: "x \<in> set (t_freed_stack st s)"
    then have "count_list (t_freed_stack st s) x \<noteq> 0" by (simp add: count_list_0_iff)
    then have "is_block c st x"
      using one_place [OF assms(1), of x] fst [OF x] by (cases "is_block c st x") auto
    then show "x \<in> Pair s ` {0 ..< pc_num_blocks c}"
      using fst [OF x] by (cases x) (auto simp: is_block_def)
  qed
  show "length (t_freed_stack st s) \<le> pc_num_blocks c"
    using card_mono [OF _ sub] distinct_card [OF d] by (simp add: card_image inj_on_def)
qed

text \<open>When it holds as many blocks as the segment has, every block of the segment is in it.\<close>

lemma freed_full:
  assumes "places_ok c st" and "segments_ok st" and "length (t_freed_stack st (fst x)) = pc_num_blocks c"
    and "snd x < pc_num_blocks c"
  shows "x \<in> set (t_freed_stack st (fst x))"
proof -
  have "set (t_freed_stack st (fst x)) = Pair (fst x) ` {0 ..< pc_num_blocks c}"
    using freed_distinct [OF assms(1,2), of "fst x"] assms(3)
      distinct_card [of "t_freed_stack st (fst x)"]
    by (intro card_subset_eq) (simp_all add: card_image inj_on_def)
  then show ?thesis using assms(4) by (cases x) simp
qed

lemma freed_full_only:
  assumes "places_ok c st" and "segments_ok st" and "length (t_freed_stack st (fst x)) = pc_num_blocks c"
  shows "count_list (t_free_stack st) x = 0" and "count_list (t_held st) x = 0" and "tsum (at_hand x) st = 0"
proof -
  have "count_list (t_freed_stack st (fst x)) x \<noteq> 0" if "is_block c st x"
    using freed_full [OF assms] that by (simp add: is_block_def count_list_0_iff)
  then have "count_list (t_free_stack st) x = 0 \<and> count_list (t_held st) x = 0 \<and> tsum (at_hand x) st = 0"
    using one_place [OF assms(1), of x] by (cases "is_block c st x") auto
  then show "count_list (t_free_stack st) x = 0" and "count_list (t_held st) x = 0" and "tsum (at_hand x) st = 0"
    by simp_all
qed


section \<open>Every step keeps the invariant\<close>

text \<open>What a step does to the sums, from the position the thread leaves and the one it goes to.\<close>

lemma tsum_moved:
  "t_position st' = (t_position st)[t := p] \<Longrightarrow> t < length (t_position st)
    \<Longrightarrow> tsum f st' + f (t_position st ! t) = tsum f st + f p"
  unfolding tsum_def using sum_list_swap [of t "t_position st" f p] by simp

lemma position_go [simp]: "t_position (go t p st) = (t_position st)[t := p]"
  and others_go [simp]: "t_free_stack (go t p st) = t_free_stack st" "t_segments (go t p st) = t_segments st"
    "t_freed_stack (go t p st) = t_freed_stack st" "t_num_freed (go t p st) = t_num_freed st"
    "t_map (go t p st) = t_map st" "t_next (go t p st) = t_next st" "t_mutex (go t p st) = t_mutex st"
    "t_held (go t p st) = t_held st" "t_dangling (go t p st) = t_dangling st"
  by (simp_all add: go_def)

text \<open>Using a destroyed segment changes nothing the invariant speaks of.\<close>

lemma dangling_ok [simp]: "threads_ok c (st\<lparr>t_dangling := d\<rparr>) = threads_ok c st"
  by (simp add: threads_ok_def mutex_ok_def segments_ok_def places_ok_def counts_ok_def erase_ok_def
      places_def is_block_def tsum_def)

text \<open>A thread under the mutex is the only one.\<close>

lemma only_locked:
  "mutex_ok st \<Longrightarrow> t < length (t_position st) \<Longrightarrow> locked (t_position st ! t)
    \<Longrightarrow> u < length (t_position st) \<Longrightarrow> u \<noteq> t \<Longrightarrow> \<not> locked (t_position st ! u)"
  unfolding mutex_ok_def by (metis option.inject)

lemma mutex_step:
  assumes "mutex_ok st" and "t < length (t_position st)"
    and "code_step c t st (t_position st ! t) = Some st'"
  shows "mutex_ok st'"
  using assms only_locked [OF assms(1,2)]
  by (cases "(c, t, st, t_position st ! t)" rule: code_step.cases)
    (auto simp: mutex_ok_def nth_list_update pop_free_def on_segment_def Let_def
      split: if_splits list.splits)

text \<open>Only a thread that frees and has not got the mutex can go by a segment beside one under it.\<close>

lemma visits_unlocked: "\<not> locked p \<Longrightarrow> s \<in> visits p \<Longrightarrow> \<exists>b. p = Count_Freed b \<and> fst b = s"
  by (cases p) auto

lemma erase_okD:
  assumes "erase_ok c st" and "t < length (t_position st)" and "t_position st ! t = Erase b"
  shows "length (t_freed_stack st (fst b)) = pc_num_blocks c" and "tsum (uncounted (fst b)) st = 0"
  using assms unfolding erase_ok_def by blast+

lemma no_visit_when_erased:
  assumes "mutex_ok st" and "erase_ok c st" and "t < length (t_position st)" and "t_position st ! t = Erase b"
    and "u < length (t_position st)" and "u \<noteq> t"
  shows "fst b \<notin> visits (t_position st ! u)"
proof
  assume "fst b \<in> visits (t_position st ! u)"
  moreover have "\<not> locked (t_position st ! u)"
    using only_locked [OF assms(1,3) _ assms(5,6)] assms(4) by simp
  ultimately obtain b' where "t_position st ! u = Count_Freed b'" "fst b' = fst b"
    using visits_unlocked by blast
  then have "uncounted (fst b) (t_position st ! u) = 1" by simp
  then show False
    using tsum_member [OF assms(5), of "uncounted (fst b)"] erase_okD(2) [OF assms(2,3,4)] by simp
qed

lemma is_block_at_hand:
  assumes "places_ok c st" and "t < length (t_position st)" and "0 < at_hand x (t_position st ! t)"
  shows "is_block c st x"
  using one_place [OF assms(1), of x] tsum_member [OF assms(2), of "at_hand x"] assms(3)
  by (cases "is_block c st x") auto

lemma constructs_locked: "s \<in> constructs p \<Longrightarrow> locked p"
  by (cases p) auto

lemma segments_okD:
  assumes "segments_ok st"
  shows "t_freed_stack st s \<noteq> [] \<Longrightarrow> s \<in> set (t_segments st)"
    and "b \<in> set (t_freed_stack st s) \<Longrightarrow> fst b = s"
    and "t < length (t_position st) \<Longrightarrow> visits (t_position st ! t) \<subseteq> set (t_segments st)"
    and "t < length (t_position st) \<Longrightarrow> constructs (t_position st ! t) \<inter> set (t_map st) = {}"
    and "set (t_map st) \<subseteq> set (t_segments st)"
    and "distinct (t_segments st)" and "distinct (t_map st)"
    and "s \<in> set (t_segments st) \<Longrightarrow> s < t_next st"
  using assms unfolding segments_ok_def by blast+

text \<open>What to show of a step that takes one thread to another position.\<close>

lemma segments_okI:
  assumes "t_position st' = (t_position st)[t := p]" and "t < length (t_position st)"
    and "distinct (t_segments st')" and "distinct (t_map st')" and "set (t_map st') \<subseteq> set (t_segments st')"
    and "\<And>s. s \<in> set (t_segments st') \<Longrightarrow> s < t_next st'"
    and "visits p \<subseteq> set (t_segments st')" and "constructs p \<inter> set (t_map st') = {}"
    and "\<And>u. u < length (t_position st) \<Longrightarrow> u \<noteq> t \<Longrightarrow> visits (t_position st ! u) \<subseteq> set (t_segments st')"
    and "\<And>u. u < length (t_position st) \<Longrightarrow> u \<noteq> t \<Longrightarrow> constructs (t_position st ! u) \<inter> set (t_map st') = {}"
    and "\<And>s. t_freed_stack st' s \<noteq> [] \<Longrightarrow> s \<in> set (t_segments st')"
    and "\<And>s b. b \<in> set (t_freed_stack st' s) \<Longrightarrow> fst b = s"
  shows "segments_ok st'"
proof -
  have "visits (t_position st' ! u) \<subseteq> set (t_segments st') \<and> constructs (t_position st' ! u) \<inter> set (t_map st') = {}"
    if "u < length (t_position st')" for u
    using that assms(1,2,7-10) by (cases "u = t") simp_all
  then show ?thesis
    unfolding segments_ok_def using assms(3-6,11,12) by blast
qed

lemma segments_moved:
  assumes "segments_ok st" and "t < length (t_position st)" and "t_position st' = (t_position st)[t := p]"
    and "t_segments st' = t_segments st" and "t_map st' = t_map st" and "t_next st' = t_next st"
    and "visits p \<subseteq> set (t_segments st)" and "constructs p \<inter> set (t_map st) = {}"
    and "\<And>s. t_freed_stack st' s \<noteq> [] \<Longrightarrow> s \<in> set (t_segments st)"
    and "\<And>s b. b \<in> set (t_freed_stack st' s) \<Longrightarrow> fst b = s"
  shows "segments_ok st'"
  by (rule segments_okI [OF assms(3,2)]; use assms segments_okD [OF assms(1)] in simp)

text \<open>The steps that change the segments or the map.\<close>

lemma segments_add:
  assumes "segments_ok st" and "t < length (t_position st)" and "code_step c t st (Add_Segment k) = Some st'"
  shows "segments_ok st'"
proof -
  note ok = segments_okD [OF assms(1)]
  have new: "t_next st \<notin> set (t_segments st)" using ok(8) by blast
  show ?thesis
  proof (rule segments_okI [OF _ assms(2), where p = "Construct (t_next st) (pc_num_blocks c) k"])
    show "visits (t_position st ! u) \<subseteq> set (t_segments st')" if "u < length (t_position st)" for u
      using ok(3) [OF that] assms(3) by (auto simp: Let_def)
    show "constructs (t_position st ! u) \<inter> set (t_map st') = {}" if "u < length (t_position st)" for u
      using ok(4) [OF that] assms(3) by (auto simp: Let_def)
    show "s < t_next st'" if "s \<in> set (t_segments st')" for s
      using ok(8) [of s] that assms(3) by (auto simp: Let_def)
    show "s \<in> set (t_segments st')" if "t_freed_stack st' s \<noteq> []" for s
      using ok(1) [of s] that assms(3) by (auto simp: Let_def split: if_splits)
    show "fst b = s" if "b \<in> set (t_freed_stack st' s)" for s b
      using ok(2) [of b s] that assms(3) by (auto simp: Let_def split: if_splits)
  qed (use assms(3) new ok(5,6,7) in \<open>auto simp: Let_def\<close>)
qed

lemma segments_insert:
  assumes "mutex_ok st" and "segments_ok st" and "t < length (t_position st)"
    and "t_position st ! t = Insert_Segment s k" and "code_step c t st (Insert_Segment s k) = Some st'"
  shows "segments_ok st'"
proof -
  note ok = segments_okD [OF assms(2)]
  have s: "s \<in> set (t_segments st)" "s \<notin> set (t_map st)"
    using ok(3,4) [OF assms(3)] assms(4) by auto
  show ?thesis
  proof (rule segments_okI [OF _ assms(3), where p = "Pop_Loop k"])
    show "visits (t_position st ! u) \<subseteq> set (t_segments st')" if "u < length (t_position st)" for u
      using ok(3) [OF that] assms(5) by auto
    show "constructs (t_position st ! u) \<inter> set (t_map st') = {}"
      if "u < length (t_position st)" "u \<noteq> t" for u
      using only_locked [OF assms(1,3) _ that] constructs_locked [of _ "t_position st ! u"] assms(4) by auto
  qed (use assms(5) s ok in auto)
qed

lemma segments_erase:
  assumes "mutex_ok st" and "segments_ok st" and "erase_ok c st" and "t < length (t_position st)"
    and "t_position st ! t = Erase b" and "code_step c t st (Erase b) = Some st'"
  shows "segments_ok st'"
proof (cases "fst b \<in> set (t_map st)")
  case True
  note ok = segments_okD [OF assms(2)]
  have st': "st' = go t Unlock_Free (st\<lparr>t_map := remove1 (fst b) (t_map st),
      t_segments := remove1 (fst b) (t_segments st), t_freed_stack := (t_freed_stack st)(fst b := [])\<rparr>)"
    using True assms(6) by simp
  show ?thesis
  proof (rule segments_okI [OF _ assms(4), where p = Unlock_Free])
    show "visits (t_position st ! u) \<subseteq> set (t_segments st')" if "u < length (t_position st)" "u \<noteq> t" for u
      using no_visit_when_erased [OF assms(1,3,4,5) that] ok(3) [OF that(1)] ok(6)
      unfolding st' by (auto simp: set_remove1_eq)
    show "constructs (t_position st ! u) \<inter> set (t_map st') = {}" if "u < length (t_position st)" for u
      using ok(4) [OF that] ok(7) unfolding st' by (auto simp: set_remove1_eq)
    show "s \<in> set (t_segments st')" if "t_freed_stack st' s \<noteq> []" for s
      using ok(1) [of s] ok(6) that unfolding st' by (auto simp: set_remove1_eq split: if_splits)
    show "fst a = s" if "a \<in> set (t_freed_stack st' s)" for s a
      using ok(2) [of a s] that unfolding st' by (auto split: if_splits)
  qed (use ok(5,6,7,8) in \<open>auto simp: st' set_remove1_eq\<close>)
next
  case False
  then have "st' = go t Unlock_Free st" using assms(6) by simp
  then show ?thesis
    using segments_okD(1,2) [OF assms(2)] by (auto intro!: segments_moved [OF assms(2,4)])
qed

lemma segments_consume:
  assumes "segments_ok st" and "t < length (t_position st)" and "t_position st ! t = Consume a ss k"
    and "code_step c t st (Consume a ss k) = Some st'"
  shows "segments_ok st'"
proof -
  note ok = segments_okD [OF assms(1)]
  have v: "a \<in> set (t_segments st)" "set ss \<subseteq> set (t_segments st)"
    using ok(3) [OF assms(2)] assms(3) by auto
  show ?thesis
  proof (cases "t_freed_stack st a")
    case Nil
    then have "st' = go t (Subtract a ss k) st" using assms(4) by simp
    then show ?thesis using v ok(1,2) by (auto intro!: segments_moved [OF assms(1,2)])
  next
    case (Cons b bs)
    then have st': "st' = go t (Push_Collected a ss k b) (st\<lparr>t_freed_stack := (t_freed_stack st)(a := bs)\<rparr>)"
      using assms(4) by simp
    have bs: "fst x = a" if "x \<in> set bs" for x using ok(2) [of x a] that Cons by simp
    show ?thesis
    proof (rule segments_moved [OF assms(1,2)])
      show "fst x = s" if "x \<in> set (t_freed_stack st' s)" for s x
        using that bs [of x] ok(2) [of x s] unfolding st' by (auto split: if_splits)
      show "s \<in> set (t_segments st)" if "t_freed_stack st' s \<noteq> []" for s
        using that v(1) ok(1) [of s] unfolding st' by (auto split: if_splits)
    qed (use v in \<open>auto simp: st'\<close>)
  qed
qed

text \<open>A step that uses a destroyed segment does nothing else.\<close>

lemma dangling_step:
  assumes "code_step c t st p = Some st'" and "\<not> t_dangling st" and "t_dangling st'"
  shows "st' = st\<lparr>t_dangling := True\<rparr> \<and> (\<exists>b. (p = Push_Freed b \<or> p = Count_Freed b \<or> p = Check_Empty b
    \<or> p = Check_Locked b) \<and> fst b \<notin> set (t_segments st))"
  using assms by (cases "(c, t, st, p)" rule: code_step.cases)
    (auto simp: pop_free_def on_segment_def Let_def split: if_splits list.splits)

lemma segments_step:
  assumes "threads_ok c st" and "t < length (t_position st)"
    and "code_step c t st (t_position st ! t) = Some st'" and "\<not> t_dangling st'"
  shows "segments_ok st'"
proof -
  have m: "mutex_ok st" and s: "segments_ok st" and p: "places_ok c st" and e: "erase_ok c st"
    using assms(1) by (simp_all add: threads_ok_def)
  note ok = segments_okD [OF s]
  note moved = segments_moved [OF s assms(2)]
  have v: "visits (t_position st ! t) \<subseteq> set (t_segments st)"
    and w: "constructs (t_position st ! t) \<inter> set (t_map st) = {}"
    using ok(3,4) [OF assms(2)] .
  show ?thesis
  proof (cases "t_position st ! t")
    case (Add_Segment k) then show ?thesis using segments_add [OF s assms(2)] assms(3) by simp
  next
    case (Insert_Segment a k) then show ?thesis using segments_insert [OF m s assms(2)] assms(3) by simp
  next
    case (Erase b) then show ?thesis using segments_erase [OF m s e assms(2)] assms(3) by simp
  next
    case (Collect ss)
    then show ?thesis using assms(3) v ok(1,2) by (cases ss) (auto intro!: moved)
  next
    case (Construct a i k)
    then show ?thesis using assms(3) v w ok(1,2) by (cases i) (auto intro!: moved)
  next
    case (Consume a ss k)
    then show ?thesis using segments_consume [OF s assms(2)] assms(3) by simp
  qed (use assms(3,4) v w ok(1,2,5) s in \<open>auto simp: pop_free_def on_segment_def intro!: moved
      split: if_splits list.splits\<close>)
qed

text \<open>A step moves its own thread only.\<close>

lemma list_update_same: "t < length xs \<Longrightarrow> xs = xs[t := x] \<longleftrightarrow> xs ! t = x"
  by (metis list_update_same_conv)

lemma step_position:
  assumes "code_step c t st (t_position st ! t) = Some st'" and "t < length (t_position st)"
  shows "t_position st' = (t_position st)[t := t_position st' ! t]"
  using assms by (cases "(c, t, st, t_position st ! t)" rule: code_step.cases)
    (auto simp: pop_free_def on_segment_def Let_def list_update_same split: if_splits list.splits)

lemma tsum_step:
  assumes "code_step c t st (t_position st ! t) = Some st'" and "t < length (t_position st)"
  shows "tsum f st' + f (t_position st ! t) = tsum f st + f (t_position st' ! t)"
  by (rule tsum_moved [OF step_position [OF assms] assms(2)])

text \<open>Blocks go from one place to another.\<close>

lemma places_erase:
  assumes "places_ok c st" and "segments_ok st" and "erase_ok c st" and "t < length (t_position st)"
    and "t_position st ! t = Erase b" and "code_step c t st (Erase b) = Some st'"
  shows "places_ok c st'"
proof (cases "fst b \<in> set (t_map st)")
  case True
  have st': "st' = go t Unlock_Free (st\<lparr>t_map := remove1 (fst b) (t_map st),
      t_segments := remove1 (fst b) (t_segments st), t_freed_stack := (t_freed_stack st)(fst b := [])\<rparr>)"
    using True assms(6) by simp
  have sum: "tsum (at_hand x) st' = tsum (at_hand x) st" for x
    using tsum_step [of c t st st' "at_hand x"] assms(4-6) unfolding st' by simp
  show ?thesis
    unfolding places_ok_def places_def
  proof
    fix x
    have "count_list (t_free_stack st) x = 0" "count_list (t_held st) x = 0" "tsum (at_hand x) st = 0"
      if "fst x = fst b"
      using freed_full_only [OF assms(1,2), of x] erase_okD(1) [OF assms(3,4,5)] that by simp_all
    then show "count_list (t_free_stack st') x + count_list (t_freed_stack st' (fst x)) x
      + count_list (t_held st') x + tsum (at_hand x) st' = of_bool (is_block c st' x)"
      using one_place [OF assms(1), of x] segments_okD(6) [OF assms(2)]
      unfolding sum by (cases "fst x = fst b") (simp_all add: st' is_block_def set_remove1_eq)
  qed
next
  case False
  then have st': "st' = go t Unlock_Free st" using assms(6) by simp
  have "tsum (at_hand x) st' = tsum (at_hand x) st" for x
    using tsum_step [of c t st st' "at_hand x"] assms(4-6) unfolding st' by simp
  then show ?thesis using assms(1) by (simp add: st' places_ok_def places_def is_block_def)
qed

lemma places_step:
  assumes "threads_ok c st" and "t < length (t_position st)"
    and "code_step c t st (t_position st ! t) = Some st'" and "\<not> t_dangling st'"
  shows "places_ok c st'"
proof -
  have s: "segments_ok st" and p: "places_ok c st" and e: "erase_ok c st"
    using assms(1) by (simp_all add: threads_ok_def)
  show ?thesis
    unfolding places_ok_def places_def
  proof
    fix x
    note moved = tsum_step [OF assms(3,2), of "at_hand x"]
    note one = one_place [OF p, of x]
    show "count_list (t_free_stack st') x + count_list (t_freed_stack st' (fst x)) x + count_list (t_held st') x
      + tsum (at_hand x) st' = of_bool (is_block c st' x)"
    proof (cases "t_position st ! t")
      case (Construct a i k)
      show ?thesis
      proof (cases i)
        case 0
        then show ?thesis using Construct assms(2,3) one moved by (auto simp: is_block_def)
      next
        case (Suc j)
        then have st': "st' = go t (Construct a j k) (st\<lparr>t_free_stack := (a, j) # t_free_stack st\<rparr>)"
          using Construct assms(3) by simp
        have "of_bool (fst x = a \<and> snd x < Suc j) = of_bool (fst x = a \<and> snd x < j) + (of_bool (x = (a, j)) :: nat)"
          by (cases x) (auto simp: less_Suc_eq)
        then have "tsum (at_hand x) st' + of_bool (x = (a, j)) = tsum (at_hand x) st"
          using moved Construct Suc assms(2) unfolding st' by simp
        then show ?thesis using one by (cases "x = (a, j)") (simp_all add: st' is_block_def)
      qed
    next
      case (Collect ss)
      then show ?thesis using assms(2,3) one moved by (cases ss) (auto simp: is_block_def)
    next
      case (Consume a ss k)
      have "fst b = a" if "t_freed_stack st a = b # bs" for b bs
        using segments_okD(2) [OF s, of b a] that by simp
      then show ?thesis
        using Consume assms(2,3) one moved
        by (cases "t_freed_stack st a") (auto simp: is_block_def split: if_splits)
    next
      case (Add_Segment k)
      then have st': "st' = go t (Construct (t_next st) (pc_num_blocks c) k) (st\<lparr>t_next := Suc (t_next st),
          t_segments := t_next st # t_segments st, t_freed_stack := (t_freed_stack st)(t_next st := []),
          t_num_freed := (t_num_freed st)(t_next st := 0)\<rparr>)"
        using assms(3) by (simp add: Let_def)
      have sum: "tsum (at_hand x) st' = tsum (at_hand x) st + of_bool (fst x = t_next st \<and> snd x < pc_num_blocks c)"
        using moved Add_Segment assms(2) unfolding st' by simp
      have new: "t_next st \<notin> set (t_segments st)" using segments_okD(8) [OF s, of "t_next st"] by blast
      show ?thesis
        using one new unfolding sum by (cases "fst x = t_next st") (simp_all add: st' is_block_def)
    next
      case (Erase b)
      show ?thesis
        by (rule one_place [OF places_erase [OF p s e assms(2) Erase assms(3) [unfolded Erase]]])
    next
      case (Push_Freed b)
      show ?thesis
      proof (cases "st' = st")
        case False
        then have st': "st' = go t (Count_Freed b)
            (st\<lparr>t_freed_stack := (t_freed_stack st)(fst b := b # t_freed_stack st (fst b))\<rparr>)"
          using Push_Freed assms(3,4) by (auto simp: on_segment_def split: if_splits)
        have "tsum (at_hand x) st' + of_bool (x = b) = tsum (at_hand x) st"
          using moved Push_Freed assms(2) unfolding st' by simp
        then show ?thesis
          using one by (cases "x = b"; cases "fst x = fst b") (simp_all add: st' is_block_def)
      qed (use one in simp)
    qed (use assms(2,3,4) one moved in \<open>auto simp: is_block_def pop_free_def on_segment_def 
      split: if_splits list.splits\<close>)
  qed
qed

text \<open>The counter of a segment follows its freed stack.\<close>

lemma counts_okD:
  "counts_ok st \<Longrightarrow> s \<in> set (t_segments st) \<Longrightarrow> t_num_freed st s + int (tsum (uncounted s) st)
    = int (length (t_freed_stack st s)) + int (tsum (consumed s) st)"
  by (simp add: counts_ok_def)

lemma nobody_counts:
  assumes "segments_ok st" and "s \<notin> set (t_segments st)"
  shows "tsum (uncounted s) st = 0" and "tsum (consumed s) st = 0"
proof -
  have "uncounted s p = 0 \<and> consumed s p = 0" if "s \<notin> visits p" for p
    using that by (cases p) auto
  then show "tsum (uncounted s) st = 0" and "tsum (consumed s) st = 0"
    unfolding tsum_0 using segments_okD(3) [OF assms(1)] assms(2) by blast+
qed

lemma counts_step:
  assumes "threads_ok c st" and "t < length (t_position st)"
    and "code_step c t st (t_position st ! t) = Some st'" and "\<not> t_dangling st'"
  shows "counts_ok st'"
proof -
  have s: "segments_ok st" and p: "counts_ok st"
    using assms(1) by (simp_all add: threads_ok_def)
  show ?thesis
    unfolding counts_ok_def
  proof
    fix a assume a: "a \<in> set (t_segments st')"
    note moved = tsum_step [OF assms(3,2), of "uncounted a"] tsum_step [OF assms(3,2), of "consumed a"]
    note old = counts_okD [OF p, of a]
    show "t_num_freed st' a + int (tsum (uncounted a) st')
      = int (length (t_freed_stack st' a)) + int (tsum (consumed a) st')"
    proof (cases "t_position st ! t")
      case (Construct b i k)
      then show ?thesis using assms(2,3) a old moved by (cases i) auto
    next
      case (Collect ss)
      then show ?thesis using assms(2,3) a old moved by (cases ss) auto
    next
      case (Add_Segment k)
      then have st': "st' = go t (Construct (t_next st) (pc_num_blocks c) k) (st\<lparr>t_next := Suc (t_next st),
          t_segments := t_next st # t_segments st, t_freed_stack := (t_freed_stack st)(t_next st := []),
          t_num_freed := (t_num_freed st)(t_next st := 0)\<rparr>)"
        using assms(3) by (simp add: Let_def)
      have sums: "tsum (uncounted a) st' = tsum (uncounted a) st" "tsum (consumed a) st' = tsum (consumed a) st"
        using moved Add_Segment assms(2) unfolding st' by simp_all
      have "t_next st \<notin> set (t_segments st)" using segments_okD(8) [OF s, of "t_next st"] by blast
      then show ?thesis
        using a old nobody_counts [OF s, of a] unfolding sums
        by (cases "a = t_next st") (simp_all add: st')
    next
      case (Erase b)
      have sums: "tsum (uncounted a) st' = tsum (uncounted a) st" "tsum (consumed a) st' = tsum (consumed a) st"
        using moved Erase assms(2,3) by auto
      show ?thesis
        using a old segments_okD(6) [OF s] assms(3) unfolding sums Erase
        by (cases "fst b \<in> set (t_map st)") (auto simp: set_remove1_eq)
    next
      case (Push_Freed b)
      then show ?thesis
      proof (cases "st' = st")
        case False
        then have st': "st' = go t (Count_Freed b)
            (st\<lparr>t_freed_stack := (t_freed_stack st)(fst b := b # t_freed_stack st (fst b))\<rparr>)"
          using Push_Freed assms(3,4) by (auto simp: on_segment_def split: if_splits)
        then show ?thesis
          using moved old a assms(2) Push_Freed by (cases "a = fst b") simp_all
      qed (use a old in simp)
    qed (use assms(2,3,4) a old moved in \<open>auto simp: pop_free_def on_segment_def
      split: if_splits list.splits\<close>)
  qed
qed

text \<open>A thread comes to erase a segment when, under the mutex, its counter says all blocks are freed.\<close>

lemma consumed_locked: "0 < consumed s p \<Longrightarrow> locked p"
  by (cases p) auto

lemma full_when_checked:
  assumes "threads_ok c st" and "t < length (t_position st)" and "t_position st ! t = Check_Locked b"
    and "fst b \<in> set (t_segments st)" and "thread_is_empty c st (fst b)"
  shows "length (t_freed_stack st (fst b)) = pc_num_blocks c" and "tsum (uncounted (fst b)) st = 0"
proof -
  have m: "mutex_ok st" and s: "segments_ok st" and p: "places_ok c st" and n: "counts_ok st"
    using assms(1) by (simp_all add: threads_ok_def)
  have "consumed (fst b) (t_position st ! u) = 0" if "u < length (t_position st)" for u
    using only_locked [OF m assms(2) _ that] consumed_locked [of "fst b" "t_position st ! u"] assms(3)
    by (cases "u = t") auto
  then have "tsum (consumed (fst b)) st = 0" by (simp add: tsum_0)
  then have "int (pc_num_blocks c) + int (tsum (uncounted (fst b)) st) = int (length (t_freed_stack st (fst b)))"
    using counts_okD [OF n assms(4)] assms(5) by (simp add: thread_is_empty_def)
  then show "length (t_freed_stack st (fst b)) = pc_num_blocks c" and "tsum (uncounted (fst b)) st = 0"
    using freed_distinct(3) [OF p s, of "fst b"] by linarith+
qed

text \<open>A thread about to erase a segment stays right, whatever the others do.\<close>

lemma erase_step:
  assumes "threads_ok c st" and "t < length (t_position st)"
    and "code_step c t st (t_position st ! t) = Some st'" and "\<not> t_dangling st'"
  shows "erase_ok c st'"
  unfolding erase_ok_def
proof (intro allI impI)
  fix u b assume u: "u < length (t_position st')" and b: "t_position st' ! u = Erase b"
  have m: "mutex_ok st" and s: "segments_ok st" and p: "places_ok c st" and e: "erase_ok c st"
    using assms(1) by (simp_all add: threads_ok_def)
  have u': "u < length (t_position st)" "u \<noteq> t \<Longrightarrow> t_position st ! u = Erase b"
    using u b step_position [OF assms(3,2)] by (metis length_list_update, metis nth_list_update_neq)
  note moved = tsum_step [OF assms(3,2), of "uncounted (fst b)"]
  show "length (t_freed_stack st' (fst b)) = pc_num_blocks c \<and> tsum (uncounted (fst b)) st' = 0"
  proof (cases "u = t")
    case True
    then have "t_position st ! t = Check_Locked b \<and> fst b \<in> set (t_segments st)
        \<and> thread_is_empty c st (fst b) \<and> st' = go t (Erase b) st"
      using b assms(2,3,4) by (cases "(c, t, st, t_position st ! t)" rule: code_step.cases)
        (auto simp: pop_free_def on_segment_def Let_def split: if_splits list.splits)
    then show ?thesis using full_when_checked [OF assms(1,2)] moved assms(2) by auto
  next
    case False
    have full: "length (t_freed_stack st (fst b)) = pc_num_blocks c" "tsum (uncounted (fst b)) st = 0"
      using erase_okD [OF e u'(1) u'(2) [OF False]] by simp_all
    have "\<not> locked (t_position st ! t)"
      using only_locked [OF m u'(1) _ assms(2)] u'(2) False by auto
    then show ?thesis
      using full moved assms(2,3,4)
      by (cases "t_position st ! t") (auto simp: pop_free_def on_segment_def split: if_splits list.splits)
  qed
qed

lemma code_step_ok:
  assumes "threads_ok c st" and "t < length (t_position st)" and "\<not> t_dangling st"
    and "code_step c t st (t_position st ! t) = Some st'"
  shows "threads_ok c st'"
proof (cases "t_dangling st'")
  case True
  then show ?thesis using dangling_step [OF assms(4,3)] assms(1) by simp
next
  case False
  have "mutex_ok st" using assms(1) by (simp add: threads_ok_def)
  then show ?thesis
    unfolding threads_ok_def
    using mutex_step [OF _ assms(2,4)] segments_step [OF assms(1,2,4) False]
      places_step [OF assms(1,2,4) False] counts_step [OF assms(1,2,4) False] erase_step [OF assms(1,2,4) False]
    by blast
qed

text \<open>A call, or an exception out of \<open>add_segment\<close>: a thread goes on, and at most a block changes hands.\<close>

lemma call_ok:
  assumes "threads_ok c st" and "t < length (t_position st)" and "st' = go t p (st\<lparr>t_held := h\<rparr>)"
    and "\<And>x. count_list h x + at_hand x p = count_list (t_held st) x + at_hand x (t_position st ! t)"
    and "\<And>s. uncounted s p = uncounted s (t_position st ! t)" and "\<And>s. consumed s p = consumed s (t_position st ! t)"
    and "visits p = {}" and "constructs p = {}" and "locked p \<longrightarrow> locked (t_position st ! t)" and "\<And>b. p \<noteq> Erase b"
  shows "threads_ok c st'"
proof -
  have m: "mutex_ok st" and s: "segments_ok st" and pl: "places_ok c st" and n: "counts_ok st" and e: "erase_ok c st"
    using assms(1) by (simp_all add: threads_ok_def)
  note moved = tsum_moved [of st' st t p, OF _ assms(2)]
  have pos: "t_position st' = (t_position st)[t := p]" using assms(3) by simp
  have sums: "tsum (uncounted a) st' = tsum (uncounted a) st" "tsum (consumed a) st' = tsum (consumed a) st" for a
    using moved [OF pos, of "uncounted a"] moved [OF pos, of "consumed a"] assms(5,6) by simp_all
  have "mutex_ok st'"
    using m assms(2,3,9) by (auto simp: mutex_ok_def nth_list_update)
  moreover have "segments_ok st'"
    using assms(3,7,8) segments_okD(1,2) [OF s] by (intro segments_moved [OF s assms(2) pos]) auto
  moreover have "places_ok c st'"
    unfolding places_ok_def places_def
  proof
    fix x
    show "count_list (t_free_stack st') x + count_list (t_freed_stack st' (fst x)) x + count_list (t_held st') x
      + tsum (at_hand x) st' = of_bool (is_block c st' x)"
      using one_place [OF pl, of x] moved [OF pos, of "at_hand x"] assms(3) assms(4) [of x] by (simp add: is_block_def)
  qed
  moreover have "counts_ok st'"
    unfolding counts_ok_def sums using n assms(3) by (simp add: counts_ok_def)
  moreover have "erase_ok c st'"
    unfolding erase_ok_def
  proof (intro allI impI)
    fix u b assume u: "u < length (t_position st')" and b: "t_position st' ! u = Erase b"
    then have "u < length (t_position st)" "t_position st ! u = Erase b"
      using assms(2) assms(10) [of b] by (cases "u = t"; simp add: pos)+
    from erase_okD [OF e this] show "length (t_freed_stack st' (fst b)) = pc_num_blocks c \<and> tsum (uncounted (fst b)) st' = 0"
      unfolding sums using assms(3) by simp
  qed
  ultimately show ?thesis by (simp add: threads_ok_def)
qed

lemma remove1_count: "b \<in> set xs \<Longrightarrow> count_list (remove1 b xs) x + of_bool (x = b) = count_list xs x"
  by (induction xs) auto

text \<open>What a thread does, and that it can.\<close>

lemma thread_step_possible:
  "thread_step c t a st = Some st' \<Longrightarrow> \<not> t_dangling st \<and> t < length (t_position st)"
  by (auto simp: thread_step.simps split: if_splits)

lemma throws_at: "throws p \<Longrightarrow> \<exists>k. p = Add_Segment k \<or> p = Pop_Loop k"
  by (cases p) simp_all

lemma thread_step_cases:
  assumes "thread_step c t a st = Some st'"
  obtains (allocate) "a = Call_Allocate" "t_position st ! t = Outside" "st' = go t Pop_First st"
    | (free) b where "a = Call_Free b" "t_position st ! t = Outside" "b \<in> set (t_held st)"
        "st' = go t (Push_Freed b) (st\<lparr>t_held := remove1 b (t_held st)\<rparr>)"
    | (code) "a = Step" "code_step c t st (t_position st ! t) = Some st'"
    | (throw) k where "a = Throw" "t_position st ! t = Add_Segment k \<or> t_position st ! t = Pop_Loop k"
        "st' = go t Left_Locked st"
  using assms throws_at by (cases a) (auto simp: thread_step.simps split: if_splits)

lemma thread_step_ok:
  assumes "threads_ok c st" and "thread_step c t a st = Some st'"
  shows "threads_ok c st'"
proof -
  have d: "\<not> t_dangling st" and t: "t < length (t_position st)"
    using thread_step_possible [OF assms(2)] by simp_all
  from assms(2) show ?thesis
  proof (cases rule: thread_step_cases)
    case allocate
    then show ?thesis by (intro call_ok [OF assms(1) t, where h = "t_held st" and p = Pop_First]) simp_all
  next
    case (free b)
    then show ?thesis
      by (intro call_ok [OF assms(1) t, where h = "remove1 b (t_held st)" and p = "Push_Freed b"])
        (use remove1_count [of b "t_held st"] in simp_all)
  next
    case code
    show ?thesis by (rule code_step_ok [OF assms(1) t d code(2)])
  next
    case (throw k)
    then show ?thesis by (intro call_ok [OF assms(1) t, where h = "t_held st" and p = Left_Locked]) auto
  qed
qed

lemma reachable_ok: "reachable c n st \<Longrightarrow> threads_ok c st"
  by (induction rule: reachable.induct) (simp_all add: initial_threads_ok thread_step_ok)

end
