(* ===== verification/Threads_Properties.thy ===== *)
theory Threads_Properties
  imports Threads_Invariant
begin

text \<open>
  What threads that share a pool can rely on, and where the pool lets them down: the use of a segment
  that another thread has erased, and the mutex that an exception leaves locked.
\<close>


section \<open>What threads can rely on\<close>

lemma held_distinct:
  assumes "threads_ok c st"
  shows "distinct (t_held st)"
proof (rule count_list_distinct)
  fix x
  have p: "places_ok c st" using assms by (simp add: threads_ok_def)
  show "count_list (t_held st) x \<le> 1" using one_place [OF p, of x] by (cases "is_block c st x") auto
qed

text \<open>
  C4: However threads interleave, the blocks their users hold are different, belong to segments that
  exist, and are on no stack: no block is handed out twice and no segment erased under a user.
\<close>

lemma pool_threads_safe:
  assumes "reachable c n st"
  shows "distinct (t_held st) \<and> (\<forall>b \<in> set (t_held st). fst b \<in> set (t_segments st)
    \<and> snd b < pc_num_blocks c \<and> b \<notin> set (t_free_stack st) \<and> b \<notin> set (t_freed_stack st (fst b)))"
proof -
  have p: "places_ok c st" using reachable_ok [OF assms] by (simp add: threads_ok_def)
  have "distinct (t_held st)" by (rule held_distinct [OF reachable_ok [OF assms]])
  moreover have "fst b \<in> set (t_segments st) \<and> snd b < pc_num_blocks c
      \<and> b \<notin> set (t_free_stack st) \<and> b \<notin> set (t_freed_stack st (fst b))" if "b \<in> set (t_held st)" for b
  proof -
    have "count_list (t_held st) b \<noteq> 0" using that by (simp add: count_list_0_iff)
    then have "is_block c st b \<and> count_list (t_free_stack st) b = 0 \<and> count_list (t_freed_stack st (fst b)) b = 0"
      using one_place [OF p, of b] by (cases "is_block c st b") auto
    then show ?thesis by (simp add: is_block_def count_list_0_iff)
  qed
  ultimately show ?thesis by blast
qed

text \<open>The pushing and the counting of \<open>free\<close> work on a segment that exists.\<close>

lemma step_at_hand:
  assumes "threads_ok c st" and "thread_step c t a st = Some st'" and "t_dangling st'"
  shows "a = Step \<and> (\<exists>b. t_position st ! t = Check_Empty b \<or> t_position st ! t = Check_Locked b)"
proof -
  have d: "\<not> t_dangling st" and t: "t < length (t_position st)"
    using thread_step_possible [OF assms(2)] by simp_all
  have a: "a = Step" and step: "code_step c t st (t_position st ! t) = Some st'"
    using assms(2) by (cases rule: thread_step_cases; use d assms(3) in simp)+
  have s: "segments_ok st" and p: "places_ok c st" using assms(1) by (simp_all add: threads_ok_def)
  obtain b where b: "t_position st ! t = Push_Freed b \<or> t_position st ! t = Count_Freed b
      \<or> t_position st ! t = Check_Empty b \<or> t_position st ! t = Check_Locked b" "fst b \<notin> set (t_segments st)"
    using dangling_step [OF step d assms(3)] by blast
  have "t_position st ! t \<noteq> Push_Freed b"
    using is_block_at_hand [OF p t, of b] b(2) by (auto simp: is_block_def)
  moreover have "t_position st ! t \<noteq> Count_Freed b"
    using segments_okD(3) [OF s t] b(2) by auto
  ultimately show ?thesis using a b(1) by blast
qed

text \<open>With \<open>never_free\<close> no thread gets to look at a segment again.\<close>

fun may_free :: "position \<Rightarrow> bool" where
  "may_free (Check_Empty b) = True"
| "may_free (Lock_Free b) = True"
| "may_free (Check_Locked b) = True"
| "may_free (Erase b) = True"
| "may_free Unlock_Free = True"
| "may_free _ = False"

lemma set_positions: "q \<in> set ((t_position st)[t := p]) \<Longrightarrow> q = p \<or> q \<in> set (t_position st)"
  using set_update_subset_insert by fastforce

lemma never_free_code:
  assumes "pc_never_free c" and "\<forall>q \<in> set (t_position st). \<not> may_free q" and "t < length (t_position st)"
    and "code_step c t st (t_position st ! t) = Some st'"
  shows "\<forall>q \<in> set (t_position st'). \<not> may_free q"
proof -
  define p where "p = t_position st ! t"
  have p: "\<not> may_free p" "code_step c t st p = Some st'"
    using assms(2-4) by (simp_all add: p_def)
  then show ?thesis
    using assms(1,2) by (cases "(c, t, st, p)" rule: code_step.cases)
      (auto simp: pop_free_def on_segment_def Let_def dest!: set_positions split: if_splits list.splits)
qed

lemma never_free_step:
  assumes "pc_never_free c" and "\<forall>q \<in> set (t_position st). \<not> may_free q"
    and "thread_step c t a st = Some st'"
  shows "\<forall>q \<in> set (t_position st'). \<not> may_free q"
  using assms(3)
proof (cases rule: thread_step_cases)
  case code
  then show ?thesis using never_free_code [OF assms(1,2)] thread_step_possible [OF assms(3)] by blast
qed (use assms(2) in \<open>auto dest!: set_positions\<close>)

lemma never_free_positions:
  "reachable c n st \<Longrightarrow> pc_never_free c \<Longrightarrow> \<forall>q \<in> set (t_position st). \<not> may_free q"
proof (induction rule: reachable.induct)
  case (step st t a st')
  then show ?case using never_free_step [OF step.prems step.IH [OF step.prems] step.hyps(2)] by blast
qed (simp add: initial_threads_def)

lemma pool_threads_dangling_steps:
  assumes "reachable c n st" and "thread_step c t a st = Some st'" and "t_dangling st'"
  shows "a = Step \<and> (\<exists>b. t_position st ! t = Check_Empty b \<or> t_position st ! t = Check_Locked b)
    \<and> \<not> pc_never_free c"
proof -
  have at: "a = Step \<and> (\<exists>b. t_position st ! t = Check_Empty b \<or> t_position st ! t = Check_Locked b)"
    by (rule step_at_hand [OF reachable_ok [OF assms(1)] assms(2,3)])
  then have "may_free (t_position st ! t)" by auto
  then have "\<not> pc_never_free c"
    using never_free_positions [OF assms(1)] thread_step_possible [OF assms(2)] by auto
  then show ?thesis using at by blast
qed

text \<open>
  C19: In a pool that never frees its segments no thread uses a destroyed one, however they interleave.
\<close>

lemma pool_threads_never_free_safe: "reachable c n st \<Longrightarrow> pc_never_free c \<Longrightarrow> \<not> t_dangling st"
proof (induction rule: reachable.induct)
  case (step st t a st')
  then show ?case using pool_threads_dangling_steps [OF step.hyps] by blast
qed (simp add: initial_threads_def)

text \<open>The mutex is always held by a thread that is under it.\<close>

lemma holder_step:
  assumes "\<forall>u. t_mutex st = Some u \<longrightarrow> u < length (t_position st) \<and> locked (t_position st ! u)"
    and "mutex_ok st" and "t < length (t_position st)" and "code_step c t st (t_position st ! t) = Some st'"
  shows "\<forall>u. t_mutex st' = Some u \<longrightarrow> u < length (t_position st') \<and> locked (t_position st' ! u)"
proof -
  have "locked (t_position st ! t) \<longrightarrow> t_mutex st = Some t"
    using assms(2,3) by (simp add: mutex_ok_def)
  then show ?thesis
    using assms(1,3,4) by (cases "(c, t, st, t_position st ! t)" rule: code_step.cases)
      (auto simp: pop_free_def on_segment_def Let_def nth_list_update split: if_splits list.splits)
qed

lemma holder:
  assumes "reachable c n st" and "t_mutex st = Some u"
  shows "u < length (t_position st) \<and> locked (t_position st ! u)"
proof -
  have "\<forall>u. t_mutex st = Some u \<longrightarrow> u < length (t_position st) \<and> locked (t_position st ! u)"
    using assms(1)
  proof (induction rule: reachable.induct)
    case (step st t a st')
    have m: "mutex_ok st" using reachable_ok [OF step.hyps(1)] by (simp add: threads_ok_def)
    have t: "t < length (t_position st)" using thread_step_possible [OF step.hyps(2)] by simp
    from step.hyps(2) show ?case
    proof (cases rule: thread_step_cases)
      case code
      show ?thesis by (rule holder_step [OF step.IH m t code(2)])
    qed (use step.IH t in \<open>auto simp: nth_list_update\<close>)
  qed (simp add: initial_threads_def)
  then show ?thesis using assms(2) by blast
qed

lemma code_step_some:
  assumes "p \<noteq> Outside" and "p \<noteq> Left_Locked" and "p = Lock_Allocate \<or> (\<exists>b. p = Lock_Free b) \<Longrightarrow> t_mutex st = None"
  shows "code_step c t st p \<noteq> None"
  using assms by (cases "(c, t, st, p)" rule: code_step.cases) (auto simp: Let_def split: list.splits)

text \<open>A thread that pushes to a freed stack never finds it full.\<close>

lemma freed_not_full:
  assumes "threads_ok c st" and "t < length (t_position st)" and "t_position st ! t = Push_Freed b"
  shows "length (t_freed_stack st (fst b)) < pc_num_blocks c"
proof -
  have s: "segments_ok st" and p: "places_ok c st" using assms(1) by (simp_all add: threads_ok_def)
  have "tsum (at_hand b) st \<noteq> 0" using tsum_member [OF assms(2), of "at_hand b"] assms(3) by simp
  then have "length (t_freed_stack st (fst b)) \<noteq> pc_num_blocks c"
    using freed_full_only(3) [OF p s, of b] by auto
  then show ?thesis using freed_distinct(3) [OF p s, of "fst b"] by linarith
qed

lemma step_changes:
  assumes "threads_ok c st" and "t < length (t_position st)" and "\<not> t_dangling st"
    and "code_step c t st (t_position st ! t) = Some st'"
  shows "st' \<noteq> st"
proof (cases "t_dangling st'")
  case False
  have full: "length (t_freed_stack st (fst b)) < pc_num_blocks c" if "t_position st ! t = Push_Freed b" for b
    by (rule freed_not_full [OF assms(1,2) that])
  have "t_position st' ! t \<noteq> t_position st ! t"
    using assms(2,4) False full by (cases "(c, t, st, t_position st ! t)" rule: code_step.cases)
      (auto simp: pop_free_def on_segment_def Let_def split: if_splits list.splits)
  then show ?thesis by auto
qed (use assms(3) in auto)

text \<open>
  C18: While no exception left the mutex locked, some thread that is in a call can go on, and its step is
  not a try that failed.
\<close>

lemma pool_threads_progress:
  assumes "reachable c n st" and "\<not> t_dangling st" and "Left_Locked \<notin> set (t_position st)"
    and "t < length (t_position st)" and "t_position st ! t \<noteq> Outside"
  shows "\<exists>u st'. thread_step c u Step st = Some st' \<and> st' \<noteq> st"
proof -
  obtain u where u: "u < length (t_position st)" "t_position st ! u \<noteq> Outside"
    "locked (t_position st ! u) \<or> t_mutex st = None"
  proof (cases "t_mutex st")
    case (Some u)
    from holder [OF assms(1) this] show ?thesis by (intro that [of u]) auto
  qed (use that assms(4,5) in blast)
  have "t_position st ! u \<noteq> Left_Locked" using assms(3) u(1) by (metis nth_mem)
  then obtain st' where step: "code_step c u st (t_position st ! u) = Some st'"
    using code_step_some [OF u(2)] u(3) by fastforce
  then have "thread_step c u Step st = Some st'"
    using assms(2) u(1) by (simp add: thread_step.simps)
  then show ?thesis
    using step_changes [OF reachable_ok [OF assms(1)] u(1) assms(2) step] by blast
qed

text \<open>A thread that left with an exception stays where it is.\<close>

lemma left_locked_step:
  assumes "mutex_ok st" and "t < length (t_position st)" and "t_position st ! t = Left_Locked"
    and "thread_step c u a st = Some st'"
  shows "t < length (t_position st') \<and> t_position st' ! t = Left_Locked"
proof -
  have "u \<noteq> t \<or> \<not> (a = Step \<or> a = Throw \<or> a = Call_Allocate \<or> (\<exists>b. a = Call_Free b))"
    using assms(3,4) by (cases rule: thread_step_cases [OF assms(4)]) auto
  then have ut: "u \<noteq> t" by (cases a) auto
  have u: "u < length (t_position st)" using thread_step_possible [OF assms(4)] by simp
  from assms(4) show ?thesis
  proof (cases rule: thread_step_cases)
    case code
    then show ?thesis using step_position [OF code(2) u] assms(2,3) ut
      by (metis length_list_update nth_list_update_neq)
  qed (use assms(2,3) ut in auto)
qed

text \<open>
  After an exception out of \<open>add_segment\<close> the mutex is held by the thread that left, whatever the
  threads do from then on.
\<close>

lemma pool_threads_left_locked:
  assumes "reachable c n st" and "t < length (t_position st)" and "t_position st ! t = Left_Locked"
    and "interleave c as st = Some st'"
  shows "t_mutex st' = Some t"
  using assms
proof (induction as arbitrary: st)
  case Nil
  then show ?case using reachable_ok [OF Nil.prems(1)] by (auto simp: threads_ok_def mutex_ok_def)
next
  case (Cons a as)
  then obtain s where s: "thread_step c (fst a) (snd a) st = Some s" "interleave c as s = Some st'"
    by (cases a) (auto simp: bind_eq_Some_conv)
  have "mutex_ok st" using reachable_ok [OF Cons.prems(1)] by (simp add: threads_ok_def)
  from left_locked_step [OF this Cons.prems(2,3) s(1)] show ?case
    using Cons.IH [OF reachable.step [OF Cons.prems(1) s(1)]] s(2) by blast
qed


section \<open>A run\<close>

text \<open>
  A pool with segments of two blocks, one of which it keeps, and two threads. The first takes three
  blocks, so there are two segments. It gives one back and stops after counting it. The second gives
  back the other block of that segment and erases the segment.
\<close>

definition two_blocks :: "bool \<Rightarrow> pool_config" where
  "two_blocks keep = \<lparr>pc_num_blocks = 2, pc_never_free = keep, pc_num_reserve_segments = 1\<rparr>"

definition steps :: "nat \<Rightarrow> nat \<Rightarrow> (nat \<times> action) list" where
  "steps t k = replicate k (t, Step)"

definition three_taken :: "(nat \<times> action) list" where
  "three_taken = (0, Call_Allocate) # steps 0 13 @ (0, Call_Allocate) # steps 0 1 @ (0, Call_Allocate) # steps 0 16"

definition counted :: "(nat \<times> action) list" where
  "counted = (0, Call_Free (0, 0)) # steps 0 2"


lemma interleave_append: "interleave c (as @ bs) st = Option.bind (interleave c as st) (interleave c bs)"
proof (induction as arbitrary: st)
  case (Cons a as)
  then show ?case by (cases a; cases "thread_step c (fst a) (snd a) st") simp_all
qed simp

lemmas run_defs = two_blocks_def steps_def numeral_nat replicate_Suc thread_step.simps pop_free_def
  on_segment_def thread_is_empty_def go_def initial_threads_def Let_def

definition state_after :: "bool \<Rightarrow> (nat \<times> action) list \<Rightarrow> threads" where
  "state_after keep as = the (interleave (two_blocks keep) as (initial_threads 2))"

lemma state_after_reachable:
  "interleave (two_blocks keep) as (initial_threads 2) \<noteq> None \<Longrightarrow> reachable (two_blocks keep) 2 (state_after keep as)"
  unfolding state_after_def using interleave_reachable [OF reachable.start] by (metis option.collapse)

lemma three_taken_run:
  "interleave (two_blocks keep) three_taken (initial_threads 2) \<noteq> None"
  "t_held (state_after keep three_taken) = [(1, 0), (0, 1), (0, 0)]"
  "t_segments (state_after keep three_taken) = [1, 0]" "t_free_stack (state_after keep three_taken) = [(1, 1)]"
  unfolding state_after_def three_taken_def by (simp_all add: run_defs)

lemma counted_run:
  "interleave (two_blocks False) (three_taken @ counted) (initial_threads 2) \<noteq> None"
  "t_dangling (state_after False (three_taken @ counted)) = False"
  "t_position (state_after False (three_taken @ counted)) = [Check_Empty (0, 0), Outside]"
  unfolding state_after_def three_taken_def counted_def by (simp_all add: run_defs)

lemma left_run:
  "interleave (two_blocks False) ((0, Call_Allocate) # steps 0 6 @ [(0, Throw)]) (initial_threads 2) \<noteq> None"
  "t_position (state_after False ((0, Call_Allocate) # steps 0 6 @ [(0, Throw)])) = [Left_Locked, Outside]"
  "\<exists>st. interleave (two_blocks False) [(1, Call_Allocate), (1, Step)]
    (state_after False ((0, Call_Allocate) # steps 0 6 @ [(0, Throw)])) = Some st"
  unfolding state_after_def by (simp_all add: run_defs)


text \<open>Threads that are safe, that go on, and that an exception stops.\<close>

lemma pool_threads_safe_witness:
  "distinct (t_held (state_after False three_taken)) \<and> (0, 1) \<in> set (t_held (state_after False three_taken))
    \<and> (0, 1) \<notin> set (t_free_stack (state_after False three_taken))"
  using pool_threads_safe [OF state_after_reachable [OF three_taken_run(1)], of False] three_taken_run(2) by simp

lemma pool_threads_never_free_safe_witness:
  "\<not> t_dangling (state_after True three_taken)"
  by (rule pool_threads_never_free_safe [OF state_after_reachable [OF three_taken_run(1)]]) (simp add: two_blocks_def)

lemma pool_threads_progress_witness:
  "\<exists>u st'. thread_step (two_blocks False) u Step (state_after False (three_taken @ counted)) = Some st'
    \<and> st' \<noteq> state_after False (three_taken @ counted)"
  by (rule pool_threads_progress [OF state_after_reachable [OF counted_run(1)], of 0]) (simp_all add: counted_run)

lemma pool_threads_left_locked_witness:
  "\<exists>st. interleave (two_blocks False) [(1, Call_Allocate), (1, Step)]
      (state_after False ((0, Call_Allocate) # steps 0 6 @ [(0, Throw)])) = Some st \<and> t_mutex st = Some 0"
proof -
  obtain st where st: "interleave (two_blocks False) [(1, Call_Allocate), (1, Step)]
      (state_after False ((0, Call_Allocate) # steps 0 6 @ [(0, Throw)])) = Some st"
    using left_run(3) by blast
  have "t_mutex st = Some 0"
    by (rule pool_threads_left_locked [OF state_after_reachable [OF left_run(1)] _ _ st]) (simp_all add: left_run(2))
  then show ?thesis using st by blast
qed

end
