(* ===== verification/Threads_Alone.thy ===== *)
theory Threads_Alone
  imports Threads_Properties
begin

text \<open>
  What the steps of \<open>Pool_Threads\<close> amount to when one thread takes them all: consuming the freed stacks,
  constructing a segment, the parts of \<open>allocate\<close> and of \<open>free\<close>.
\<close>

section \<open>A thread alone\<close>

inductive alone :: "pool_config \<Rightarrow> nat \<Rightarrow> threads \<Rightarrow> threads \<Rightarrow> bool" for c t where
  stay: "alone c t st st"
| go_on: "thread_step c t Step st = Some st1 \<Longrightarrow> alone c t st1 st2 \<Longrightarrow> alone c t st st2"

lemma alone_trans: "alone c t st st1 \<Longrightarrow> alone c t st1 st2 \<Longrightarrow> alone c t st st2"
  by (induction rule: alone.induct) (auto intro: alone.intros)

lemma alone_run: "alone c t st st' \<Longrightarrow> \<exists>k. interleave c (steps t k) st = Some st'"
proof (induction rule: alone.induct)
  case (stay st)
  show ?case by (rule exI [of _ 0]) (simp add: steps_def)
next
  case (go_on st st1 st2)
  then obtain k where "interleave c (steps t k) st1 = Some st2" by blast
  then show ?case using go_on.hyps(1) by (intro exI [of _ "Suc k"]) (simp add: steps_def)
qed

definition ready :: "nat \<Rightarrow> threads \<Rightarrow> bool" where
  "ready t st \<longleftrightarrow> t < length (t_position st) \<and> \<not> t_dangling st"

lemma ready_go [simp]: "ready t (go t q st) = ready t st"
  by (simp add: ready_def go_def)

lemma alone_step:
  assumes "ready t st" and "code_step c t (go t q st) q = Some st1" and "alone c t st1 st2"
  shows "alone c t (go t q st) st2"
  by (rule go_on [OF _ assms(3)]) (use assms(1,2) in \<open>simp add: thread_step.simps ready_def go_def\<close>)

text \<open>Consuming the freed stack of a segment, and collecting from several segments.\<close>

definition emptied :: "nat \<Rightarrow> threads \<Rightarrow> threads" where
  "emptied s st = st\<lparr>t_free_stack := rev (t_freed_stack st s) @ t_free_stack st,
     t_freed_stack := (t_freed_stack st)(s := []),
     t_num_freed := (t_num_freed st)(s := t_num_freed st s - int (length (t_freed_stack st s)))\<rparr>"

lemma alone_consume:
  assumes "ready t st"
  shows "alone c t (go t (Consume s ss k) st)
    (go t (Subtract s ss (k + length (t_freed_stack st s)))
      (st\<lparr>t_free_stack := rev (t_freed_stack st s) @ t_free_stack st, t_freed_stack := (t_freed_stack st)(s := [])\<rparr>))"
  using assms
proof (induction "t_freed_stack st s" arbitrary: st k)
  case Nil
  then have "t_freed_stack st s = []" by simp
  then show ?case
    by (intro alone_step [OF Nil(2) _ alone.stay]) (simp add: go_def fun_upd_idem)
next
  case (Cons b bs)
  let ?st1 = "st\<lparr>t_freed_stack := (t_freed_stack st)(s := bs)\<rparr>"
  let ?st2 = "st\<lparr>t_free_stack := b # t_free_stack st, t_freed_stack := (t_freed_stack st)(s := bs)\<rparr>"
  have b: "t_freed_stack st s = b # bs" using Cons(2) by simp
  have r: "ready t ?st1" "ready t ?st2" using Cons.prems by (simp_all add: ready_def)
  have "alone c t (go t (Consume s ss (Suc k)) ?st2)
      (go t (Subtract s ss (Suc k + length bs)) (?st2\<lparr>t_free_stack := rev bs @ b # t_free_stack st,
         t_freed_stack := (t_freed_stack st)(s := [])\<rparr>))"
    using Cons(1) [of ?st2 "Suc k"] r(2) by simp
  then have "alone c t (go t (Push_Collected s ss k b) ?st1)
      (go t (Subtract s ss (Suc k + length bs)) (?st2\<lparr>t_free_stack := rev bs @ b # t_free_stack st,
         t_freed_stack := (t_freed_stack st)(s := [])\<rparr>))"
    by (rule alone_step [OF r(1), rotated]) (simp add: go_def)
  then have "alone c t (go t (Consume s ss k) st)
      (go t (Subtract s ss (Suc k + length bs)) (?st2\<lparr>t_free_stack := rev bs @ b # t_free_stack st,
         t_freed_stack := (t_freed_stack st)(s := [])\<rparr>))"
    by (rule alone_step [OF Cons.prems, rotated]) (simp add: b go_def)
  then show ?case by (simp add: b)
qed

lemma alone_collect_one:
  assumes "ready t st"
  shows "alone c t (go t (Collect (s # ss)) st) (go t (Collect ss) (emptied s st))"
proof -
  let ?k = "length (t_freed_stack st s)"
  let ?st1 = "st\<lparr>t_free_stack := rev (t_freed_stack st s) @ t_free_stack st, t_freed_stack := (t_freed_stack st)(s := [])\<rparr>"
  have r: "ready t ?st1" using assms by (simp add: ready_def)
  have "alone c t (go t (Subtract s ss ?k) ?st1) (go t (Collect ss) (emptied s st))"
    by (rule alone_step [OF r _ alone.stay]) (simp add: go_def emptied_def)
  then have "alone c t (go t (Consume s ss 0) st) (go t (Collect ss) (emptied s st))"
    using alone_trans [OF alone_consume [OF assms, of c s ss 0]] by simp
  then show ?thesis by (rule alone_step [OF assms, rotated]) (simp add: go_def)
qed

lemma ready_emptied [simp]: "ready t (emptied s st) = ready t st"
  by (simp add: ready_def emptied_def)

lemma alone_collect:
  "ready t st \<Longrightarrow> alone c t (go t (Collect ss) st) (go t Pop_Collected (fold emptied ss st))"
proof (induction ss arbitrary: st)
  case Nil
  show ?case by (rule alone_step [OF Nil _ alone.stay]) (simp add: go_def)
next
  case (Cons s ss)
  have "alone c t (go t (Collect ss) (emptied s st)) (go t Pop_Collected (fold emptied (s # ss) st))"
    using Cons.IH [of "emptied s st"] Cons.prems by simp
  then show ?case by (rule alone_trans [OF alone_collect_one [OF Cons.prems]])
qed

text \<open>The constructor of a segment pushes its blocks.\<close>

lemma alone_construct:
  "ready t st \<Longrightarrow> alone c t (go t (Construct s n k) st)
     (go t (Insert_Segment s k) (st\<lparr>t_free_stack := map (Pair s) [0 ..< n] @ t_free_stack st\<rparr>))"
proof (induction n arbitrary: st)
  case 0
  show ?case by (rule alone_step [OF 0 _ alone.stay]) (simp add: go_def)
next
  case (Suc n)
  let ?st1 = "st\<lparr>t_free_stack := (s, n) # t_free_stack st\<rparr>"
  have "ready t ?st1" using Suc.prems by (simp add: ready_def)
  from Suc.IH [OF this] have "alone c t (go t (Construct s n k) ?st1)
      (go t (Insert_Segment s k) (st\<lparr>t_free_stack := map (Pair s) [0 ..< Suc n] @ t_free_stack st\<rparr>))" by simp
  then show ?case by (rule alone_step [OF Suc.prems, rotated]) (simp add: go_def)
qed

text \<open>A new segment: its blocks on the free stack, itself in the map.\<close>

definition with_segment :: "pool_config \<Rightarrow> threads \<Rightarrow> threads" where
  "with_segment c st = (let s = t_next st in
     st\<lparr>t_free_stack := map (Pair s) [0 ..< pc_num_blocks c] @ t_free_stack st, t_segments := s # t_segments st,
        t_freed_stack := (t_freed_stack st)(s := []), t_num_freed := (t_num_freed st)(s := 0),
        t_map := s # t_map st, t_next := Suc s\<rparr>)"

lemma alone_add_segment:
  assumes "ready t st"
  shows "alone c t (go t (Add_Segment k) st) (go t (Pop_Loop k) (with_segment c st))"
proof -
  let ?s = "t_next st" and ?n = "pc_num_blocks c"
  let ?st1 = "st\<lparr>t_next := Suc ?s, t_segments := ?s # t_segments st,
      t_freed_stack := (t_freed_stack st)(?s := []), t_num_freed := (t_num_freed st)(?s := 0)\<rparr>"
  let ?st2 = "?st1\<lparr>t_free_stack := map (Pair ?s) [0 ..< ?n] @ t_free_stack st\<rparr>"
  have r: "ready t ?st1" "ready t ?st2" using assms by (simp_all add: ready_def)
  have "alone c t (go t (Insert_Segment ?s k) ?st2) (go t (Pop_Loop k) (with_segment c st))"
    by (rule alone_step [OF r(2) _ alone.stay]) (simp add: go_def with_segment_def Let_def)
  then have "alone c t (go t (Construct ?s ?n k) ?st1) (go t (Pop_Loop k) (with_segment c st))"
    using alone_trans [OF alone_construct [OF r(1), of c ?s ?n k]] by simp
  then show ?thesis by (rule alone_step [OF assms, rotated]) (simp add: go_def Let_def)
qed

lemma interleave_alone:
  assumes "thread_step c t a st = Some st1" and "alone c t st1 st2"
  obtains k where "interleave c ((t, a) # steps t k) st = Some st2"
  using alone_run [OF assms(2)] assms(1) by auto

lemma emptied_simps [simp]:
  "t_free_stack (emptied s st) = rev (t_freed_stack st s) @ t_free_stack st"
  "t_freed_stack (emptied s st) = (t_freed_stack st)(s := [])"
  "t_num_freed (emptied s st) = (t_num_freed st)(s := t_num_freed st s - int (length (t_freed_stack st s)))"
  "t_next (emptied s st) = t_next st" "t_map (emptied s st) = t_map st"
  "t_segments (emptied s st) = t_segments st" "t_mutex (emptied s st) = t_mutex st"
  "t_held (emptied s st) = t_held st" "t_position (emptied s st) = t_position st"
  "t_dangling (emptied s st) = t_dangling st"
  by (simp_all add: emptied_def)

lemma fold_emptied_simps [simp]:
  "t_next (fold emptied ss st) = t_next st" "t_map (fold emptied ss st) = t_map st"
  "t_segments (fold emptied ss st) = t_segments st" "t_mutex (fold emptied ss st) = t_mutex st"
  "t_held (fold emptied ss st) = t_held st" "t_position (fold emptied ss st) = t_position st"
  "t_dangling (fold emptied ss st) = t_dangling st"
  by (induction ss arbitrary: st) simp_all

lemma fold_emptied_other:
  "s \<notin> set ss \<Longrightarrow> t_freed_stack (fold emptied ss st) s = t_freed_stack st s
    \<and> t_num_freed (fold emptied ss st) s = t_num_freed st s"
  by (induction ss arbitrary: st) simp_all

lemma with_segment_simps [simp]:
  "t_held (with_segment c st) = t_held st" "t_position (with_segment c st) = t_position st"
  "t_dangling (with_segment c st) = t_dangling st" "t_mutex (with_segment c st) = t_mutex st"
  by (simp_all add: with_segment_def Let_def)

section \<open>The parts of \<open>allocate\<close>\<close>

text \<open>From the collected state on.\<close>

definition pop_to_return :: "nat \<Rightarrow> threads \<Rightarrow> blk \<Rightarrow> blk list \<Rightarrow> threads" where
  "pop_to_return t st b bs = go t Outside (st\<lparr>t_free_stack := bs, t_mutex := None, t_held := b # t_held st\<rparr>)"

lemma alone_return:
  assumes "ready t st" and "t_free_stack st = b # bs"
    and "q = Pop_Locked \<or> q = Pop_Collected \<or> (\<exists>k. q = Pop_Loop k)"
  shows "alone c t (go t q st) (pop_to_return t st b bs)"
proof -
  have r: "ready t (st\<lparr>t_free_stack := bs\<rparr>)" using assms(1) by (simp add: ready_def)
  have "alone c t (go t (Return b) (st\<lparr>t_free_stack := bs\<rparr>)) (pop_to_return t st b bs)"
    by (rule alone_step [OF r _ alone.stay]) (simp add: go_def pop_to_return_def)
  then show ?thesis
    by (rule alone_step [OF assms(1), rotated]) (use assms(2,3) in \<open>auto simp: go_def pop_free_def\<close>)
qed

lemma pop_to_return_simps [simp]:
  "t_free_stack (pop_to_return t st b bs) = bs" "t_map (pop_to_return t st b bs) = t_map st"
  "t_segments (pop_to_return t st b bs) = t_segments st" "t_freed_stack (pop_to_return t st b bs) = t_freed_stack st"
  "t_num_freed (pop_to_return t st b bs) = t_num_freed st" "t_next (pop_to_return t st b bs) = t_next st"
  "t_mutex (pop_to_return t st b bs) = None" "t_held (pop_to_return t st b bs) = b # t_held st"
  "t_position (pop_to_return t st b bs) = (t_position st)[t := Outside]"
  "t_dangling (pop_to_return t st b bs) = t_dangling st"
  by (simp_all add: pop_to_return_def go_def)

text \<open>Up to the collected state.\<close>

lemma alone_to_collected:
  assumes "ready t st" and "t_free_stack st = []" and "t_mutex st = None"
  shows "alone c t (go t Pop_First st) (go t Pop_Collected (fold emptied (t_map st) (st\<lparr>t_mutex := Some t\<rparr>)))"
proof -
  let ?l = "st\<lparr>t_mutex := Some t\<rparr>"
  have r: "ready t ?l" using assms(1) by (simp add: ready_def)
  have "alone c t (go t (Collect (t_map st)) ?l) (go t Pop_Collected (fold emptied (t_map st) ?l))"
    using r by (rule alone_collect)
  then have "alone c t (go t Pop_Locked ?l) (go t Pop_Collected (fold emptied (t_map st) ?l))"
    by (rule alone_step [OF r, rotated]) (simp add: go_def pop_free_def assms(2))
  then have "alone c t (go t Lock_Allocate st) (go t Pop_Collected (fold emptied (t_map st) ?l))"
    by (rule alone_step [OF assms(1), rotated]) (simp add: go_def assms(3))
  then show ?thesis by (rule alone_step [OF assms(1), rotated]) (simp add: go_def pop_free_def assms(2))
qed

lemma alone_to_add:
  assumes "ready t st" and "t_free_stack st = []"
  shows "alone c t (go t Pop_Collected st) (go t (Add_Segment 1) st)"
proof -
  have "alone c t (go t (Pop_Loop 0) st) (go t (Add_Segment 1) st)"
    by (rule alone_step [OF assms(1) _ alone.stay]) (simp add: go_def pop_free_def assms(2))
  then show ?thesis by (rule alone_step [OF assms(1), rotated]) (simp add: go_def pop_free_def assms(2))
qed

lemma alone_to_added:
  assumes "ready t st" and "t_free_stack st = []"
  shows "alone c t (go t Pop_Collected st) (go t (Pop_Loop 1) (with_segment c st))"
  by (rule alone_trans [OF alone_to_add [OF assms] alone_add_segment [OF assms(1)]])

section \<open>The parts of \<open>free\<close>\<close>

text \<open>The state after a block was pushed to its segment and counted.\<close>

definition counted_back :: "threads \<Rightarrow> blk \<Rightarrow> threads" where
  "counted_back st x = st\<lparr>t_freed_stack := (t_freed_stack st)(fst x := x # t_freed_stack st (fst x)),
     t_num_freed := (t_num_freed st)(fst x := t_num_freed st (fst x) + 1)\<rparr>"

lemma counted_back_simps [simp]:
  "t_free_stack (counted_back st x) = t_free_stack st" "t_map (counted_back st x) = t_map st"
  "t_segments (counted_back st x) = t_segments st" "t_next (counted_back st x) = t_next st"
  "t_mutex (counted_back st x) = t_mutex st" "t_held (counted_back st x) = t_held st"
  "t_position (counted_back st x) = t_position st" "t_dangling (counted_back st x) = t_dangling st"
  by (simp_all add: counted_back_def)

lemma alone_count:
  assumes "ready t st" and "fst x \<in> set (t_segments st)" and "length (t_freed_stack st (fst x)) < pc_num_blocks c"
  shows "alone c t (go t (Push_Freed x) st)
    (go t (if pc_never_free c then Outside else Check_Empty x) (counted_back st x))"
proof -
  let ?st1 = "st\<lparr>t_freed_stack := (t_freed_stack st)(fst x := x # t_freed_stack st (fst x))\<rparr>"
  have r: "ready t ?st1" using assms(1) by (simp add: ready_def)
  have "alone c t (go t (Count_Freed x) ?st1)
      (go t (if pc_never_free c then Outside else Check_Empty x) (counted_back st x))"
    by (rule alone_step [OF r _ alone.stay]) (use assms(2) in \<open>simp add: go_def on_segment_def counted_back_def\<close>)
  then show ?thesis
    by (rule alone_step [OF assms(1), rotated]) (use assms(2,3) in \<open>simp add: go_def on_segment_def\<close>)
qed

definition erased_segment :: "threads \<Rightarrow> nat \<Rightarrow> threads" where
  "erased_segment st s = st\<lparr>t_map := remove1 s (t_map st), t_segments := remove1 s (t_segments st),
     t_freed_stack := (t_freed_stack st)(s := [])\<rparr>"

text \<open>Looking at the segment, and erasing it if it may go.\<close>

lemma alone_check:
  assumes "ready t st" and "fst x \<in> set (t_segments st)" and "t_segments st = t_map st" and "t_mutex st = None"
  shows "alone c t (go t (Check_Empty x) st)
    (go t Outside (if thread_is_empty c st (fst x) \<and> pc_num_reserve_segments c < length (t_map st)
       then erased_segment st (fst x) else st))"
proof (cases "thread_is_empty c st (fst x)")
  case True
  let ?l = "st\<lparr>t_mutex := Some t\<rparr>"
  let ?e = "if pc_num_reserve_segments c < length (t_map st) then erased_segment st (fst x) else st"
  let ?le = "if pc_num_reserve_segments c < length (t_map st) then erased_segment ?l (fst x) else ?l"
  have r: "ready t ?l" "ready t ?le" using assms(1) by (simp_all add: ready_def erased_segment_def)
  have free: "?le\<lparr>t_mutex := None\<rparr> = ?e" using assms(4) by (cases st) (simp add: erased_segment_def)
  have "code_step c t (go t Unlock_Free ?le) Unlock_Free = Some (go t Outside (?le\<lparr>t_mutex := None\<rparr>))"
    by (simp add: go_def)
  then have unlock: "alone c t (go t Unlock_Free ?le) (go t Outside ?e)"
    using alone_step [OF r(2) _ alone.stay] unfolding free by blast
  have "alone c t (go t (Check_Locked x) ?l) (go t Outside ?e)"
  proof (cases "pc_num_reserve_segments c < length (t_map st)")
    case True
    have "alone c t (go t (Erase x) ?l) (go t Outside ?e)"
      by (rule alone_step [OF r(1) _ unlock])
        (use assms(2,3) True in \<open>simp add: go_def erased_segment_def\<close>)
    then show ?thesis
      by (rule alone_step [OF r(1), rotated])
        (use assms(2) True \<open>thread_is_empty c st (fst x)\<close> in \<open>simp add: go_def on_segment_def thread_is_empty_def\<close>)
  next
    case False
    have "alone c t (go t Unlock_Free ?l) (go t Outside ?e)" using unlock False by simp
    then show ?thesis
      by (rule alone_step [OF r(1), rotated]) (use assms(2) False in \<open>simp add: go_def on_segment_def\<close>)
  qed
  then have "alone c t (go t (Lock_Free x) st) (go t Outside ?e)"
    by (rule alone_step [OF assms(1), rotated]) (use assms(4) in \<open>simp add: go_def\<close>)
  then have "alone c t (go t (Check_Empty x) st) (go t Outside ?e)"
    by (rule alone_step [OF assms(1), rotated])
      (use assms(2) True in \<open>simp add: go_def on_segment_def thread_is_empty_def\<close>)
  then show ?thesis using True by simp
next
  case False
  have "alone c t (go t (Check_Empty x) st) (go t Outside st)"
    by (rule alone_step [OF assms(1) _ alone.stay])
      (use assms(2) False in \<open>simp add: go_def on_segment_def thread_is_empty_def\<close>)
  then show ?thesis using False by simp
qed

end
