(* ===== verification/Threads_Link.thy ===== *)
theory Threads_Link
  imports Threads_Alone Pool_Properties
begin

text \<open>
  The two models of a pool agree: a thread that runs alone, step by step, does to the stacks, the
  segments and the counters what the operations of \<open>Pool\<close> do in one go. So what one model leaves out
  (the memory behind a block, or the other threads) is supplied by the other.
\<close>

section \<open>The same pool in both models\<close>

















section \<open>Allocation\<close>





















section \<open>Freeing\<close>










section \<open>Sequences of requests\<close>






end
