(* ===== verification/Monitor.thy ===== *)
theory Monitor
  imports Prelude
begin

text \<open>
  Code that runs under a \<open>std::lock_guard\<close> from its first access to shared state to its last, as
  \<open>heap::get_instance\<close> and the map of large heaps in \<open>include/hwmalloc/heap.hpp\<close> do, called by threads
  that interleave. Calls take effect one after the other, as if each were a single step.
\<close>

section \<open>State\<close>

text \<open>
  A guarded section: the requests that reach it, where it starts, and one access to the shared state
  at each position, which goes on or ends the section with a result. \<open>'w\<close> is what the access finds
  outside the process.
\<close>

record ('w, 'q, 'p, 'r, 's) guarded =
  gd_accepts :: "'q \<Rightarrow> bool"
  gd_start :: "'q \<Rightarrow> 'p"
  gd_access :: "'w \<Rightarrow> 'p \<Rightarrow> 's \<Rightarrow> 's \<times> ('p + (fault + 'r))"

text \<open>
  Where a thread is. The guard unlocks the mutex after a result and after an exception alike. A thread
  whose behaviour is undefined is not followed any further.
\<close>

datatype ('q, 'p, 'r) stage = Away | Waiting 'q | Inside 'q 'p | Leaving "fault + 'r" | Lost

text \<open>The requests are recorded with their results, in the order in which they were decided.\<close>

record ('w, 'q, 'p, 'r, 's) monitor =
  mn_shared :: 's
  mn_mutex :: "nat option"
  mn_stage :: "('q, 'p, 'r) stage list"
  mn_log :: "(('w \<times> 'q) \<times> (fault + 'r)) list"

definition initial_monitor :: "'s \<Rightarrow> nat \<Rightarrow> ('w, 'q, 'p, 'r, 's) monitor" where
  "initial_monitor s n = \<lparr>mn_shared = s, mn_mutex = None, mn_stage = replicate n Away, mn_log = []\<rparr>"

section \<open>Steps\<close>

datatype 'q call = Call 'q | Go

fun after :: "fault + 'r \<Rightarrow> ('q, 'p, 'r) stage" where
  "after (Inl (Undefined u)) = Lost"
| "after r = Leaving r"

fun stage_step ::
  "('w, 'q, 'p, 'r, 's) guarded \<Rightarrow> nat \<Rightarrow> 'w \<Rightarrow> 'q call \<Rightarrow> ('w, 'q, 'p, 'r, 's) monitor
     \<Rightarrow> ('q, 'p, 'r) stage \<Rightarrow> (('w, 'q, 'p, 'r, 's) monitor \<times> ('q, 'p, 'r) stage) option" where
  "stage_step g t w (Call q) st Away = (if gd_accepts g q then Some (st, Waiting q) else None)"
| "stage_step g t w Go st (Waiting q) =
     (if mn_mutex st = None then Some (st\<lparr>mn_mutex := Some t\<rparr>, Inside q (gd_start g q)) else None)"
| "stage_step g t w Go st (Inside q p) =
     (case gd_access g w p (mn_shared st) of
        (s, Inl p') \<Rightarrow> Some (st\<lparr>mn_shared := s\<rparr>, Inside q p')
      | (s, Inr r) \<Rightarrow> Some (st\<lparr>mn_shared := s, mn_log := mn_log st @ [((w, q), r)]\<rparr>, after r))"
| "stage_step g t w Go st (Leaving r) = Some (st\<lparr>mn_mutex := None\<rparr>, Away)"
| "stage_step g t w a st x = None"

definition monitor_step ::
  "('w, 'q, 'p, 'r, 's) guarded \<Rightarrow> nat \<Rightarrow> 'w \<Rightarrow> 'q call \<Rightarrow> ('w, 'q, 'p, 'r, 's) monitor
     \<Rightarrow> ('w, 'q, 'p, 'r, 's) monitor option" where
  "monitor_step g t w a st =
     (if t < length (mn_stage st)
      then map_option (\<lambda>(st', x). st'\<lparr>mn_stage := (mn_stage st')[t := x]\<rparr>) (stage_step g t w a st (mn_stage st ! t))
      else None)"

fun monitor_run ::
  "('w, 'q, 'p, 'r, 's) guarded \<Rightarrow> (nat \<times> 'w \<times> 'q call) list \<Rightarrow> ('w, 'q, 'p, 'r, 's) monitor
     \<Rightarrow> ('w, 'q, 'p, 'r, 's) monitor option" where
  "monitor_run g [] st = Some st"
| "monitor_run g ((t, w, a) # as) st = Option.bind (monitor_step g t w a st) (monitor_run g as)"

lemma monitor_run_append: "monitor_run g (as @ bs) st = Option.bind (monitor_run g as st) (monitor_run g bs)"
proof (induction as arbitrary: st)
  case (Cons a as)
  then show ?case by (cases a; cases "monitor_step g (fst a) (fst (snd a)) (snd (snd a)) st") simp_all
qed simp

text \<open>The same requests one after the other.\<close>

fun serial :: "('w \<Rightarrow> 'q \<Rightarrow> 's \<Rightarrow> 's \<times> 'r) \<Rightarrow> 's \<Rightarrow> ('w \<times> 'q) list \<Rightarrow> 's \<times> 'r list" where
  "serial f s [] = (s, [])"
| "serial f s ((w, q) # qs) =
     (case f w q s of (s', r) \<Rightarrow> (case serial f s' qs of (s'', rs) \<Rightarrow> (s'', r # rs)))"

lemma serial_snoc:
  assumes "serial f s qs = (s1, rs)" and "f w q s1 = (s2, r)"
  shows "serial f s (qs @ [(w, q)]) = (s2, rs @ [r])"
  using assms
proof (induction qs arbitrary: s rs)
  case (Cons a qs)
  then show ?case by (cases a) (auto split: prod.splits)
qed simp

text \<open>The kinds of step.\<close>

lemma monitor_step_cases [consumes 1, case_names call enter access finish leave]:
  assumes "monitor_step g t w a st = Some st'"
  obtains q where "a = Call q" and "mn_stage st ! t = Away" and "gd_accepts g q"
      and "st' = st\<lparr>mn_stage := (mn_stage st)[t := Waiting q]\<rparr>"
  | q where "a = Go" and "mn_stage st ! t = Waiting q" and "mn_mutex st = None"
      and "st' = st\<lparr>mn_mutex := Some t, mn_stage := (mn_stage st)[t := Inside q (gd_start g q)]\<rparr>"
  | q p p' s where "a = Go" and "mn_stage st ! t = Inside q p" and "gd_access g w p (mn_shared st) = (s, Inl p')"
      and "st' = st\<lparr>mn_shared := s, mn_stage := (mn_stage st)[t := Inside q p']\<rparr>"
  | q p r s where "a = Go" and "mn_stage st ! t = Inside q p" and "gd_access g w p (mn_shared st) = (s, Inr r)"
      and "st' = st\<lparr>mn_shared := s, mn_log := mn_log st @ [((w, q), r)], mn_stage := (mn_stage st)[t := after r]\<rparr>"
  | r where "a = Go" and "mn_stage st ! t = Leaving r"
      and "st' = st\<lparr>mn_mutex := None, mn_stage := (mn_stage st)[t := Away]\<rparr>"
proof -
  obtain st1 x where x: "stage_step g t w a st (mn_stage st ! t) = Some (st1, x)"
    and st': "st' = st1\<lparr>mn_stage := (mn_stage st1)[t := x]\<rparr>"
    using assms by (auto simp: monitor_step_def split: if_splits)
  show ?thesis
  proof (cases "mn_stage st ! t")
    case Away
    then show ?thesis using x st' that(1) by (cases a) (auto split: if_splits)
  next
    case (Waiting q)
    then show ?thesis using x st' that(2) by (cases a) (auto split: if_splits)
  next
    case (Inside q p)
    obtain s y where y: "gd_access g w p (mn_shared st) = (s, y)" by (cases "gd_access g w p (mn_shared st)")
    show ?thesis
    proof (cases y)
      case (Inl p')
      then show ?thesis using Inside x st' y that(3) by (cases a) auto
    next
      case (Inr r)
      then show ?thesis using Inside x st' y that(4) by (cases a) auto
    qed
  next
    case (Leaving r)
    then show ?thesis using x st' that(5) by (cases a) auto
  next
    case Lost
    then show ?thesis using x by (cases a) simp_all
  qed
qed

lemma monitor_step_thread: "monitor_step g t w a st = Some st' \<Longrightarrow> t < length (mn_stage st)"
  by (simp add: monitor_step_def split: if_splits)

lemma waiting_update:
  "Waiting q \<in> set (xs[t := x]) \<Longrightarrow> Waiting q = x \<or> Waiting q \<in> set xs"
  using set_update_subset_insert by fastforce

lemma after_past [simp]:
  "after r \<noteq> Waiting q" "Waiting q \<noteq> after r" "after r \<noteq> Inside q p" "Inside q p \<noteq> after r"
  by (cases r rule: after.cases; simp)+

text \<open>The requests that threads wait or are inside for, or whose result is recorded, have been made.\<close>

definition requests :: "('w, 'q, 'p, 'r, 's) monitor \<Rightarrow> 'q set" where
  "requests st = {q. Waiting q \<in> set (mn_stage st) \<or> (\<exists>p. Inside q p \<in> set (mn_stage st))}
     \<union> (\<lambda>x. snd (fst x)) ` set (mn_log st)"

lemma requests_step:
  assumes "monitor_step g t w a st = Some st'"
  shows "requests st' \<subseteq> requests st \<union> {q. a = Call q \<and> gd_accepts g q}"
proof -
  have upd: "y \<in> set (xs[t := x]) \<Longrightarrow> y = x \<or> y \<in> set xs" for x y :: "('q, 'p, 'r) stage" and xs
    using set_update_subset_insert by fastforce
  have t: "mn_stage st ! t \<in> set (mn_stage st)" using monitor_step_thread [OF assms] by simp
  from assms show ?thesis
  proof (cases rule: monitor_step_cases)
    case (enter q)
    then show ?thesis using t by (auto simp: requests_def dest!: upd)
  next
    case (access q p p' s)
    then show ?thesis using t by (auto simp: requests_def dest!: upd)
  next
    case (finish q p r s)
    then show ?thesis using t by (auto simp: requests_def dest!: upd)
  qed (auto simp: requests_def dest!: upd)
qed

lemma requests_run:
  "monitor_run g as st = Some st'
    \<Longrightarrow> requests st' \<subseteq> requests st \<union> {q. Call q \<in> (\<lambda>a. snd (snd a)) ` set as \<and> gd_accepts g q}"
proof (induction as arbitrary: st)
  case (Cons a as)
  obtain st1 where "monitor_step g (fst a) (fst (snd a)) (snd (snd a)) st = Some st1"
    "monitor_run g as st1 = Some st'"
    using Cons.prems by (cases a) (auto simp: bind_eq_Some_conv)
  then show ?case using requests_step Cons.IH [of st1] by fastforce
qed simp

text \<open>A thread is lost by a recorded result only.\<close>

definition lost_recorded :: "('w, 'q, 'p, 'r, 's) monitor \<Rightarrow> bool" where
  "lost_recorded st \<longleftrightarrow> (Lost \<in> set (mn_stage st) \<longrightarrow> (\<exists>u. Inl (Undefined u) \<in> snd ` set (mn_log st)))"

lemma after_Lost: "Lost = after r \<Longrightarrow> \<exists>u. r = Inl (Undefined u)"
  by (cases r rule: after.cases) simp_all

lemma lost_step:
  assumes "lost_recorded st" and "monitor_step g t w a st = Some st'"
  shows "lost_recorded st'"
proof -
  have upd: "y \<in> set (xs[t := x]) \<Longrightarrow> y = x \<or> y \<in> set xs" for x y :: "('q, 'p, 'r) stage" and xs
    using set_update_subset_insert by fastforce
  from assms(2) show ?thesis
  proof (cases rule: monitor_step_cases)
    case (finish q p r s)
    then show ?thesis using assms(1) by (force simp: lost_recorded_def dest!: upd after_Lost)
  qed (use assms(1) in \<open>auto simp: lost_recorded_def dest!: upd\<close>)
qed

lemma lost_run: "lost_recorded st \<Longrightarrow> monitor_run g as st = Some st' \<Longrightarrow> lost_recorded st'"
proof (induction as arbitrary: st)
  case (Cons a as)
  obtain st1 where "monitor_step g (fst a) (fst (snd a)) (snd (snd a)) st = Some st1"
    "monitor_run g as st1 = Some st'"
    using Cons.prems(2) by (cases a) (auto simp: bind_eq_Some_conv)
  then show ?case using Cons.IH lost_step [OF Cons.prems(1)] by blast
qed simp

lemma initial_requests [simp]: "requests (initial_monitor s n) = {}" "lost_recorded (initial_monitor s n)"
  by (auto simp: requests_def lost_recorded_def initial_monitor_def)

section \<open>What the guard provides\<close>

fun outside :: "('q, 'p, 'r) stage \<Rightarrow> bool" where
  "outside Away = True"
| "outside (Waiting q) = True"
| "outside _ = False"

text \<open>
  The laws: \<open>inside q p s\<^sub>0 s\<close> says that the section for \<open>q\<close> which found \<open>s\<^sub>0\<close> can be at \<open>p\<close> with \<open>s\<close>; when it
  ends, it has done what \<open>whole\<close> does to \<open>s\<^sub>0\<close> in one step. Every access brings the end nearer.
\<close>

locale guarded_section =
  fixes g :: "('w, 'q, 'p, 'r, 's) guarded"
    and whole :: "'w \<Rightarrow> 'q \<Rightarrow> 's \<Rightarrow> 's \<times> (fault + 'r)"
    and good :: "'s \<Rightarrow> bool"
    and inside :: "'q \<Rightarrow> 'p \<Rightarrow> 's \<Rightarrow> 's \<Rightarrow> bool"
    and rank :: "'p \<Rightarrow> nat"
  assumes enters: "good s \<Longrightarrow> gd_accepts g q \<Longrightarrow> inside q (gd_start g q) s s"
    and stays: "inside q p s0 s \<Longrightarrow> gd_access g w p s = (s', Inl p') \<Longrightarrow> inside q p' s0 s'"
    and nearer: "gd_access g w p s = (s', Inl p') \<Longrightarrow> rank p' < rank p"
    and ends: "inside q p s0 s \<Longrightarrow> gd_access g w p s = (s', Inr r) \<Longrightarrow> whole w q s0 = (s', r)"
    and keeps: "good s \<Longrightarrow> gd_accepts g q \<Longrightarrow> whole w q s = (s', r) \<Longrightarrow> good s'"
begin

text \<open>At most one thread is past the mutex, and the section it is in found \<open>s\<close>.\<close>

fun past :: "'s \<Rightarrow> 's \<Rightarrow> ('q, 'p, 'r) stage \<Rightarrow> bool" where
  "past s s' (Inside q p) \<longleftrightarrow> gd_accepts g q \<and> inside q p s s'"
| "past s s' (Leaving r) \<longleftrightarrow> s' = s"
| "past s s' Lost \<longleftrightarrow> s' = s"
| "past s s' _ \<longleftrightarrow> False"

definition holder_ok :: "('w, 'q, 'p, 'r, 's) monitor \<Rightarrow> 's \<Rightarrow> bool" where
  "holder_ok st s \<longleftrightarrow>
     (case mn_mutex st of
        None \<Rightarrow> mn_shared st = s \<and> (\<forall>u < length (mn_stage st). outside (mn_stage st ! u))
      | Some t \<Rightarrow> t < length (mn_stage st)
          \<and> (\<forall>u < length (mn_stage st). u \<noteq> t \<longrightarrow> outside (mn_stage st ! u))
          \<and> past s (mn_shared st) (mn_stage st ! t))"

definition monitor_ok :: "'s \<Rightarrow> ('w, 'q, 'p, 'r, 's) monitor \<Rightarrow> bool" where
  "monitor_ok s0 st \<longleftrightarrow>
     (\<forall>q. Waiting q \<in> set (mn_stage st) \<longrightarrow> gd_accepts g q)
     \<and> (\<exists>s. serial whole s0 (map fst (mn_log st)) = (s, map snd (mn_log st)) \<and> good s \<and> holder_ok st s)"

lemma past_after: "past s s (after r)"
  by (cases r rule: after.cases) simp_all

lemma holder_past:
  assumes "holder_ok st s" and "t < length (mn_stage st)" and "\<not> outside (mn_stage st ! t)"
  shows "mn_mutex st = Some t" and "past s (mn_shared st) (mn_stage st ! t)"
    and "\<forall>u < length (mn_stage st). u \<noteq> t \<longrightarrow> outside (mn_stage st ! u)"
  using assms by (auto simp: holder_ok_def split: option.splits)

lemma initial_ok: "good s \<Longrightarrow> monitor_ok s (initial_monitor s n)"
  by (simp add: monitor_ok_def holder_ok_def initial_monitor_def)

lemma step_ok:
  assumes ok: "monitor_ok s0 st" and step: "monitor_step g t w a st = Some st'"
  shows "monitor_ok s0 st'"
proof -
  obtain s where s: "serial whole s0 (map fst (mn_log st)) = (s, map snd (mn_log st))" "good s" "holder_ok st s"
    using ok by (auto simp: monitor_ok_def)
  have acc: "gd_accepts g q" if "Waiting q \<in> set (mn_stage st)" for q
    using ok that by (simp add: monitor_ok_def)
  have t: "t < length (mn_stage st)" by (rule monitor_step_thread [OF step])
  have same: "monitor_ok s0 st'" if "holder_ok st' s" "mn_log st' = mn_log st"
    "mn_stage st' = (mn_stage st)[t := x]" "\<And>q. x = Waiting q \<Longrightarrow> gd_accepts g q" for x
    using s that acc by (auto simp: monitor_ok_def dest!: waiting_update)
  from step show ?thesis
  proof (cases rule: monitor_step_cases)
    case (call q)
    have "holder_ok st' s"
      using s(3) t call(2) by (auto simp: call(4) holder_ok_def nth_list_update split: option.splits)
    then show ?thesis by (rule same [where x = "Waiting q"]) (simp_all add: call)
  next
    case (enter q)
    have "gd_accepts g q" using acc t enter(2) by (metis nth_mem)
    then have "holder_ok st' s"
      using s(3) t enter(3) enters [OF s(2)] by (simp add: enter(4) holder_ok_def)
    then show ?thesis by (rule same [where x = "Inside q (gd_start g q)"]) (simp_all add: enter(4))
  next
    case (access q p p' s1)
    have "holder_ok st' s"
      using holder_past [OF s(3) t] t access(2) stays [OF _ access(3)] by (simp add: access(4) holder_ok_def)
    then show ?thesis by (rule same [where x = "Inside q p'"]) (simp_all add: access(4))
  next
    case (finish q p r s1)
    have m: "mn_mutex st = Some t" "gd_accepts g q" "inside q p s (mn_shared st)"
      "\<forall>u < length (mn_stage st). u \<noteq> t \<longrightarrow> outside (mn_stage st ! u)"
      using holder_past [OF s(3) t] finish(2) by simp_all
    have w: "whole w q s = (s1, r)" by (rule ends [OF m(3) finish(3)])
    have "holder_ok st' s1"
      using m(1,4) t past_after [of s1 r] by (simp add: finish(4) holder_ok_def)
    moreover have "serial whole s0 (map fst (mn_log st')) = (s1, map snd (mn_log st'))"
      using serial_snoc [OF s(1) w] by (simp add: finish(4))
    moreover have "gd_accepts g q'" if "Waiting q' \<in> set (mn_stage st')" for q'
      using that acc by (auto simp: finish(4) dest!: waiting_update)
    ultimately show ?thesis using keeps [OF s(2) m(2) w] by (auto simp: monitor_ok_def)
  next
    case (leave r)
    have "holder_ok st' s"
      using holder_past [OF s(3) t] t leave(2) by (simp add: leave(3) holder_ok_def nth_list_update)
    then show ?thesis by (rule same [where x = Away]) (simp_all add: leave(3))
  qed
qed

lemma run_ok: "monitor_ok s0 st \<Longrightarrow> monitor_run g as st = Some st' \<Longrightarrow> monitor_ok s0 st'"
proof (induction as arbitrary: st)
  case (Cons a as)
  obtain u st1 where "monitor_step g (fst a) (fst (snd a)) (snd (snd a)) st = Some st1"
    "monitor_run g as st1 = Some st'"
    using Cons.prems(2) by (cases a) (auto simp: bind_eq_Some_conv)
  then show ?case using Cons.IH step_ok [OF Cons.prems(1)] by blast
qed simp

text \<open>Calls take effect one after the other.\<close>

lemma run_serial:
  assumes "good s" and "monitor_run g as (initial_monitor s n) = Some st"
  shows "map snd (mn_log st) = snd (serial whole s (map fst (mn_log st)))"
    and "mn_mutex st = None \<Longrightarrow> mn_shared st = fst (serial whole s (map fst (mn_log st)))"
  using run_ok [OF initial_ok [OF assms(1)] assms(2)] by (auto simp: monitor_ok_def holder_ok_def)

text \<open>Only requests that reach the guard are recorded, and a thread is lost by a recorded result only.\<close>

lemma run_accepts:
  assumes "monitor_run g as (initial_monitor s n) = Some st" and "x \<in> set (mn_log st)"
  shows "gd_accepts g (snd (fst x)) \<and> Call (snd (fst x)) \<in> (\<lambda>a. snd (snd a)) ` set as"
proof -
  have "snd (fst x) \<in> requests st" using assms(2) by (simp add: requests_def)
  then show ?thesis using requests_run [OF assms(1)] by auto
qed

text \<open>Two threads are never past the mutex at the same time.\<close>

lemma run_exclusive:
  assumes "good s" and "monitor_run g as (initial_monitor s n) = Some st"
    and "t < length (mn_stage st)" and "u < length (mn_stage st)"
    and "\<not> outside (mn_stage st ! t)" and "\<not> outside (mn_stage st ! u)"
  shows "t = u"
proof -
  obtain s' where "holder_ok st s'"
    using run_ok [OF initial_ok [OF assms(1)] assms(2)] by (auto simp: monitor_ok_def)
  then show ?thesis using assms(3-6) by (cases "mn_mutex st") (auto simp: holder_ok_def)
qed

text \<open>What is left to do for a thread.\<close>

fun todo :: "('q, 'p, 'r) stage \<Rightarrow> nat" where
  "todo (Waiting q) = rank (gd_start g q) + 3"
| "todo (Inside q p) = rank p + 2"
| "todo (Leaving r) = 1"
| "todo _ = 0"

lemma go_possible:
  assumes ok: "monitor_ok s0 st" and lost: "Lost \<notin> set (mn_stage st)"
    and t: "t < length (mn_stage st)" "mn_stage st ! t \<noteq> Away"
  obtains u st' where "monitor_step g u w Go st = Some st'"
proof -
  obtain s where s: "holder_ok st s" using ok by (auto simp: monitor_ok_def)
  show ?thesis
  proof (cases "mn_mutex st")
    case None
    then have "outside (mn_stage st ! t)" using s t(1) by (simp add: holder_ok_def)
    then obtain q where "mn_stage st ! t = Waiting q" using t(2) by (cases "mn_stage st ! t") auto
    then show ?thesis using None t(1) that [of t] by (simp add: monitor_step_def)
  next
    case (Some u)
    then have u: "u < length (mn_stage st)" "\<exists>q p. mn_stage st ! u = Inside q p \<or> (\<exists>r. mn_stage st ! u = Leaving r)"
      using s lost by (cases "mn_stage st ! u"; auto simp: holder_ok_def dest: nth_mem)+
    then have "stage_step g u w Go st (mn_stage st ! u) \<noteq> None"
      by (auto split: prod.splits sum.splits)
    then show ?thesis using u(1) that [of u] by (auto simp: monitor_step_def)
  qed
qed

lemma go_less:
  assumes "monitor_step g t w Go st = Some st'"
  shows "sum_list (map todo (mn_stage st')) < sum_list (map todo (mn_stage st))"
proof -
  have t: "t < length (mn_stage st)" by (rule monitor_step_thread [OF assms])
  have "\<exists>x. mn_stage st' = (mn_stage st)[t := x] \<and> todo x < todo (mn_stage st ! t)"
    using assms
  proof (cases rule: monitor_step_cases)
    case (access q p p' s)
    then show ?thesis using nearer [OF access(3)] by auto
  next
    case (finish q p r s)
    then have "todo (after r) < todo (mn_stage st ! t)" by (cases r rule: after.cases) simp_all
    then show ?thesis using finish(4) by auto
  qed auto
  then obtain x where x: "mn_stage st' = (mn_stage st)[t := x]" "todo x < todo (mn_stage st ! t)" by blast
  then show ?thesis using t sum_list_swap [of t "mn_stage st" todo x] by simp
qed

text \<open>
  As long as no thread is lost, all calls return if every thread that can go on does, in any order: some
  thread can, and each step brings the end nearer.
\<close>

lemma all_return:
  assumes "monitor_ok s0 st"
  obtains as st' where "monitor_run g as st = Some st'" and "\<forall>a \<in> set as. snd (snd a) = Go"
    and "set (mn_stage st') \<subseteq> {Away} \<or> Lost \<in> set (mn_stage st')"
proof -
  have "\<exists>as st'. monitor_run g as st = Some st' \<and> (\<forall>a \<in> set as. snd (snd a) = Go)
      \<and> (set (mn_stage st') \<subseteq> {Away} \<or> Lost \<in> set (mn_stage st'))"
    using assms
  proof (induction "sum_list (map todo (mn_stage st))" arbitrary: st rule: less_induct)
    case less
    show ?case
    proof (cases "set (mn_stage st) \<subseteq> {Away} \<or> Lost \<in> set (mn_stage st)")
      case True
      then show ?thesis by (intro exI [of _ "[]"] exI [of _ st]) simp
    next
      case False
      then obtain t where "t < length (mn_stage st)" "mn_stage st ! t \<noteq> Away"
        by (metis in_set_conv_nth insertI1 subsetI)
      then obtain u st1 where go: "monitor_step g u undefined Go st = Some st1"
        using go_possible [OF less.prems, of t undefined] False by blast
      obtain as st' where "monitor_run g as st1 = Some st'" "\<forall>a \<in> set as. snd (snd a) = Go"
        "set (mn_stage st') \<subseteq> {Away} \<or> Lost \<in> set (mn_stage st')"
        using less.hyps [OF go_less [OF go] step_ok [OF less.prems go]] by blast
      then show ?thesis by (intro exI [of _ "(u, undefined, Go) # as"] exI [of _ st']) (simp add: go)
    qed
  qed
  then show ?thesis using that by blast
qed

end

end
