(* ===== verification/Heap_Threads.thy ===== *)
theory Heap_Threads
  imports Monitor Heap_Instance Example_Env
begin

text \<open>
  The two places of \<open>include/hwmalloc/heap.hpp\<close> where threads share state under a \<open>std::lock_guard\<close>:
  the map of the heaps for sizes beyond the largest of the table, under the heap's \<open>m_mutex\<close>, and the
  single instance, under the mutex of \<open>get_instance\<close>. Both are interpretations of the guarded section.
  The pools work under mutexes of their own and are not touched here.
\<close>

section \<open>The map of large heaps\<close>

text \<open>The accesses of \<open>allocate\<close> under the guard: round the size, look it up, make what is missing.\<close>

datatype huge_position = Round u64 | Look_Up u64 | Make u64

fun huge_access ::
  "('h, 's) env \<Rightarrow> world \<Rightarrow> huge_position \<Rightarrow> 's heap \<Rightarrow> 's heap \<times> (huge_position + (fault + fixed_size_heap))" where
  "huge_access e w (Round bytes) h =
     (case round_to_pow_of_2 bytes of Inl f \<Rightarrow> (h, Inr (Inl f)) | Inr s \<Rightarrow> (h, Inl (Look_Up s)))"
| "huge_access e w (Look_Up s) h =
     (case map_of (h_huge_heaps h) s of Some f \<Rightarrow> (h, Inr (Inr f)) | None \<Rightarrow> (h, Inl (Make s)))"
| "huge_access e w (Make s) h =
     (case make_fixed_size_heap e w (h_pools h) s s (m_never_free (h_config h))
             (m_num_reserve_segments (h_config h)) of
        Inl f \<Rightarrow> (h, Inr (Inl f))
      | Inr (ps, f) \<Rightarrow> (h\<lparr>h_huge_heaps := (s, f) # h_huge_heaps h, h_pools := ps\<rparr>, Inr (Inr f)))"

text \<open>Only a size beyond the table gets to the guard; the limits never change.\<close>

definition beyond_table :: "'s heap \<Rightarrow> u64 \<Rightarrow> bool" where
  "beyond_table h bytes \<longleftrightarrow> \<not> bytes \<le> m_tiny_limit (h_config h) \<and> \<not> bytes \<le> h_max_size h"

definition huge_section ::
  "('h, 's) env \<Rightarrow> 's heap \<Rightarrow> (world, u64, huge_position, fixed_size_heap, 's heap) guarded" where
  "huge_section e h0 =
     \<lparr>gd_accepts = beyond_table h0,
      gd_start = Round, gd_access = huge_access e\<rparr>"

text \<open>The same in one step: what \<open>size_class\<close> does.\<close>

definition choose_heap ::
  "('h, 's) env \<Rightarrow> world \<Rightarrow> u64 \<Rightarrow> 's heap \<Rightarrow> 's heap \<times> (fault + fixed_size_heap)" where
  "choose_heap e w bytes h =
     (case size_class e h w bytes of Inl f \<Rightarrow> (h, Inl f) | Inr (h', f) \<Rightarrow> (h', Inr f))"

definition same_limits :: "'s heap \<Rightarrow> 's heap \<Rightarrow> bool" where
  "same_limits h0 h \<longleftrightarrow> h_config h = h_config h0 \<and> h_max_size h = h_max_size h0"

fun huge_inside :: "'s heap \<Rightarrow> u64 \<Rightarrow> huge_position \<Rightarrow> 's heap \<Rightarrow> 's heap \<Rightarrow> bool" where
  "huge_inside h0 bytes p s0 s \<longleftrightarrow>
     s = s0 \<and> same_limits h0 s \<and> beyond_table h0 bytes \<and>
     (case p of
        Round n \<Rightarrow> n = bytes
      | Look_Up k \<Rightarrow> round_to_pow_of_2 bytes = Inr k
      | Make k \<Rightarrow> round_to_pow_of_2 bytes = Inr k \<and> map_of (h_huge_heaps s) k = None)"

fun huge_rank :: "huge_position \<Rightarrow> nat" where
  "huge_rank (Round n) = 2"
| "huge_rank (Look_Up k) = 1"
| "huge_rank (Make k) = 0"

declare huge_inside.simps [simp del]

lemma choose_heap_limits: "same_limits h0 h \<Longrightarrow> choose_heap e w bytes h = (h', r) \<Longrightarrow> same_limits h0 h'"
  by (auto simp: choose_heap_def size_class_def same_limits_def bindE_eq_Inr Let_def
      split: sum.splits if_splits option.splits)

lemma huge_ends:
  assumes "huge_inside h0 bytes p s0 s" and "huge_access e w p s = (s', Inr r)"
  shows "choose_heap e w bytes s0 = (s', r)"
proof (cases p)
  case (Round n)
  then show ?thesis using assms
    by (auto simp: huge_inside.simps beyond_table_def choose_heap_def size_class_def same_limits_def split: sum.splits)
next
  case (Look_Up k)
  then show ?thesis using assms
    by (auto simp: huge_inside.simps beyond_table_def choose_heap_def size_class_def same_limits_def split: option.splits)
next
  case (Make k)
  then show ?thesis using assms
    by (auto simp: huge_inside.simps beyond_table_def choose_heap_def size_class_def same_limits_def split: sum.splits)
qed

interpretation huge: guarded_section "huge_section e h0" "choose_heap e" "same_limits h0" "huge_inside h0" huge_rank
  for e :: "('h, 's) env" and h0 :: "'s heap"
proof unfold_locales
  fix q p s0 s w s' p'
  assume "huge_inside h0 q p s0 s" "gd_access (huge_section e h0) w p s = (s', Inl p')"
  then show "huge_inside h0 q p' s0 s'"
    by (cases p) (auto simp: huge_section_def huge_inside.simps beyond_table_def split: sum.splits option.splits)
next
  fix w p s s' p'
  assume "gd_access (huge_section e h0) w p s = (s', Inl p')"
  then show "huge_rank p' < huge_rank p"
    by (cases p) (auto simp: huge_section_def split: sum.splits option.splits)
next
  fix q p s0 s w s' r
  assume "huge_inside h0 q p s0 s" "gd_access (huge_section e h0) w p s = (s', Inr r)"
  then show "choose_heap e w q s0 = (s', r)" by (intro huge_ends [of h0]) (simp_all add: huge_section_def)
qed (auto simp: huge_section_def huge_inside.simps beyond_table_def intro: choose_heap_limits)

text \<open>Once a class has a heap, it keeps it.\<close>

definition huge_entry :: "'s heap \<Rightarrow> u64 \<Rightarrow> fixed_size_heap option" where
  "huge_entry h bytes = (case round_to_pow_of_2 bytes of Inl f \<Rightarrow> None | Inr s \<Rightarrow> map_of (h_huge_heaps h) s)"

lemma choose_heap_entry:
  assumes "choose_heap e w bytes h = (h', r)"
  shows "huge_entry h n = Some f \<Longrightarrow> huge_entry h' n = Some f"
    and "\<not> bytes \<le> m_tiny_limit (h_config h) \<Longrightarrow> \<not> bytes \<le> h_max_size h \<Longrightarrow> r = Inr g
      \<Longrightarrow> huge_entry h' bytes = Some g"
  using assms by (auto simp: choose_heap_def size_class_def huge_entry_def bindE_eq_Inr Let_def
      split: sum.splits if_splits option.splits)

lemma serial_keeps_entry:
  "serial (choose_heap e) h ops = (h', rs) \<Longrightarrow> huge_entry h n = Some f \<Longrightarrow> huge_entry h' n = Some f"
proof (induction ops arbitrary: h rs)
  case (Cons op ops)
  obtain h1 r where h1: "choose_heap e (fst op) (snd op) h = (h1, r)"
    by (cases "choose_heap e (fst op) (snd op) h")
  then obtain rs' where "serial (choose_heap e) h1 ops = (h', rs')"
    using Cons.prems(1) by (cases op) (auto split: prod.splits)
  then show ?case using Cons.IH choose_heap_entry(1) [OF h1 Cons.prems(2)] by blast
qed simp

lemma serial_entries:
  "serial (choose_heap e) h ops = (h', rs) \<Longrightarrow> same_limits h0 h \<Longrightarrow> \<forall>op \<in> set ops. beyond_table h0 (snd op)
    \<Longrightarrow> (op, Inr g) \<in> set (zip ops rs) \<Longrightarrow> huge_entry h' (snd op) = Some g"
proof (induction ops arbitrary: h rs)
  case (Cons op1 ops)
  obtain h1 r where h1: "choose_heap e (fst op1) (snd op1) h = (h1, r)"
    by (cases "choose_heap e (fst op1) (snd op1) h")
  obtain rs' where rs: "serial (choose_heap e) h1 ops = (h', rs')" "rs = r # rs'"
    using Cons.prems(1) h1 by (cases op1) (auto split: prod.splits)
  have l: "same_limits h0 h1" by (rule choose_heap_limits [OF Cons.prems(2) h1])
  show ?case
  proof (cases "(op, Inr g) \<in> set (zip ops rs')")
    case True
    then show ?thesis using Cons.IH [OF rs(1) l] Cons.prems(3) by simp
  next
    case False
    then have "op1 = op" "r = Inr g" using Cons.prems(4) rs(2) by auto
    then have "huge_entry h1 (snd op) = Some g"
      using choose_heap_entry(2) [OF h1] Cons.prems(2,3) by (simp add: same_limits_def beyond_table_def)
    then show ?thesis by (rule serial_keeps_entry [OF rs(1)])
  qed
qed simp

text \<open>With the environment as it should be, every request up to 2 GiB gets a heap of its size.\<close>

lemma num_devices_size_class: "num_devices e v = num_devices e w \<Longrightarrow> size_class e h v b = size_class e h w b"
  by (simp add: size_class_def make_fixed_size_heap_def Let_def cong: option.case_cong)

lemma serial_served:
  assumes "heap_env e nd"
  shows "serial (choose_heap e) h ops = (h', rs) \<Longrightarrow> heap_inv e nd G h w U \<Longrightarrow> same_limits h0 h
    \<Longrightarrow> \<forall>op \<in> set ops. beyond_table h0 (snd op) \<and> unat (snd op) \<le> 2 ^ 31 \<Longrightarrow> r \<in> set rs \<Longrightarrow> \<exists>f. r = Inr f"
proof (induction ops arbitrary: h rs)
  case (Cons op ops)
  obtain v b where op: "op = (v, b)" by (cases op)
  have b: "beyond_table h0 b" "unat b \<le> 2 ^ 31" using Cons.prems(4) op by simp_all
  then have "beyond_table h b" "b \<noteq> 0" using Cons.prems(3) by (auto simp: beyond_table_def same_limits_def)
  then have "heap_serves h b" using b(2) by (simp add: heap_serves_def beyond_table_def)
  then obtain h1 f where "size_class e h w b = Inr (h1, f)"
    using size_class_serves [OF assms Cons.prems(2)] by blast
  moreover have "num_devices e v = num_devices e w" using assms by (simp add: heap_env_def)
  ultimately have sc: "size_class e h v b = Inr (h1, f)" using num_devices_size_class by metis
  then have c: "choose_heap e v b h = (h1, Inr f)" by (simp add: choose_heap_def)
  then obtain rs' where rs: "serial (choose_heap e) h1 ops = (h', rs')" "rs = Inr f # rs'"
    using Cons.prems(1) op by (auto split: prod.splits)
  have "heap_inv e nd G h1 w U"
    by (rule size_class_ok(1) [OF assms Cons.prems(2) \<open>size_class e h w b = Inr (h1, f)\<close>])
  from Cons.IH [OF rs(1) this choose_heap_limits [OF Cons.prems(3) c]] show ?case
    using Cons.prems(4,5) rs(2) by auto
qed simp

lemma huge_run:
  assumes "monitor_run (huge_section e h) as (initial_monitor h n) = Some st"
  shows "\<exists>h'. serial (choose_heap e) h (map fst (mn_log st)) = (h', map snd (mn_log st))
      \<and> (mn_mutex st = None \<longrightarrow> mn_shared st = h')"
    and "\<forall>op \<in> set (map fst (mn_log st)). beyond_table h (snd op) \<and> Call (snd op) \<in> (\<lambda>a. snd (snd a)) ` set as"
proof -
  have g: "same_limits h h" by (simp add: same_limits_def)
  show "\<exists>h'. serial (choose_heap e) h (map fst (mn_log st)) = (h', map snd (mn_log st))
      \<and> (mn_mutex st = None \<longrightarrow> mn_shared st = h')"
    using huge.run_serial [OF g assms] by (metis prod.collapse)
  show "\<forall>op \<in> set (map fst (mn_log st)). beyond_table h (snd op) \<and> Call (snd op) \<in> (\<lambda>a. snd (snd a)) ` set as"
    using huge.run_accepts [OF assms] by (simp add: huge_section_def)
qed

text \<open>
  C6: however threads interleave in the map of large heaps, their requests have the results that
  \<open>size_class\<close> gives when they come one after the other, and whenever the mutex is free the heap is what
  these leave.
\<close>

theorem heap_threads_serial:
  assumes "monitor_run (huge_section e h) as (initial_monitor h n) = Some st"
  shows "map snd (mn_log st) = snd (serial (choose_heap e) h (map fst (mn_log st)))
    \<and> (mn_mutex st = None \<longrightarrow> mn_shared st = fst (serial (choose_heap e) h (map fst (mn_log st))))"
  using huge_run(1) [OF assms] by auto

text \<open>
  C7: two threads that ask for sizes of the same class beyond the table get the same fixed-size heap,
  whichever of them made it.
\<close>

theorem heap_threads_agree:
  assumes "monitor_run (huge_section e h) as (initial_monitor h n) = Some st"
    and "((w, a), Inr f) \<in> set (mn_log st)" and "((v, b), Inr g) \<in> set (mn_log st)"
    and "round_to_pow_of_2 a = round_to_pow_of_2 b"
  shows "f = g"
proof -
  obtain h' where s: "serial (choose_heap e) h (map fst (mn_log st)) = (h', map snd (mn_log st))"
    using huge_run(1) [OF assms(1)] by blast
  have b: "\<forall>op \<in> set (map fst (mn_log st)). beyond_table h (snd op)" using huge_run(2) [OF assms(1)] by blast
  have "huge_entry h' (snd op) = Some k" if "(op, Inr k) \<in> set (mn_log st)" for op k
    by (rule serial_entries [OF s _ b]) (use that in \<open>simp_all add: same_limits_def zip_map_fst_snd\<close>)
  from this [OF assms(2)] this [OF assms(3)] show ?thesis using assms(4) by (simp add: huge_entry_def)
qed

text \<open>
  C21: when threads ask for at most 2 GiB, then from every state they reach they can go on until all
  calls have returned, and every one of them got a heap.
\<close>

theorem heap_threads_return:
  assumes "heap_env e nd" and "heap_inv e nd G h w U"
    and "\<forall>b. Call b \<in> (\<lambda>a. snd (snd a)) ` set as \<longrightarrow> unat b \<le> 2 ^ 31"
    and "monitor_run (huge_section e h) as (initial_monitor h n) = Some st"
  shows "\<exists>bs st'. (\<forall>b \<in> set bs. snd (snd b) = Go) \<and> monitor_run (huge_section e h) bs st = Some st'
    \<and> set (mn_stage st') \<subseteq> {Away} \<and> (\<forall>x \<in> set (mn_log st'). \<exists>f. snd x = Inr f)"
proof -
  have g: "same_limits h h" by (simp add: same_limits_def)
  obtain bs st' where run: "monitor_run (huge_section e h) bs st = Some st'" "\<forall>b \<in> set bs. snd (snd b) = Go"
    "set (mn_stage st') \<subseteq> {Away} \<or> Lost \<in> set (mn_stage st')"
    using huge.all_return [OF huge.run_ok [OF huge.initial_ok [OF g] assms(4)]] by blast
  have all: "monitor_run (huge_section e h) (as @ bs) (initial_monitor h n) = Some st'"
    using assms(4) run(1) by (simp add: monitor_run_append)
  have "unat (snd op) \<le> 2 ^ 31 \<and> beyond_table h (snd op)" if "op \<in> set (map fst (mn_log st'))" for op
  proof -
    have "Call (snd op) \<in> (\<lambda>a. snd (snd a)) ` set as \<union> (\<lambda>a. snd (snd a)) ` set bs"
      using huge_run(2) [OF all] that unfolding set_append image_Un by blast
    moreover have "Call (snd op) \<notin> (\<lambda>a. snd (snd a)) ` set bs" using run(2) by fastforce
    ultimately show ?thesis using assms(3) huge_run(2) [OF all] that by blast
  qed
  then have "\<exists>f. r = Inr f" if "r \<in> set (map snd (mn_log st'))" for r
    using serial_served [OF assms(1) _ assms(2) g _ that] huge_run(1) [OF all] by metis
  then have ok: "\<forall>x \<in> set (mn_log st'). \<exists>f. snd x = Inr f" by simp
  have "lost_recorded st'" by (rule lost_run [OF _ all]) simp
  then have "Lost \<notin> set (mn_stage st')" using ok by (fastforce simp: lost_recorded_def)
  then show ?thesis using run ok by blast
qed

section \<open>The single instance\<close>

text \<open>
  The accesses of \<open>get_instance\<close> under its guard: look at the instance, read the default configuration
  for the constructor's argument, construct the heap and keep it. The shared state is the configuration,
  once read, and the instance.
\<close>

datatype instance_position = Check | Configure | Construct heap_config

fun instance_access ::
  "('h, 's) env \<Rightarrow> (string \<Rightarrow> string option) \<Rightarrow> world \<Rightarrow> instance_position \<Rightarrow> heap_config option \<times> 's heap option
     \<Rightarrow> (heap_config option \<times> 's heap option) \<times> (instance_position + (fault + 's heap))" where
  "instance_access e getenv w Check (config, inst) =
     (case inst of Some h \<Rightarrow> ((config, inst), Inr (Inr h)) | None \<Rightarrow> ((config, inst), Inl Configure))"
| "instance_access e getenv w Configure (config, inst) =
     (case get_default_heap_config getenv config of
        (config', Inl f) \<Rightarrow> ((config', inst), Inr (Inl f))
      | (config', Inr c) \<Rightarrow> ((config', inst), Inl (Construct c)))"
| "instance_access e getenv w (Construct c) (config, inst) =
     (case make_heap e w c of
        Inl f \<Rightarrow> ((config, inst), Inr (Inl f))
      | Inr h \<Rightarrow> ((config, Some h), Inr (Inr h)))"

definition instance_section ::
  "('h, 's) env \<Rightarrow> (string \<Rightarrow> string option)
     \<Rightarrow> (world, unit, instance_position, 's heap, heap_config option \<times> 's heap option) guarded" where
  "instance_section e getenv =
     \<lparr>gd_accepts = (\<lambda>_. True), gd_start = (\<lambda>_. Check), gd_access = instance_access e getenv\<rparr>"

definition ask_instance ::
  "('h, 's) env \<Rightarrow> (string \<Rightarrow> string option) \<Rightarrow> world \<Rightarrow> unit \<Rightarrow> heap_config option \<times> 's heap option
     \<Rightarrow> (heap_config option \<times> 's heap option) \<times> (fault + 's heap)" where
  "ask_instance e getenv w q s =
     (case get_instance e w getenv (fst s) (snd s) of (config, inst, r) \<Rightarrow> ((config, inst), r))"

fun instance_inside ::
  "(string \<Rightarrow> string option) \<Rightarrow> instance_position \<Rightarrow> heap_config option \<times> 's heap option
     \<Rightarrow> heap_config option \<times> 's heap option \<Rightarrow> bool" where
  "instance_inside getenv Check s0 s \<longleftrightarrow> s = s0"
| "instance_inside getenv Configure s0 s \<longleftrightarrow> s = s0 \<and> snd s = None"
| "instance_inside getenv (Construct c) s0 s \<longleftrightarrow>
     get_default_heap_config getenv (fst s0) = (fst s, Inr c) \<and> snd s0 = None \<and> snd s = None"

fun instance_rank :: "instance_position \<Rightarrow> nat" where
  "instance_rank Check = 2"
| "instance_rank Configure = 1"
| "instance_rank (Construct c) = 0"

interpretation instance_guard: guarded_section "instance_section e getenv" "ask_instance e getenv" "\<lambda>_. True"
    "\<lambda>_. instance_inside getenv" instance_rank
  for e :: "('h, 's) env" and getenv
proof unfold_locales
  fix q p s0 s w s' p'
  assume "instance_inside getenv p s0 s" "gd_access (instance_section e getenv) w p s = (s', Inl p')"
  then show "instance_inside getenv p' s0 s'"
    by (cases p; cases s) (auto simp: instance_section_def split: sum.splits option.splits prod.splits)
next
  fix w p s s' p'
  assume "gd_access (instance_section e getenv) w p s = (s', Inl p')"
  then show "instance_rank p' < instance_rank p"
    by (cases p; cases s) (auto simp: instance_section_def split: sum.splits option.splits prod.splits)
next
  fix q p s0 s w s' r
  assume "instance_inside getenv p s0 s" "gd_access (instance_section e getenv) w p s = (s', Inr r)"
  then show "ask_instance e getenv w q s0 = (s', r)"
    by (cases p; cases s; cases s0)
      (auto simp: instance_section_def ask_instance_def get_instance_def split: sum.splits option.splits prod.splits)
qed (simp_all add: instance_section_def)

lemma ask_instance_kept: "snd s = Some h \<Longrightarrow> ask_instance e getenv w q s = (s, Inr h)"
  by (cases s) (simp add: ask_instance_def get_instance_def)

lemma ask_instance_made: "ask_instance e getenv w q s = (s', Inr h) \<Longrightarrow> snd s' = Some h"
  by (auto simp: ask_instance_def get_instance_def split: sum.splits option.splits prod.splits)

lemma serial_kept: "snd s = Some h \<Longrightarrow> serial (ask_instance e getenv) s ops = (s, replicate (length ops) (Inr h))"
  by (induction ops) (auto simp: ask_instance_kept)

lemma serial_instance:
  "serial (ask_instance e getenv) s ops = (s', rs) \<Longrightarrow> Inr h \<in> set rs \<Longrightarrow> snd s' = Some h"
proof (induction ops arbitrary: s rs)
  case (Cons op ops)
  obtain s1 r where s1: "ask_instance e getenv (fst op) (snd op) s = (s1, r)"
    by (cases "ask_instance e getenv (fst op) (snd op) s")
  obtain rs' where rs: "serial (ask_instance e getenv) s1 ops = (s', rs')" "rs = r # rs'"
    using Cons.prems(1) s1 by (cases op) (auto split: prod.splits)
  show ?case
  proof (cases "Inr h \<in> set rs'")
    case True
    then show ?thesis using Cons.IH rs(1) by blast
  next
    case False
    then have "r = Inr h" using Cons.prems(2) rs(2) by simp
    then have k: "snd s1 = Some h" using ask_instance_made s1 by metis
    then show ?thesis using serial_kept [OF k, of e getenv ops] rs(1) by simp
  qed
qed simp

text \<open>
  C22: however threads interleave in \<open>get_instance\<close>, all that get a heap get the same one, also when
  calls before it threw, and whenever the mutex is free it is the instance.
\<close>

theorem instance_threads_agree:
  assumes "monitor_run (instance_section e getenv) as (initial_monitor (None, None) n) = Some st"
    and "(x, Inr h) \<in> set (mn_log st)" and "(y, Inr k) \<in> set (mn_log st)"
  shows "h = k \<and> (mn_mutex st = None \<longrightarrow> snd (mn_shared st) = Some h)"
proof -
  let ?ops = "map fst (mn_log st)"
  note run = instance_guard.run_serial [OF TrueI assms(1)]
  have "Inr z \<in> set (map snd (mn_log st))" if "(u, Inr z) \<in> set (mn_log st)" for u z
    using that by force
  then have "snd (fst (serial (ask_instance e getenv) (None, None) ?ops)) = Some z"
    if "(u, Inr z) \<in> set (mn_log st)" for u z
    using serial_instance that run(1) by (metis prod.collapse)
  from this [OF assms(2)] this [OF assms(3)] run(2) show ?thesis by simp
qed

section \<open>Runs\<close>

text \<open>
  Two threads ask a new heap for sizes of one class. The second waits while the first makes the
  fixed-size heap, which it then finds.
\<close>

definition two_requests :: "(nat \<times> world \<times> u64 call) list" where
  "two_requests = [(0, [], Call 536870913), (1, [], Call 1073741824), (0, [], Go), (0, [], Go), (0, [], Go)]"

definition two_answers :: "(nat \<times> world \<times> u64 call) list" where
  "two_answers = [(0, [], Go), (0, [], Go), (1, [], Go), (1, [], Go), (1, [], Go), (1, [], Go)]"

lemma two_requests_run:
  obtains h f st where "make_heap example_env [] example_config = Inr h" and "heap_inv example_env 0 {#} h [] {#}"
    and "monitor_run (huge_section example_env h) (two_requests @ two_answers) (initial_monitor h 2) = Some st"
    and "mn_log st = [(([], 536870913), Inr f), (([], 1073741824), Inr f)]" and "mn_mutex st = None"
    and "mn_stage st = [Away, Away]"
proof -
  obtain h where h: "make_heap example_env [] example_config = Inr h" "heap_inv example_env 0 {#} h [] {#}"
    "h_config h = example_config" by (rule example_heap)
  have new: "h_huge_heaps h = []" using h(1) by (auto simp: make_heap_def Let_def bindE_eq_Inr)
  have "unat (h_max_size h) = 4194304"
    using h(2,3) by (auto simp: heap_inv_def heap_shape_def example_config_def)
  then have bt: "beyond_table h 536870913" "beyond_table h 1073741824"
    using h(3) by (simp_all add: beyond_table_def example_config_def word_le_unat)
  have r: "round_to_pow_of_2 536870913 = Inr 1073741824" "round_to_pow_of_2 1073741824 = Inr 1073741824"
    by code_simp+
  have "heap_serves h 536870913" using h(3) by (rule example_serves) simp_all
  then obtain h1 f where "size_class example_env h [] 536870913 = Inr (h1, f)"
    using size_class_serves [OF example_heap_env h(2)] by blast
  then obtain ps where ps: "make_fixed_size_heap example_env [] (h_pools h) 1073741824 1073741824
      (m_never_free (h_config h)) (m_num_reserve_segments (h_config h)) = Inr (ps, f)"
    using bt(1) r(1) new by (auto simp: size_class_def beyond_table_def bindE_eq_Inr)
  have "\<exists>st. monitor_run (huge_section example_env h) (two_requests @ two_answers) (initial_monitor h 2) = Some st
    \<and> mn_log st = [(([], 536870913), Inr f), (([], 1073741824), Inr f)] \<and> mn_mutex st = None
    \<and> mn_stage st = [Away, Away]"
    using bt r new ps
    by (simp add: two_requests_def two_answers_def huge_section_def initial_monitor_def monitor_step_def numeral_2_eq_2)
  then show ?thesis using that h(1,2) by blast
qed

lemma heap_threads_serial_witness:
  "\<exists>h f st. make_heap example_env [] example_config = Inr h
    \<and> monitor_run (huge_section example_env h) (two_requests @ two_answers) (initial_monitor h 2) = Some st
    \<and> snd (serial (choose_heap example_env) h [([], 536870913), ([], 1073741824)]) = [Inr f, Inr f]
    \<and> mn_shared st = fst (serial (choose_heap example_env) h [([], 536870913), ([], 1073741824)])"
proof -
  obtain h f st where r: "make_heap example_env [] example_config = Inr h"
    "monitor_run (huge_section example_env h) (two_requests @ two_answers) (initial_monitor h 2) = Some st"
    "mn_log st = [(([], 536870913), Inr f), (([], 1073741824), Inr f)]" "mn_mutex st = None"
    by (rule two_requests_run)
  from heap_threads_serial [OF r(2)] r show ?thesis by (intro exI [of _ h] exI [of _ f] exI [of _ st]) auto
qed

lemma heap_threads_agree_witness:
  "\<exists>h f g st. monitor_run (huge_section example_env h) (two_requests @ two_answers) (initial_monitor h 2) = Some st
    \<and> (([], 536870913), Inr f) \<in> set (mn_log st) \<and> (([], 1073741824), Inr g) \<in> set (mn_log st) \<and> f = g"
proof -
  obtain h f st where r:
    "monitor_run (huge_section example_env h) (two_requests @ two_answers) (initial_monitor h 2) = Some st"
    "mn_log st = [(([], 536870913), Inr f), (([], 1073741824), Inr f)]"
    by (rule two_requests_run)
  have "round_to_pow_of_2 536870913 = round_to_pow_of_2 1073741824" by code_simp
  from heap_threads_agree [OF r(1) _ _ this] r show ?thesis
    by (intro exI [of _ h] exI [of _ f] exI [of _ st]) auto
qed

lemma heap_threads_return_witness:
  "\<exists>h st bs st'. monitor_run (huge_section example_env h) two_requests (initial_monitor h 2) = Some st
    \<and> mn_stage st \<noteq> [Away, Away] \<and> monitor_run (huge_section example_env h) bs st = Some st'
    \<and> set (mn_stage st') \<subseteq> {Away}"
proof -
  obtain h f st where r: "heap_inv example_env 0 {#} h [] {#}"
    "monitor_run (huge_section example_env h) (two_requests @ two_answers) (initial_monitor h 2) = Some st"
    "mn_log st = [(([], 536870913), Inr f), (([], 1073741824), Inr f)]"
    by (rule two_requests_run)
  then obtain st1 where st1: "monitor_run (huge_section example_env h) two_requests (initial_monitor h 2) = Some st1"
    "monitor_run (huge_section example_env h) two_answers st1 = Some st"
    by (auto simp: monitor_run_append bind_eq_Some_conv)
  have "mn_stage st1 \<noteq> [Away, Away]" using st1(2) by (auto simp: two_answers_def monitor_step_def)
  moreover have "\<forall>b. Call b \<in> (\<lambda>a. snd (snd a)) ` set two_requests \<longrightarrow> unat b \<le> 2 ^ 31"
    by (auto simp: two_requests_def)
  ultimately show ?thesis using heap_threads_return [OF example_heap_env r(1) _ st1(1)] st1(1) by blast
qed

text \<open>Two threads ask for the instance, with no variable in the environment.\<close>

definition two_askers :: "(nat \<times> world \<times> unit call) list" where
  "two_askers = [(0, [], Call ()), (1, [], Call ()), (1, [], Go), (1, [], Go), (1, [], Go), (1, [], Go), (1, [], Go),
     (0, [], Go), (0, [], Go), (0, [], Go)]"

lemma instance_threads_agree_witness:
  "\<exists>h st x y. monitor_run (instance_section example_env (\<lambda>_. None)) two_askers (initial_monitor (None, None) 2) = Some st
    \<and> (x, Inr h) \<in> set (mn_log st) \<and> (y, Inr h) \<in> set (mn_log st) \<and> snd (mn_shared st) = Some h"
proof -
  obtain h where h: "make_heap example_env [] example_config = Inr h" by (rule example_heap)
  have "get_default_heap_config (\<lambda>_. None) None = (Some example_config, Inr example_config)"
    using default_heap_config_stable by (simp add: example_config_def Let_def)
  then have "\<exists>st. monitor_run (instance_section example_env (\<lambda>_. None)) two_askers (initial_monitor (None, None) 2)
      = Some st \<and> mn_log st = [(([], ()), Inr h), (([], ()), Inr h)] \<and> mn_mutex st = None"
    using h by (simp add: two_askers_def instance_section_def initial_monitor_def monitor_step_def numeral_2_eq_2)
  then obtain st where st:
    "monitor_run (instance_section example_env (\<lambda>_. None)) two_askers (initial_monitor (None, None) 2) = Some st"
    "mn_log st = [(([], ()), Inr h), (([], ()), Inr h)]" "mn_mutex st = None" by blast
  from instance_threads_agree [OF st(1), of "([], ())" h "([], ())" h] st show ?thesis
    by (intro exI [of _ h] exI [of _ st]) auto
qed

end
