(* ===== verification/Spec2Isabelle.thy ===== *)
theory Spec2Isabelle
  imports Allocator_Spec Heap_Instance Heap_Device Heap_Destruction Best_Fit Container_Allocator
    Pointer_Types Device_Copy Logging Threads_Link Heap_Threads
begin

text \<open>
  A model of hwmalloc, a heap for memory that is registered with a transport layer (RDMA, GPUs).

  \<^bold>\<open>The program.\<close> A \<open>heap\<close> (\<open>include/hwmalloc/heap.hpp\<close>) has one \<open>fixed_size_heap\<close> for each size class. That
  has one \<open>pool\<close> for each NUMA node and, with devices, one more for each node and device. A pool takes
  memory from the NUMA layer (\<open>src/numa.cpp\<close>) in segments, registers it with the transport layer and cuts
  it into blocks of its size, which wait on a lock-free free stack. A block carries a pointer to its
  segment, so that \<open>heap::free\<close> needs nothing else: the block goes to the stack of freed blocks of its
  segment, a later allocation collects it from there, and a segment whose blocks are all back is
  released if the configuration allows it. Memory of the user's own can be registered too and is
  handed out as one block. Around the heap are the pointers to blocks, the allocator for containers,
  owners of objects, copies to and from devices, and logging.

  \<^bold>\<open>The theories.\<close>
  \<^item> \<open>Prelude\<close>: the machine types, faults as values (exceptions, undefined behaviour, waiting forever,
    termination of the program), lemmas on words and lists.
  \<^item> \<open>Block_Source\<close>: the interface of whatever hands out and takes back blocks, as a locale, with runs of
    requests; pool and heap are interpretations of it.
  \<^item> \<open>Environment\<close>: the operating system and the history of allocations, releases, registrations and
    deregistrations; which histories are free of faults. \<open>Memory\<close>: the invariant that ties the memory
    somebody owns to that history. \<open>Example_Env\<close>: concrete environments for the witnesses.
  \<^item> \<open>Numa\<close> (\<open>numa.hpp\<close>, \<open>numa.cpp\<close>, \<open>numa_stub.cpp\<close>): node maps, discovery, allocation and release.
  \<^item> \<open>Device\<close> and \<open>Device_Copy\<close> (\<open>device.hpp\<close>, \<open>device_none.cpp\<close>, \<open>device_emulate.cpp\<close>, \<open>device_cuda.cpp\<close>,
    \<open>device_hip.cpp\<close>): the device layer; calls that are checked by a macro, which repeats a failed call.
  \<^item> \<open>Segment\<close> (\<open>detail/block.hpp\<close>, \<open>detail/segment.hpp\<close>, \<open>register.hpp\<close>, \<open>register_device.hpp\<close>), \<open>Pool\<close>
    (\<open>detail/pool.hpp\<close>): blocks, segments and pools. \<open>Pool_Invariant\<close> has one lemma for each operation:
    what it keeps. \<open>Pool_Properties\<close> states what a pool promises. \<open>Memory_Balance\<close>: nothing is live or
    registered but what segments own.
  \<^item> \<open>Pool_Threads\<close>, \<open>Threads_Invariant\<close>, \<open>Threads_Properties\<close>: \<open>allocate\<close> and \<open>free\<close> of one pool as steps of
    threads that interleave, a step being one access to what they share (the stacks, the counters of
    the segments, the mutex); where every block is, and what goes wrong. \<open>Threads_Alone\<close>, \<open>Threads_Link\<close>:
    what a thread does that runs alone, and that it is what the operations of \<open>Pool\<close> do.
  \<^item> \<open>Monitor\<close>, \<open>Heap_Threads\<close>: sections of code under a \<open>std::lock_guard\<close>, as a locale, and the two of
    \<open>heap.hpp\<close> that interpret it: the map of large heaps, and \<open>get_instance\<close>.
  \<^item> \<open>Heap_Config\<close> (\<open>heap_config.hpp\<close>, \<open>heap_config.cpp\<close>): the configuration, its validation and the
    environment variables. \<open>Size_Class\<close>: the arithmetic on sizes, as two families of classes.
  \<^item> \<open>Fixed_Size_Heap\<close> (\<open>detail/fixed_size_heap.hpp\<close>), \<open>Heap\<close> (\<open>heap.hpp\<close>, \<open>detail/user_allocation.hpp\<close>): the
    pools of all size classes are one list, a fixed-size heap holds indices into it.
    \<open>Heap_Invariant\<close> and \<open>Heap_Properties\<close> as for pools; \<open>Best_Fit\<close>: the tables and the choice among them;
    \<open>Heap_Instance\<close>: the single instance and the nodes it is built for; \<open>Heap_Device\<close>: blocks mirrored on a
    device; \<open>User_Allocation\<close>: memory of the user's own; \<open>Heap_Balance\<close> and \<open>Heap_Destruction\<close>: no memory
    is lost unless a call throws, and the destructors give all of it back.
  \<^item> \<open>Allocator_Spec\<close>: the abstract allocator, which takes and returns pieces of memory that never
    overlap, and that heap and pool refine it.
  \<^item> \<open>Fancy_Ptr\<close>, \<open>Pointer_Types\<close> (\<open>fancy_ptr/*.hpp\<close>), \<open>Container_Allocator\<close> (\<open>allocator.hpp\<close>, \<open>fancy_ptr/unique_ptr.hpp\<close> and
    \<open>heap::make_unique\<close>), \<open>Logging\<close> (\<open>log.hpp\<close>, \<open>log.cpp\<close>).

  \<^bold>\<open>State.\<close> An object is a record with the members of its class. Objects that others point to (segments,
  user allocations) have an identity, the length of the history when they were made; pools have
  their position. Addresses and sizes are 64-bit words and wrap around; the configuration's
  \<open>unsigned int\<close>s are 32 bits wide. An operation gives \<open>None\<close> if it never returns, and else the new
  state with a result or a fault.

  \<^bold>\<open>Outside the repository\<close> and so arguments of the model: the operating system and libnuma, the
  transport layer's \<open>register_memory\<close> with its regions and handles, the GPU libraries, the lock-free
  stack, the order of an unordered map, the constructors of element types. What is assumed of them is
  in \<open>os_ok\<close>, \<open>gpu_ok\<close>, \<open>stack_ok\<close>, \<open>env_ok\<close> and \<open>heap_env\<close>: an allocator returns fresh memory or none, a region
  covers what was registered, a stack keeps what is pushed. Each is shown to hold of an example.

  \<^bold>\<open>Loops.\<close> The loop in \<open>pool::allocate\<close> and the spinning push may run forever, and are partial functions
  into \<open>option\<close>; under the invariant they return, the first after one pass (\<open>alloc_loop_once\<close>). All
  other loops are structural recursion, on lists or on numbers that bound them in the code.

  \<^bold>\<open>What is shown.\<close> Requests from 1 byte to 2 GiB return, with a block of the best-fitting class in live
  registered memory that overlaps no other, or with an exception; sequences of requests refine the
  abstract allocator; freed memory is given back; round trips through user registration, the
  allocator, \<open>make_unique\<close>, device copies, the environment; validation of the configuration. Where the
  code is not defined (0 bytes, more than 2 GiB, some accepted configurations) or does not keep what it
  should (a mutex left locked by an exception, leaks, products that wrap around) theorems say so.

  \<^bold>\<open>Threads.\<close> The operations of pool and heap with memory, devices and exceptions are sequences of steps of
  one thread, with the mutex kept to show what an exception leaves behind. Their interleaving is
  modelled for one pool, without what is behind a block: the invariant says that every block of a
  segment that exists is in one place, so that no block is handed out twice and no segment erased
  under a user; that the threads do not deadlock; and that a thread in \<open>free\<close> can ask a segment that
  another one has destroyed. The two models agree on one thread, block by block and up to an exception
  out of \<open>allocate\<close> (for a map that iterates over its newest entry first, as the thread model does;
  the code relies on no order). Above the pools, threads interleave access by access in the map of large
  heaps and in \<open>get_instance\<close>: what they are given is what the sequential \<open>size_class\<close> and \<open>get_instance\<close>
  give in some order, all calls can return, and an exception unlocks the guard. Logging is modelled with
  its threads.

  \<^bold>\<open>Not modelled.\<close> Weak memory: a step is atomic. Threads in the device layer, which selects a device
  for the thread it runs in. The text of log messages at each call. The arithmetic of pointers to
  constants, which does not compile. The static checks of \<open>region_traits\<close>.
\<close>

end
